(* ===== verification/FF_Prelude.thy ===== *)
theory FF_Prelude
  imports Main "HOL-Library.Word"
begin

text \<open>
  The shared ground of the development: names for the C integer types, the fact collections the
  component theories fill, and generic lemmas on lists, sums and words.

  \<^item> unsigned C integers of fixed width are words (\<open>u8\<close>, \<open>u16\<close>, \<open>u32\<close>, \<open>u64\<close>), so that
    \<open>+\<close>, \<open>-\<close> and \<open>*\<close> wrap as in C;
  \<^item> a C \<open>int\<close> that the code uses as a plain number or as a return code is an \<open>int\<close>;
  \<^item> array indices and loop counters are \<open>nat\<close>.
\<close>

section \<open>Types of the C sources\<close>

type_synonym u8 = "8 word"
type_synonym u16 = "16 word"
type_synonym u32 = "32 word"
type_synonym u64 = "64 word"

unbundle bit_operations_syntax

named_theorems ff_defs \<open>definitions of operations that component proofs unfold\<close>
named_theorems ff_inv \<open>preservation facts of invariants\<close>

section \<open>Lists\<close>

lemma length_filter_upt_split:
  assumes "j < n"
  shows "length (filter P [0..<n]) =
    length (filter P [0..<j]) + (if P j then 1 else 0) + length (filter P [Suc j..<n])"
proof -
  have "[0..<n] = [0..<j] @ j # [Suc j..<n]"
    using assms by (metis upt_add_eq_append le0 less_imp_le le_add_diff_inverse upt_conv_Cons)
  then show ?thesis by simp
qed

lemma card_filter_lessThan_update:
  fixes P Q :: "nat \<Rightarrow> bool"
  assumes "j < n" "\<And>i. i \<noteq> j \<Longrightarrow> P i = Q i" "\<not> P j" "Q j"
  shows "card {i. i < n \<and> Q i} = Suc (card {i. i < n \<and> P i})"
proof -
  have "i \<in> {i. i < n \<and> Q i} \<longleftrightarrow> i \<in> insert j {i. i < n \<and> P i}" for i
    using assms by (cases "i = j") auto
  then have "{i. i < n \<and> Q i} = insert j {i. i < n \<and> P i}" by blast
  then show ?thesis using assms by simp
qed

text \<open>Updating a list entry without changing a field of it leaves the list of that field alone.\<close>

lemma map_list_update_same:
  "i < length xs \<Longrightarrow> f y = f (xs ! i) \<Longrightarrow> map f (xs[i := y]) = map f xs"
  by (simp add: map_update list_update_same_conv)

lemma set_list_update_subset:
  "set xs \<subseteq> A \<Longrightarrow> y \<in> A \<Longrightarrow> set (xs[i := y]) \<subseteq> A"
  using set_update_subset_insert[of xs i y] by blast

lemma list_all_update: "list_all P xs \<Longrightarrow> P x \<Longrightarrow> list_all P (xs[i := x])"
  by (auto simp: list_all_iff dest!: set_update_subset_insert[THEN subsetD])

section \<open>Words\<close>

lemma unat_dec [simp]: "w \<noteq> 0 \<Longrightarrow> unat (w - 1 :: 'a::len word) = unat w - 1"
  by (simp add: unat_minus_one)

lemma unat_inc_less:
  assumes "unat w < m" "m < 2 ^ LENGTH('a::len)"
  shows "unat (w + 1 :: 'a word) = Suc (unat w)"
  using assms by (simp add: unat_word_ariths)

lemma unat_ucast_widen:
  "LENGTH('a::len) \<le> LENGTH('b::len) \<Longrightarrow> unat (ucast (w :: 'a word) :: 'b word) = unat w"
  by (simp add: unsigned_ucast_eq take_bit_nat_eq_self_iff
      order.strict_trans2[OF unsigned_less power_increasing])

text \<open>The bit trick \<open>n & (n - 1)\<close> on naturals.\<close>

lemma and_pred_eq_0_imp_pow2:
  fixes n :: nat
  assumes "0 < n" "n AND (n - 1) = 0"
  shows "\<exists>k. n = 2 ^ k"
  using assms
proof (induction n rule: less_induct)
  case (less n)
  show ?case
  proof (cases "even n")
    case True
    then obtain m where m: "n = 2 * m" "0 < m" using less.prems(1) by fastforce
    have "(2 * m) AND (2 * m - 1) = 2 * (m AND (m - 1))"
    proof -
      have "(2 * m - 1) div 2 = m - 1" using m(2) by arith
      then show ?thesis by (subst and_rec) (simp add: m(2))
    qed
    then have "\<exists>k. m = 2 ^ k" using less.IH[of m] less.prems m by simp
    then show ?thesis using m(1) by (metis power_Suc)
  next
    case False
    then obtain m where m: "n = 2 * m + 1" by (elim oddE)
    have "(2 * m + 1) AND (2 * m) = 2 * m"
      by (subst and_rec) auto
    then have "n = 1" using less.prems m by simp
    then show ?thesis by (metis power_0)
  qed
qed

lemma pow2_and_pred: "(2 ^ k :: nat) AND (2 ^ k - 1) = 0"
  using take_bit_eq_mask[of k "2 ^ k :: nat"] by (simp add: mask_eq_exp_minus_1 take_bit_eq_mod)

text \<open>The exclusive or of a list of words.\<close>

primrec xor_list :: "'a::len word list \<Rightarrow> 'a word" where
  "xor_list [] = 0"
| "xor_list (x # xs) = x XOR xor_list xs"

lemma xor_list_append [simp]: "xor_list (xs @ ys) = xor_list xs XOR xor_list ys"
  by (induction xs) (simp_all add: xor.assoc)

lemma xor_list_map_xor:
  "xor_list (map (\<lambda>x. f x XOR g x) xs) = xor_list (map f xs) XOR xor_list (map g xs)"
  by (induction xs) (simp_all add: ac_simps)

lemma xor_list_fold:
  "fold (\<lambda>x h. if P x then h XOR f x else h) xs h = h XOR xor_list (map (\<lambda>x. if P x then f x else 0) xs)"
  by (induction xs arbitrary: h) (simp_all add: ac_simps)

section \<open>Words in memory\<close>

text \<open>The host is little endian: the bytes of a word in memory order, and the byte swaps between host
  and network order.\<close>

definition u16_bytes :: "u16 \<Rightarrow> u8 list" where
  "u16_bytes w = [ucast w, ucast (drop_bit 8 w)]"

definition u32_bytes :: "u32 \<Rightarrow> u8 list" where
  "u32_bytes w = [ucast w, ucast (drop_bit 8 w), ucast (drop_bit 16 w), ucast (drop_bit 24 w)]"

definition bytes_u16 :: "u8 \<Rightarrow> u8 \<Rightarrow> u16" where
  "bytes_u16 lo hi = ucast lo OR push_bit 8 (ucast hi)"

definition htons :: "u16 \<Rightarrow> u16" where
  "htons w = drop_bit 8 w OR push_bit 8 w"

lemma length_word_bytes [simp]: "length (u16_bytes w) = 2" "length (u32_bytes v) = 4"
  by (simp_all add: u16_bytes_def u32_bytes_def)

lemma bit_u8_less: "bit (w :: u8) n \<Longrightarrow> n < 8"
  using bit_imp_le_length[of w n] by simp

lemma u16_bytes_of [simp]: "u16_bytes (bytes_u16 lo hi) = [lo, hi]"
  by (simp add: u16_bytes_def bytes_u16_def)
    (intro conjI bit_word_eqI; auto simp: bit_simps dest: bit_u8_less)

lemma htons_htons [simp]: "htons (htons w) = w"
proof (rule bit_word_eqI)
  fix n assume "n < LENGTH(16)"
  then show "bit (htons (htons w)) n = bit w n"
    by (cases "n < 8") (auto simp: htons_def bit_simps)
qed

lemma htons_inj [simp]: "htons v = htons w \<longleftrightarrow> v = w"
  by (metis htons_htons)

end
