(* ===== verification/FF_So_Zone.thy ===== *)
theory FF_So_Zone
  imports FF_Prelude
begin

text \<open>
  The pool of socket-operation contexts that the LD_PRELOAD adapter shares between F-Stack and its
  applications (\<open>adapter/syscall/ff_so_zone.c\<close>, types of \<open>ff_socket_ops.h\<close>; the default build,
  without FF_MULTI_SC and FF_USE_RING_IPC).

  A zone lives in a DPDK memzone named after the process id; the memzones are a map from that id
  to the zone stored there. Whether DPDK can reserve a zone and whether \<open>sem_init\<close> succeeds are
  parameters of the creating function. A context pointer is the context's position in the zone.
  Each operation runs under the zone's spin lock, so it is one step of the model; the lock words
  are kept so that a return path that leaves a lock held is visible.
\<close>

section \<open>State\<close>

definition SOCKET_OPS_CONTEXT_MAX_NUM :: nat where
  "SOCKET_OPS_CONTEXT_MAX_NUM = 32"

datatype FF_SOCKET_OPS =
    FF_SO_SOCKET | FF_SO_LISTEN | FF_SO_BIND | FF_SO_CONNECT | FF_SO_SHUTDOWN
  | FF_SO_GETSOCKNAME | FF_SO_GETPEERNAME | FF_SO_GETSOCKOPT | FF_SO_SETSOCKOPT
  | FF_SO_ACCEPT | FF_SO_ACCEPT4 | FF_SO_RECV | FF_SO_RECVFROM | FF_SO_RECVMSG
  | FF_SO_READ | FF_SO_READV | FF_SO_SEND | FF_SO_SENDTO | FF_SO_SENDMSG
  | FF_SO_WRITE | FF_SO_WRITEV | FF_SO_CLOSE | FF_SO_IOCTL | FF_SO_FCNTL
  | FF_SO_EPOLL_CREATE | FF_SO_EPOLL_CTL | FF_SO_EPOLL_WAIT | FF_SO_KQUEUE
  | FF_SO_KEVENT | FF_SO_FORK | FF_SO_REGISTER_APPLICATION | FF_SO_EXIT_APPLICATION
  | FF_SO_SELECT

datatype FF_SO_CONTEXT_STATUS = FF_SC_IDLE | FF_SC_REQ | FF_SC_REP

record ff_so_context =
  sc_ops :: FF_SOCKET_OPS
  sc_status :: FF_SO_CONTEXT_STATUS
  sc_args :: "nat option"
  sc_lock :: bool
  sc_error :: int
  sc_result :: int
  sc_idx :: int
  wait_sem :: nat
  refcount :: int
  ff_thread_handle :: "nat option"
  forking :: int

record ff_socket_ops_zone =
  zone_lock :: bool
  zone_count :: u8
  zone_mask :: u8
  zone_free :: u8
  zone_idx :: u8
  inuse :: "u8 list"
  zone_sc :: "ff_so_context list"

record so_state =
  ff_max_so_context :: u16
  ff_so_zone :: "int option"
  memzones :: "int \<Rightarrow> ff_socket_ops_zone option"

section \<open>Operations\<close>

definition is_power_of_2 :: "u64 \<Rightarrow> bool" where
  "is_power_of_2 n \<longleftrightarrow> n \<noteq> 0 \<and> (n AND (n - 1)) = 0"

definition ff_set_max_so_context :: "u16 \<Rightarrow> so_state \<Rightarrow> int \<times> so_state" where
  "ff_set_max_so_context count st =
    (if ff_so_zone st \<noteq> None then (-1, st)
     else if \<not> is_power_of_2 (ucast count) then (-1, st)
     else
       let count = (if unat count > SOCKET_OPS_CONTEXT_MAX_NUM
                    then of_nat SOCKET_OPS_CONTEXT_MAX_NUM else count)
       in (0, st\<lparr>ff_max_so_context := count\<rparr>))"

text \<open>What \<open>memset(mz->addr, 0, zone_size)\<close> leaves in a context and in the zone header.\<close>

definition zero_context :: ff_so_context where
  "zero_context = \<lparr>sc_ops = FF_SO_SOCKET, sc_status = FF_SC_IDLE, sc_args = None, sc_lock = False,
     sc_error = 0, sc_result = 0, sc_idx = 0, wait_sem = 0, refcount = 0,
     ff_thread_handle = None, forking = 0\<rparr>"

definition zone_header :: "u16 \<Rightarrow> ff_socket_ops_zone" where
  "zone_header n =
    (let count = (ucast n :: u8) in
     \<lparr>zone_lock = False, zone_count = count, zone_mask = count - 1, zone_free = count,
      zone_idx = 0, inuse = replicate SOCKET_OPS_CONTEXT_MAX_NUM 0,
      zone_sc = replicate (unat n) zero_context\<rparr>)"

text \<open>The initialisation loop over the contexts; \<open>sem_ok i\<close> is whether \<open>sem_init\<close> succeeds on
  the semaphore of context \<open>i\<close>. The first component is False when the loop returned early.\<close>

function init_contexts :: "(nat \<Rightarrow> bool) \<Rightarrow> u16 \<Rightarrow> nat \<Rightarrow> ff_socket_ops_zone
    \<Rightarrow> bool \<times> ff_socket_ops_zone" where
  "init_contexts sem_ok n i z =
    (if i < unat n then
       let sc = (zone_sc z ! i)\<lparr>sc_lock := False, sc_status := FF_SC_IDLE, sc_idx := int i,
                  refcount := 0, ff_thread_handle := None\<rparr>;
           z' = z\<lparr>zone_sc := (zone_sc z)[i := sc]\<rparr>
       in if sem_ok i
          then init_contexts sem_ok n (i + 1) (z'\<lparr>zone_sc := (zone_sc z')[i := sc\<lparr>wait_sem := 0\<rparr>]\<rparr>)
          else (False, z')
     else (True, z))"
  by pat_completeness auto
termination by (relation "measure (\<lambda>(_, n, i, _). unat n - i)") auto

declare init_contexts.simps [simp del]

text \<open>The loop of the primary process over \<open>proc_id\<close>; \<open>reserve_ok\<close> is whether
  \<open>rte_memzone_reserve\<close> returns a zone for that process.\<close>

function create_zones :: "(nat \<Rightarrow> bool) \<Rightarrow> (nat \<Rightarrow> nat \<Rightarrow> bool) \<Rightarrow> nat \<Rightarrow> nat \<Rightarrow> so_state
    \<Rightarrow> int \<times> so_state" where
  "create_zones reserve_ok sem_ok nb_procs proc_id st =
    (if proc_id < nb_procs then
       if \<not> reserve_ok proc_id then (-1, st)
       else
         let (ok, z) = init_contexts (sem_ok proc_id) (ff_max_so_context st) 0
                         (zone_header (ff_max_so_context st));
             st = st\<lparr>memzones := (memzones st)(int proc_id \<mapsto> z)\<rparr>
         in if \<not> ok then (-1, st)
            else create_zones reserve_ok sem_ok nb_procs (proc_id + 1)
                   (if proc_id = 0 then st\<lparr>ff_so_zone := Some (int proc_id)\<rparr> else st)
     else (0, st))"
  by pat_completeness auto
termination by (relation "measure (\<lambda>(_, _, n, p, _). n - p)") auto

declare create_zones.simps [simp del]

definition ff_create_so_memzone :: "(nat \<Rightarrow> bool) \<Rightarrow> (nat \<Rightarrow> nat \<Rightarrow> bool) \<Rightarrow> bool \<Rightarrow> nat \<Rightarrow> int
    \<Rightarrow> so_state \<Rightarrow> int \<times> so_state" where
  "ff_create_so_memzone reserve_ok sem_ok primary nb_procs proc_id st =
    (if ff_so_zone st \<noteq> None then (-1, st)
     else if primary then create_zones reserve_ok sem_ok nb_procs 0 st
     else case memzones st proc_id of
            None \<Rightarrow> (-1, st)
          | Some _ \<Rightarrow> (0, st\<lparr>ff_so_zone := Some proc_id\<rparr>))"

text \<open>The search loop of \<open>ff_attach_so_context\<close>, from iteration \<open>i\<close> on.\<close>

definition slot :: "ff_socket_ops_zone \<Rightarrow> nat \<Rightarrow> nat" where
  "slot z i = (unat (zone_idx z) + i) AND unat (zone_mask z)"

definition take_slot :: "nat \<Rightarrow> ff_socket_ops_zone \<Rightarrow> ff_socket_ops_zone" where
  "take_slot idx z =
    z\<lparr>inuse := (inuse z)[idx := 1],
      zone_sc := (zone_sc z)[idx := (zone_sc z ! idx)
        \<lparr>sc_lock := False, sc_status := FF_SC_IDLE, refcount := 1\<rparr>],
      zone_free := zone_free z - 1,
      zone_idx := of_nat (idx + 1)\<rparr>"

function attach_loop :: "nat \<Rightarrow> ff_socket_ops_zone \<Rightarrow> nat option \<times> ff_socket_ops_zone" where
  "attach_loop i z =
    (if i < unat (zone_count z) then
       let idx = slot z i
       in if inuse z ! idx = 0 then (Some idx, take_slot idx z) else attach_loop (i + 1) z
     else (None, z))"
  by pat_completeness auto
termination by (relation "measure (\<lambda>(i, z). unat (zone_count z) - i)") auto

declare attach_loop.simps [simp del]

definition attach_zone :: "ff_socket_ops_zone \<Rightarrow> nat option \<times> ff_socket_ops_zone" where
  "attach_zone z =
    (let z = z\<lparr>zone_lock := True\<rparr>
     in if zone_free z = 0 then (None, z\<lparr>zone_lock := False\<rparr>)
        else let (sc, z) = attach_loop 0 z in (sc, z\<lparr>zone_lock := False\<rparr>))"

definition ff_attach_so_context :: "int \<Rightarrow> so_state \<Rightarrow> nat option \<times> so_state" where
  "ff_attach_so_context idx st =
    (let key = (case ff_so_zone st of Some k \<Rightarrow> k | None \<Rightarrow> idx)
     in case memzones st key of
          None \<Rightarrow> (None, st)
        | Some z \<Rightarrow>
            let (sc, z') = attach_zone z
            in (sc, st\<lparr>ff_so_zone := Some key, memzones := (memzones st)(key \<mapsto> z')\<rparr>))"

definition detach_zone :: "nat \<Rightarrow> ff_socket_ops_zone \<Rightarrow> ff_socket_ops_zone" where
  "detach_zone p z0 =
    (let z = z0\<lparr>zone_lock := True,
                zone_sc := (zone_sc z0)[p := (zone_sc z0 ! p)\<lparr>sc_lock := True\<rparr>]\<rparr>;
         sc = zone_sc z ! p;
         z = (if refcount sc > 1
              then z\<lparr>zone_sc := (zone_sc z)[p := sc\<lparr>refcount := refcount sc - 1\<rparr>]\<rparr>
              else if inuse z ! nat (sc_idx sc) = 1
              then z\<lparr>inuse := (inuse z)[nat (sc_idx sc) := 0],
                     zone_free := zone_free z + 1,
                     zone_idx := of_int (sc_idx sc)\<rparr>
              else z)
     in z\<lparr>zone_lock := False,
          zone_sc := (zone_sc z)[p := (zone_sc z ! p)\<lparr>sc_lock := False\<rparr>]\<rparr>)"

definition ff_detach_so_context :: "nat option \<Rightarrow> so_state \<Rightarrow> so_state" where
  "ff_detach_so_context sc st =
    (case (ff_so_zone st, sc) of
       (Some key, Some p) \<Rightarrow>
         (case memzones st key of
            Some z \<Rightarrow> st\<lparr>memzones := (memzones st)(key \<mapsto> detach_zone p z)\<rparr>
          | None \<Rightarrow> st)
     | _ \<Rightarrow> st)"

section \<open>The invariant of a zone\<close>

definition zone_used :: "ff_socket_ops_zone \<Rightarrow> nat set" where
  "zone_used z = {i. i < unat (zone_count z) \<and> inuse z ! i \<noteq> 0}"

definition pool_size :: "nat \<Rightarrow> bool" where
  "pool_size n \<longleftrightarrow> n \<in> {1, 2, 4, 8, 16, 32}"

definition zone_inv :: "ff_socket_ops_zone \<Rightarrow> bool" where
  "zone_inv z \<longleftrightarrow>
     pool_size (unat (zone_count z)) \<and>
     zone_mask z = zone_count z - 1 \<and>
     length (inuse z) = SOCKET_OPS_CONTEXT_MAX_NUM \<and>
     set (inuse z) \<subseteq> {0, 1} \<and>
     map sc_idx (zone_sc z) = map int [0..<unat (zone_count z)] \<and>
     map sc_lock (zone_sc z) = replicate (unat (zone_count z)) False \<and>
     unat (zone_free z) + card (zone_used z) = unat (zone_count z) \<and>
     \<not> zone_lock z"

lemma pool_size_bounds: "pool_size n \<Longrightarrow> 0 < n \<and> n \<le> 32"
  by (auto simp: pool_size_def)

lemma zone_invD:
  assumes "zone_inv z"
  shows "0 < unat (zone_count z)" "unat (zone_count z) \<le> 32"
    "length (inuse z) = 32" "length (zone_sc z) = unat (zone_count z)"
    "unat (zone_free z) + card (zone_used z) = unat (zone_count z)" "\<not> zone_lock z"
    "\<And>i. i < 32 \<Longrightarrow> inuse z ! i = 0 \<or> inuse z ! i = 1"
    "\<And>i. i < unat (zone_count z) \<Longrightarrow> sc_idx (zone_sc z ! i) = int i"
    "\<And>i. i < unat (zone_count z) \<Longrightarrow> \<not> sc_lock (zone_sc z ! i)"
    "zone_mask z = zone_count z - 1" "pool_size (unat (zone_count z))"
proof -
  let ?n = "unat (zone_count z)"
  have i: "pool_size ?n" "zone_mask z = zone_count z - 1" "length (inuse z) = 32"
    "set (inuse z) \<subseteq> {0, 1}" "map sc_idx (zone_sc z) = map int [0..<?n]"
    "map sc_lock (zone_sc z) = replicate ?n False"
    "unat (zone_free z) + card (zone_used z) = ?n" "\<not> zone_lock z"
    using assms by (auto simp: zone_inv_def SOCKET_OPS_CONTEXT_MAX_NUM_def)
  then show len: "length (zone_sc z) = ?n" by (metis length_map length_replicate)
  show "inuse z ! j = 0 \<or> inuse z ! j = 1" if "j < 32" for j
    using nth_mem[of j "inuse z"] i(3,4) that by fastforce
  show "sc_idx (zone_sc z ! j) = int j" if "j < ?n" for j
    using i(5) len that by (metis add_0 diff_zero length_upt nth_map nth_upt)
  show "\<not> sc_lock (zone_sc z ! j)" if "j < ?n" for j
    using i(6) len that by (metis nth_map nth_replicate)
qed (use assms pool_size_bounds in \<open>auto simp: zone_inv_def SOCKET_OPS_CONTEXT_MAX_NUM_def\<close>)

lemma finite_zone_used [simp]: "finite (zone_used z)"
  by (simp add: zone_used_def)

lemma zone_used_subset: "zone_used z \<subseteq> {..<unat (zone_count z)}"
  by (auto simp: zone_used_def)

lemma and_pow2_minus_1:
  fixes n c :: nat
  assumes "pool_size c"
  shows "n AND (c - 1) = n mod c"
proof -
  from assms obtain k where "c = 2 ^ k"
    using that[of 0] that[of 1] that[of 2] that[of 3] that[of 4] that[of 5] by (auto simp: pool_size_def)
  then show ?thesis by (simp add: take_bit_eq_mod [symmetric] take_bit_eq_mask mask_eq_exp_minus_1)
qed

lemma slot_mod:
  assumes "zone_inv z"
  shows "slot z i = (unat (zone_idx z) + i) mod unat (zone_count z)"
proof -
  have "unat (zone_mask z) = unat (zone_count z) - 1" "zone_count z \<noteq> 0"
    using zone_invD(1,10)[OF assms] by (auto simp: unat_gt_0 unat_minus_one)
  then show ?thesis using and_pow2_minus_1[OF zone_invD(11)[OF assms]] by (simp add: slot_def)
qed

lemma slot_less: "zone_inv z \<Longrightarrow> slot z i < unat (zone_count z)"
  using zone_invD(1)[of z] by (simp add: slot_mod)

text \<open>Every position is visited: the masked scan is a rotation of the zone.\<close>

lemma slot_onto:
  assumes "zone_inv z" "p < unat (zone_count z)"
  obtains i where "i < unat (zone_count z)" "slot z i = p"
proof -
  let ?c = "unat (zone_count z)" and ?s = "unat (zone_idx z)"
  have "(?s + (p + ?c - ?s mod ?c) mod ?c) mod ?c = (?s mod ?c + (p + ?c - ?s mod ?c)) mod ?c"
    by (simp add: mod_simps)
  also have "\<dots> = (p + ?c) mod ?c"
    using less_imp_le[OF mod_less_divisor[of ?c ?s]] zone_invD(1)[OF assms(1)]
    by (simp only: le_add_diff_inverse trans_le_add2)
  also have "\<dots> = p" using assms(2) by simp
  finally show ?thesis
    using that[of "(p + ?c - ?s mod ?c) mod ?c"] assms by (simp add: slot_mod)
qed

lemma attach_loop_find:
  "attach_loop i z =
     (case List.find (\<lambda>j. inuse z ! slot z j = 0) [i..<unat (zone_count z)] of
        None \<Rightarrow> (None, z)
      | Some j \<Rightarrow> (Some (slot z j), take_slot (slot z j) z))"
proof (induction i z rule: attach_loop.induct)
  case (1 i z)
  then show ?case
    by (subst attach_loop.simps) (auto simp: upt_conv_Cons Let_def)
qed

lemma zone_inv_lock [simp]:
  "zone_used (z\<lparr>zone_lock := b\<rparr>) = zone_used z" "slot (z\<lparr>zone_lock := b\<rparr>) = slot z"
  "(take_slot i (z\<lparr>zone_lock := b\<rparr>))\<lparr>zone_lock := c\<rparr> = take_slot i (z\<lparr>zone_lock := c\<rparr>)"
  by (auto simp: zone_used_def slot_def take_slot_def fun_eq_iff)

text \<open>The scan succeeds exactly when a context is free, and then takes a free one.\<close>

lemma attach_zone_cases:
  assumes "zone_inv z"
  obtains (full) "zone_used z = {..<unat (zone_count z)}" "zone_free z = 0" "attach_zone z = (None, z)"
  | (taken) p where "p < unat (zone_count z)" "inuse z ! p = 0" "zone_free z \<noteq> 0"
      "attach_zone z = (Some p, take_slot p z)"
proof (cases "zone_free z = 0")
  case True
  then have "card (zone_used z) = card {..<unat (zone_count z)}" using zone_invD(5)[OF assms] by simp
  then have "zone_used z = {..<unat (zone_count z)}"
    by (intro card_subset_eq) (auto simp: zone_used_subset)
  moreover have "z\<lparr>zone_lock := False\<rparr> = z" using zone_invD(6)[OF assms] by simp
  ultimately show ?thesis using full True by (simp add: attach_zone_def Let_def)
next
  case False
  let ?z = "z\<lparr>zone_lock := True\<rparr>"
  have "card (zone_used z) \<noteq> card {..<unat (zone_count z)}"
    using False zone_invD(5)[OF assms] unat_eq_zero[of "zone_free z"] by simp
  then have "zone_used z \<noteq> {..<unat (zone_count z)}" by metis
  then obtain p where p: "p < unat (zone_count z)" "inuse z ! p = 0"
    using zone_used_subset[of z] by (auto simp: zone_used_def)
  obtain i where "i < unat (zone_count z)" "slot z i = p" using slot_onto[OF assms p(1)] .
  then have "List.find (\<lambda>j. inuse z ! slot z j = 0) [0..<unat (zone_count z)] \<noteq> None"
    using p by (auto simp: find_None_iff)
  then obtain j where j: "List.find (\<lambda>j. inuse z ! slot z j = 0) [0..<unat (zone_count z)] = Some j"
    by blast
  then have "inuse z ! slot z j = 0" by (auto simp: find_Some_iff)
  moreover have "z\<lparr>zone_lock := False\<rparr> = z" using zone_invD(6)[OF assms] by simp
  then have "attach_zone z = (Some (slot z j), take_slot (slot z j) z)"
    using False j by (simp add: attach_zone_def Let_def attach_loop_find)
  ultimately show ?thesis using taken False slot_less[OF assms] by blast
qed

lemma zone_count_take_slot [simp]: "zone_count (take_slot p z) = zone_count z"
  by (simp add: take_slot_def)

lemma zone_used_take_slot:
  assumes "zone_inv z" "p < unat (zone_count z)"
  shows "zone_used (take_slot p z) = insert p (zone_used z)"
  using assms zone_invD(2,3)[OF assms(1)]
  by (auto simp: zone_used_def take_slot_def nth_list_update)

lemma zone_inv_take_slot [ff_inv]:
  assumes "zone_inv z" "p < unat (zone_count z)" "inuse z ! p = 0" "zone_free z \<noteq> 0"
  shows "zone_inv (take_slot p z)"
proof -
  have "p \<notin> zone_used z" using assms(3) by (simp add: zone_used_def)
  then have "unat (zone_free z - 1) + card (insert p (zone_used z)) = unat (zone_count z)"
    using zone_invD(5)[OF assms(1)] assms(4) unat_eq_zero[of "zone_free z"] by simp
  then show ?thesis
    using assms(1,2) zone_used_take_slot[OF assms(1,2)]
      zone_invD(4,9)[OF assms(1)]
    by (simp add: zone_inv_def take_slot_def set_list_update_subset map_list_update_same)
qed

text \<open>What detaching context \<open>p\<close> does, path by path.\<close>

lemma detach_zone_eq:
  assumes "zone_inv z" "p < unat (zone_count z)"
  shows "detach_zone p z =
    (if refcount (zone_sc z ! p) > 1
     then z\<lparr>zone_sc := (zone_sc z)[p := (zone_sc z ! p)\<lparr>refcount := refcount (zone_sc z ! p) - 1\<rparr>]\<rparr>
     else if inuse z ! p = 1
     then z\<lparr>inuse := (inuse z)[p := 0], zone_free := zone_free z + 1, zone_idx := of_nat p\<rparr>
     else z)"
proof -
  have l: "p < length (zone_sc z)" "sc_idx (zone_sc z ! p) = int p" "\<not> sc_lock (zone_sc z ! p)"
    "\<not> zone_lock z"
    using assms zone_invD[OF assms(1)] by auto
  then have same: "(zone_sc z ! p)\<lparr>sc_lock := False\<rparr> = zone_sc z ! p" "z\<lparr>zone_lock := False\<rparr> = z"
    by auto
  then have *: "(zone_sc z)[p := (zone_sc z ! p)\<lparr>sc_lock := False\<rparr>] = zone_sc z"
    by (simp add: list_update_same_conv l)
  have "(zone_sc z ! p)\<lparr>refcount := n, sc_lock := False\<rparr> = (zone_sc z ! p)\<lparr>refcount := n\<rparr>" for n
    using l(3) by (cases "zone_sc z ! p") simp
  note ** = arg_cong[where f = "list_update (zone_sc z) p", OF this[of "refcount (zone_sc z ! p) - 1"]]
  show ?thesis
    using l * ** by (cases z) (simp add: detach_zone_def Let_def)
qed

lemma zone_used_detach:
  assumes "zone_inv z" "p < unat (zone_count z)"
  shows "zone_used (detach_zone p z) =
    (if refcount (zone_sc z ! p) > 1 then zone_used z else zone_used z - {p})"
  using assms zone_invD(2,3)[OF assms(1)] zone_invD(7)[OF assms(1), of p]
  by (auto simp: detach_zone_eq zone_used_def nth_list_update)

lemma zone_count_detach [simp]: "zone_count (detach_zone p z) = zone_count z"
  by (simp add: detach_zone_def Let_def)

lemma zone_inv_detach [ff_inv]:
  assumes "zone_inv z" "p < unat (zone_count z)"
  shows "zone_inv (detach_zone p z)"
proof (cases "refcount (zone_sc z ! p) > 1")
  case True
  then show ?thesis
    using assms zone_invD(4)[OF assms(1)]
    by (simp add: detach_zone_eq zone_inv_def zone_used_def map_list_update_same)
next
  case False
  show ?thesis
  proof (cases "inuse z ! p = 1")
    case True
    have "p \<in> zone_used z" using True assms by (simp add: zone_used_def)
    then have "0 < card (zone_used z)" "card (zone_used z - {p}) = card (zone_used z) - 1"
      by (auto simp: card_gt_0_iff)
    moreover from this have "unat (zone_free z + 1) = Suc (unat (zone_free z))"
      using zone_invD(2,5)[OF assms(1)] by (intro unat_inc_less[of _ 33]) auto
    ultimately have "unat (zone_free z + 1) + card (zone_used (detach_zone p z)) = unat (zone_count z)"
      using zone_invD(5)[OF assms(1)] False by (simp add: zone_used_detach[OF assms])
    then show ?thesis
      using assms False True by (simp add: detach_zone_eq zone_inv_def set_list_update_subset)
  qed (use assms False in \<open>simp add: detach_zone_eq\<close>)
qed

section \<open>The contract of a context pool\<close>

datatype pool_op = Attach | Detach nat

primrec pool_run :: "('z \<Rightarrow> nat option \<times> 'z) \<Rightarrow> (nat \<Rightarrow> 'z \<Rightarrow> 'z) \<Rightarrow> pool_op list \<Rightarrow> 'z \<Rightarrow> 'z" where
  "pool_run attach detach [] z = z"
| "pool_run attach detach (a # as) z =
     pool_run attach detach as (case a of Attach \<Rightarrow> snd (attach z) | Detach p \<Rightarrow> detach p z)"

primrec pool_take :: "('z \<Rightarrow> nat option \<times> 'z) \<Rightarrow> nat \<Rightarrow> 'z \<Rightarrow> nat option list \<times> 'z" where
  "pool_take attach 0 z = ([], z)"
| "pool_take attach (Suc n) z =
     (let (p, z) = attach z; (ps, z) = pool_take attach n z in (p # ps, z))"

text \<open>
  What a user of the pool relies on: a context handed out is one that nobody holds, attaching
  fails only when every context is held, and detaching affects only the context it names.
\<close>

locale context_pool =
  fixes inv :: "'z \<Rightarrow> bool" and used :: "'z \<Rightarrow> nat set" and cap :: "'z \<Rightarrow> nat"
    and attach :: "'z \<Rightarrow> nat option \<times> 'z" and detach :: "nat \<Rightarrow> 'z \<Rightarrow> 'z"
  assumes used_bound: "inv z \<Longrightarrow> used z \<subseteq> {..<cap z}"
    and attach_inv: "inv z \<Longrightarrow> inv (snd (attach z))"
    and attach_cap: "inv z \<Longrightarrow> cap (snd (attach z)) = cap z"
    and attach_full: "inv z \<Longrightarrow> used z = {..<cap z} \<Longrightarrow> attach z = (None, z)"
    and attach_free: "inv z \<Longrightarrow> used z \<noteq> {..<cap z} \<Longrightarrow>
      \<exists>p. fst (attach z) = Some p \<and> p < cap z \<and> p \<notin> used z \<and> used (snd (attach z)) = insert p (used z)"
    and detach_inv: "inv z \<Longrightarrow> p < cap z \<Longrightarrow> inv (detach p z)"
    and detach_cap: "inv z \<Longrightarrow> p < cap z \<Longrightarrow> cap (detach p z) = cap z"
    and detach_used: "inv z \<Longrightarrow> p < cap z \<Longrightarrow> used z - {p} \<subseteq> used (detach p z) \<and> used (detach p z) \<subseteq> used z"
begin

lemma used_finite: "inv z \<Longrightarrow> finite (used z)"
  using used_bound finite_subset by blast

lemma attach_Some_fresh:
  assumes "inv z" "attach z = (Some p, z')"
  shows "p < cap z" "p \<notin> used z" "used z' = insert p (used z)" "inv z'" "cap z' = cap z"
  using attach_free[OF assms(1)] attach_full[OF assms(1)] attach_inv[OF assms(1)]
    attach_cap[OF assms(1)] assms(2)
  by (cases "used z = {..<cap z}"; auto)+

lemma run_keeps:
  assumes "inv z" "p \<in> used z" "\<forall>q. Detach q \<in> set ops \<longrightarrow> q < cap z \<and> q \<noteq> p"
  shows "inv (pool_run attach detach ops z)" "p \<in> used (pool_run attach detach ops z)"
proof -
  have "inv (pool_run attach detach ops z) \<and> p \<in> used (pool_run attach detach ops z)"
    using assms
  proof (induction ops arbitrary: z)
    case (Cons a ops)
    show ?case
    proof (cases a)
      case Attach
      moreover have "p \<in> used (snd (attach z))"
        using attach_free[OF Cons.prems(1)] attach_full[OF Cons.prems(1)] Cons.prems(2)
        by (cases "used z = {..<cap z}") auto
      ultimately show ?thesis
        using Cons.IH[of "snd (attach z)"] Cons.prems by (simp add: attach_inv attach_cap)
    next
      case (Detach q)
      then have "q < cap z" "q \<noteq> p" using Cons.prems(3) by auto
      moreover from this have "p \<in> used (detach q z)" using detach_used[OF Cons.prems(1)] Cons.prems(2) by blast
      ultimately show ?thesis
        using Detach Cons.IH[of "detach q z"] Cons.prems by (simp add: detach_inv detach_cap)
    qed
  qed simp
  then show "inv (pool_run attach detach ops z)" "p \<in> used (pool_run attach detach ops z)" by auto
qed

lemma exclusive:
  assumes "inv z" "attach z = (Some p, z')" "\<forall>q. Detach q \<in> set ops \<longrightarrow> q < cap z \<and> q \<noteq> p"
  shows "fst (attach (pool_run attach detach ops z')) \<noteq> Some p"
proof -
  note f = attach_Some_fresh[OF assms(1,2)]
  have "inv (pool_run attach detach ops z')" "p \<in> used (pool_run attach detach ops z')"
    using run_keeps[of z' p ops] f assms(3) by auto
  then show ?thesis using attach_Some_fresh(2) by (metis prod.collapse)
qed

lemma take_all:
  assumes "inv z" "n + card (used z) \<le> cap z"
  shows "\<exists>ps. fst (pool_take attach n z) = map Some ps \<and> distinct ps \<and> set ps \<inter> used z = {} \<and>
    set ps \<subseteq> {..<cap z} \<and> used (snd (pool_take attach n z)) = set ps \<union> used z \<and>
    inv (snd (pool_take attach n z)) \<and> cap (snd (pool_take attach n z)) = cap z \<and> length ps = n"
  using assms
proof (induction n arbitrary: z)
  case (Suc n)
  have "card (used z) \<noteq> card {..<cap z}" using Suc.prems(2) by simp
  then have "used z \<noteq> {..<cap z}" by metis
  then obtain p z' where a: "attach z = (Some p, z')"
    using attach_free[OF Suc.prems(1)] by (metis prod.collapse)
  note f = attach_Some_fresh[OF Suc.prems(1) a]
  have "n + card (used z') \<le> cap z'" using f Suc.prems used_finite by simp
  from Suc.IH[OF f(4) this] obtain ps where
    "fst (pool_take attach n z') = map Some ps" "distinct ps" "set ps \<inter> used z' = {}"
    "set ps \<subseteq> {..<cap z'}" "used (snd (pool_take attach n z')) = set ps \<union> used z'"
    "inv (snd (pool_take attach n z'))" "cap (snd (pool_take attach n z')) = cap z'" "length ps = n"
    by blast
  then show ?case
    using a f by (intro exI[of _ "p # ps"]) (auto simp: Let_def split_beta)
qed auto

end

lemma attach_zone_inv [ff_inv]:
  "zone_inv z \<Longrightarrow> zone_inv (snd (attach_zone z))"
  by (rule attach_zone_cases[of z]) (simp_all only: snd_conv zone_inv_take_slot simp_thms)

lemma attach_zone_count: "zone_inv z \<Longrightarrow> zone_count (snd (attach_zone z)) = zone_count z"
  by (rule attach_zone_cases[of z]) (simp_all only: snd_conv zone_count_take_slot)

lemma attach_zone_full:
  assumes "zone_inv z" "zone_used z = {..<unat (zone_count z)}"
  shows "attach_zone z = (None, z)"
proof (cases rule: attach_zone_cases[OF assms(1)])
  case (2 p)
  then have "p \<in> zone_used z" using assms(2) by blast
  then show ?thesis using 2(2) by (simp add: zone_used_def)
qed

lemma attach_zone_free:
  assumes "zone_inv z" "zone_used z \<noteq> {..<unat (zone_count z)}"
  shows "\<exists>p. fst (attach_zone z) = Some p \<and> p < unat (zone_count z) \<and> p \<notin> zone_used z \<and>
    zone_used (snd (attach_zone z)) = insert p (zone_used z)"
proof (cases rule: attach_zone_cases[OF assms(1)])
  case (2 p)
  then have "p \<notin> zone_used z" by (simp add: zone_used_def)
  then show ?thesis using 2 zone_used_take_slot[OF assms(1)] by simp
qed (use assms in blast)

interpretation zone_pool: context_pool zone_inv zone_used "\<lambda>z. unat (zone_count z)" attach_zone detach_zone
  by unfold_locales
    (auto simp: zone_used_subset attach_zone_inv attach_zone_count attach_zone_full
       attach_zone_free zone_inv_detach zone_count_detach zone_used_detach split: if_splits)

section \<open>Sizes and creation\<close>

lemma is_power_of_2_iff: "is_power_of_2 n \<longleftrightarrow> (\<exists>k < 64. unat n = 2 ^ k)"
proof (cases "n = 0")
  case False
  have "(n AND (n - 1)) = 0 \<longleftrightarrow> unat (n AND (n - 1)) = 0" by (simp add: unat_eq_zero)
  also have "\<dots> \<longleftrightarrow> unat n AND (unat n - 1) = 0" using False by (simp add: unsigned_and_eq)
  also have "\<dots> \<longleftrightarrow> (\<exists>k. unat n = 2 ^ k)"
    using False and_pred_eq_0_imp_pow2[of "unat n"] pow2_and_pred unat_gt_0[of n] by metis
  also have "\<dots> \<longleftrightarrow> (\<exists>k < 64. unat n = 2 ^ k)"
    using unsigned_less[of n, where ?'a = nat] power_less_imp_less_exp[of "2::nat" _ 64] by fastforce
  finally show ?thesis using False by (simp add: is_power_of_2_def)
qed (simp add: is_power_of_2_def)

lemma pow2_le_32: "2 ^ k \<le> (32::nat) \<Longrightarrow> pool_size (2 ^ k)"
proof -
  assume "2 ^ k \<le> (32::nat)"
  then have "k \<le> 5" using power_le_imp_le_exp[of "2::nat" k 5] by simp
  then have "k \<in> {0, 1, 2, 3, 4, 5}" by auto
  then show ?thesis by (auto simp: pool_size_def)
qed

lemma zone_count_header:
  "unat n \<le> 32 \<Longrightarrow> unat (zone_count (zone_header n)) = unat n"
  by (simp add: zone_header_def Let_def unsigned_ucast_eq take_bit_nat_eq_self)

lemma zone_used_header: "unat n \<le> 32 \<Longrightarrow> zone_used (zone_header n) = {}"
  using zone_count_header[of n]
  by (auto simp: zone_used_def zone_header_def Let_def SOCKET_OPS_CONTEXT_MAX_NUM_def)

text \<open>The fields the initialisation loop leaves alone, and what it writes when every semaphore
  could be initialised.\<close>

lemma init_contexts_ok:
  assumes "list_all sem_ok [i..<unat n]" "length (zone_sc z) = unat n" "i \<le> unat n"
    "\<forall>j < i. sc_idx (zone_sc z ! j) = int j \<and> \<not> sc_lock (zone_sc z ! j)"
  shows "\<exists>scs. init_contexts sem_ok n i z = (True, z\<lparr>zone_sc := scs\<rparr>) \<and> length scs = unat n \<and>
    (\<forall>j < unat n. sc_idx (scs ! j) = int j \<and> \<not> sc_lock (scs ! j))"
  using assms
proof (induction sem_ok n i z rule: init_contexts.induct)
  case (1 sem_ok n i z)
  show ?case
  proof (cases "i < unat n")
    case True
    then have "sem_ok i" "list_all sem_ok [i + 1..<unat n]"
      using 1(2) by (auto simp: upt_conv_Cons)
    moreover define sc where "sc = (zone_sc z ! i)\<lparr>sc_lock := False, sc_status := FF_SC_IDLE,
        sc_idx := int i, refcount := 0, ff_thread_handle := None\<rparr>"
    moreover define z' where "z' = z\<lparr>zone_sc := (zone_sc z)[i := sc\<lparr>wait_sem := 0\<rparr>]\<rparr>"
    ultimately have "init_contexts sem_ok n i z = init_contexts sem_ok n (i + 1) z'"
      and "\<exists>scs. init_contexts sem_ok n (i + 1) z' = (True, z'\<lparr>zone_sc := scs\<rparr>) \<and> length scs = unat n \<and>
        (\<forall>j < unat n. sc_idx (scs ! j) = int j \<and> \<not> sc_lock (scs ! j))"
      using True 1(1)[OF True sc_def refl] 1(3-5)
      by (subst init_contexts.simps, simp add: Let_def, simp add: less_Suc_eq nth_list_update)
    then show ?thesis by (auto simp: z'_def)
  next
    case False
    then show ?thesis using 1 by (subst init_contexts.simps) (auto intro!: exI[of _ "zone_sc z"])
  qed
qed

lemma init_contexts_fresh:
  assumes "pool_size (unat n)" "list_all sem_ok [0..<unat n]"
  obtains z where "init_contexts sem_ok n 0 (zone_header n) = (True, z)" "zone_inv z"
    "zone_used z = {}" "unat (zone_count z) = unat n"
proof -
  let ?h = "zone_header n"
  have n: "0 < unat n" "unat n \<le> 32" using pool_size_bounds[OF assms(1)] by auto
  obtain scs where s: "init_contexts sem_ok n 0 ?h = (True, ?h\<lparr>zone_sc := scs\<rparr>)" "length scs = unat n"
      "\<forall>j < unat n. sc_idx (scs ! j) = int j \<and> \<not> sc_lock (scs ! j)"
    using init_contexts_ok[of sem_ok 0 n ?h] assms(2) by (auto simp: zone_header_def Let_def)
  let ?z = "?h\<lparr>zone_sc := scs\<rparr>"
  have u: "zone_used ?z = {}" "zone_count ?z = zone_count ?h"
    using zone_used_header[OF n(2)] by (auto simp: zone_used_def)
  moreover have "zone_inv ?z"
    using assms(1) s(2,3) u zone_count_header[OF n(2)] zone_used_header[OF n(2)]
    by (auto simp: zone_inv_def zone_header_def Let_def intro!: nth_equalityI)
  ultimately show ?thesis using that[of ?z] s(1) zone_count_header[OF n(2)] by simp
qed

definition fresh_zone :: "u16 \<Rightarrow> ff_socket_ops_zone \<Rightarrow> bool" where
  "fresh_zone n z \<longleftrightarrow> zone_inv z \<and> zone_used z = {} \<and> unat (zone_count z) = unat n"

lemma create_zones_ok:
  assumes "pool_size (unat (ff_max_so_context st))"
    "list_all (\<lambda>q. reserve_ok q \<and> list_all (sem_ok q) [0..<unat (ff_max_so_context st)]) [p..<nb]"
  shows "\<exists>st'. create_zones reserve_ok sem_ok nb p st = (0, st') \<and>
    ff_max_so_context st' = ff_max_so_context st \<and>
    ff_so_zone st' = (if p = 0 \<and> 0 < nb then Some 0 else ff_so_zone st) \<and>
    (\<forall>q. int p \<le> q \<and> q < int nb \<longrightarrow>
       (\<exists>z. memzones st' q = Some z \<and> fresh_zone (ff_max_so_context st) z)) \<and>
    (\<forall>q. q < int p \<longrightarrow> memzones st' q = memzones st q)"
  using assms
proof (induction reserve_ok sem_ok nb p st rule: create_zones.induct)
  case (1 reserve_ok sem_ok nb p st)
  show ?case
  proof (cases "p < nb")
    case True
    let ?n = "ff_max_so_context st"
    have ok: "reserve_ok p" "list_all (sem_ok p) [0..<unat ?n]"
      and rest: "list_all (\<lambda>q. reserve_ok q \<and> list_all (sem_ok q) [0..<unat ?n]) [p + 1..<nb]"
      using 1(3) True by (auto simp: upt_conv_Cons)
    obtain z where z: "init_contexts (sem_ok p) ?n 0 (zone_header ?n) = (True, z)" "fresh_zone ?n z"
      using init_contexts_fresh[OF 1(2) ok(2)] by (auto simp: fresh_zone_def)
    define st1 where "st1 = st\<lparr>memzones := (memzones st)(int p \<mapsto> z)\<rparr>"
    define st2 where "st2 = (if p = 0 then st1\<lparr>ff_so_zone := Some (int p)\<rparr> else st1)"
    have eq: "create_zones reserve_ok sem_ok nb p st = create_zones reserve_ok sem_ok nb (p + 1) st2"
      using True ok z by (subst create_zones.simps) (simp add: Let_def st1_def st2_def)
    have "ff_max_so_context st2 = ?n" "memzones st2 = (memzones st)(int p \<mapsto> z)"
      "ff_so_zone st2 = (if p = 0 then Some 0 else ff_so_zone st)"
      by (auto simp: st1_def st2_def)
    note f = this
    obtain st' where st': "create_zones reserve_ok sem_ok nb (p + 1) st2 = (0, st')"
      "ff_max_so_context st' = ?n" "ff_so_zone st' = (if p = 0 then Some 0 else ff_so_zone st)"
      "\<And>q. 1 + int p \<le> q \<Longrightarrow> q < int nb \<Longrightarrow> \<exists>z. memzones st' q = Some z \<and> fresh_zone ?n z"
      "\<And>q. q < 1 + int p \<Longrightarrow> memzones st' q = ((memzones st)(int p \<mapsto> z)) q"
      using 1(1)[OF True _ z(1)[symmetric] refl] ok(1) rest 1(2) f
      by (simp add: st1_def [symmetric] st2_def [symmetric] del: zless_add1_eq) blast
    have "\<exists>z. memzones st' q = Some z \<and> fresh_zone ?n z" if "int p \<le> q" "q < int nb" for q
      using st'(4)[of q] st'(5)[of q] that z(2) by (cases "q = int p") auto
    moreover have "memzones st' q = memzones st q" if "q < int p" for q
      using st'(5)[of q] that by simp
    ultimately show ?thesis using eq st'(1-3) True by simp
  next
    case False
    then show ?thesis by (subst create_zones.simps) auto
  qed
qed

definition so_inv :: "so_state \<Rightarrow> bool" where
  "so_inv st \<longleftrightarrow> (\<forall>k z. memzones st k = Some z \<longrightarrow> zone_inv z) \<and>
     (\<forall>k. ff_so_zone st = Some k \<longrightarrow> memzones st k \<noteq> None)"

definition current_zone :: "int \<Rightarrow> so_state \<Rightarrow> ff_socket_ops_zone option" where
  "current_zone idx st = memzones st (case ff_so_zone st of Some k \<Rightarrow> k | None \<Rightarrow> idx)"

lemma attach_context_cases:
  assumes "so_inv st"
  obtains (nozone) "current_zone idx st = None" "ff_attach_so_context idx st = (None, st)"
  | (zone) z where "current_zone idx st = Some z" "zone_inv z"
      "fst (ff_attach_so_context idx st) = fst (attach_zone z)"
      "current_zone idx (snd (ff_attach_so_context idx st)) = Some (snd (attach_zone z))"
      "so_inv (snd (ff_attach_so_context idx st))"
proof (cases "current_zone idx st")
  case None
  then show ?thesis using nozone by (simp add: ff_attach_so_context_def current_zone_def)
next
  case (Some z)
  then have "zone_inv z" using assms by (auto simp: so_inv_def current_zone_def)
  then show ?thesis
    using zone[OF Some] Some assms attach_zone_inv[of z]
    by (auto simp: ff_attach_so_context_def current_zone_def so_inv_def Let_def split_beta)
qed

lemma detach_take_slot:
  assumes "zone_inv z" "p < unat (zone_count z)" "inuse z ! p = 0" "zone_free z \<noteq> 0"
  shows "zone_used (detach_zone p (take_slot p z)) = zone_used z"
    "zone_free (detach_zone p (take_slot p z)) = zone_free z"
    "zone_inv (detach_zone p (take_slot p z))"
proof -
  have t: "zone_inv (take_slot p z)" "p < unat (zone_count (take_slot p z))"
    using zone_inv_take_slot[OF assms] assms(2) by auto
  have r: "refcount (zone_sc (take_slot p z) ! p) = 1" "inuse (take_slot p z) ! p = 1"
    "zone_free (take_slot p z) = zone_free z - 1"
    using assms zone_invD(2-4)[OF assms(1)] by (auto simp: take_slot_def)
  show "zone_used (detach_zone p (take_slot p z)) = zone_used z"
    using zone_used_detach[OF t] r(1) zone_used_take_slot[OF assms(1,2)] assms(3)
    by (simp add: zone_used_def)
  show "zone_free (detach_zone p (take_slot p z)) = zone_free z"
    using detach_zone_eq[OF t] r by simp
  show "zone_inv (detach_zone p (take_slot p z))" by (rule zone_inv_detach[OF t])
qed

lemma attach_detach_restores:
  assumes "so_inv st" "ff_attach_so_context idx st = (Some p, st1)"
  shows "so_inv (ff_detach_so_context (Some p) st1) \<and>
    map_option zone_used (current_zone idx (ff_detach_so_context (Some p) st1)) =
      map_option zone_used (current_zone idx st) \<and>
    map_option zone_free (current_zone idx (ff_detach_so_context (Some p) st1)) =
      map_option zone_free (current_zone idx st)"
proof -
  let ?k = "case ff_so_zone st of Some k \<Rightarrow> k | None \<Rightarrow> idx"
  obtain z where z: "memzones st ?k = Some z" "zone_inv z" "fst (attach_zone z) = Some p"
    using assms by (cases "memzones st ?k") (auto simp: ff_attach_so_context_def so_inv_def Let_def split_beta)
  obtain "p < unat (zone_count z)" "inuse z ! p = 0" "zone_free z \<noteq> 0" "attach_zone z = (Some p, take_slot p z)"
    using attach_zone_cases[OF z(2)] z(3) by (metis fst_conv option.inject option.distinct(1))
  note a = this
  then have st1: "st1 = st\<lparr>ff_so_zone := Some ?k, memzones := (memzones st)(?k \<mapsto> take_slot p z)\<rparr>"
    using assms(2) z(1) by (simp add: ff_attach_so_context_def Let_def)
  then show ?thesis
    using detach_take_slot[OF z(2) a(1-3)] assms(1) z(1)
    by (auto simp: ff_detach_so_context_def so_inv_def current_zone_def)
qed

lemma ucast_power_of_2:
  "is_power_of_2 (ucast (c :: u16)) \<longleftrightarrow> (\<exists>k < 16. unat c = 2 ^ k)"
proof -
  have "unat (ucast c :: u64) = unat c" by (simp add: unat_ucast_widen)
  moreover have "k < 16" if "unat c = 2 ^ k" for k
    using that unsigned_less[of c, where ?'a = nat] power_less_imp_less_exp[of "2::nat" k 16] by simp
  ultimately show ?thesis by (auto simp: is_power_of_2_iff)
qed

section \<open>Properties\<close>

text \<open>C8. Exclusive ownership: once attaching has handed out context \<open>p\<close>, no later attach returns
  \<open>p\<close> again until \<open>p\<close> is detached, whatever attaches and detaches of other contexts happen.\<close>

theorem so_context_exclusive:
  assumes "zone_inv z" "attach_zone z = (Some p, z')"
    "\<forall>q. Detach q \<in> set ops \<longrightarrow> q < unat (zone_count z) \<and> q \<noteq> p"
  shows "fst (attach_zone (pool_run attach_zone detach_zone ops z')) \<noteq> Some p"
  by (rule zone_pool.exclusive[OF assms])

text \<open>C28. Creating the zones in the primary process succeeds when DPDK and \<open>sem_init\<close> deliver, points
  the process at zone 0 and leaves every process with an empty, well-formed zone of the configured
  size.\<close>

theorem so_create_primary:
  assumes "ff_so_zone st = None" "pool_size (unat (ff_max_so_context st))" "0 < nb_procs"
    "list_all (\<lambda>q. reserve_ok q \<and> list_all (sem_ok q) [0..<unat (ff_max_so_context st)]) [0..<nb_procs]"
  shows "\<exists>st'. ff_create_so_memzone reserve_ok sem_ok True nb_procs proc_id st = (0, st') \<and>
    ff_so_zone st' = Some 0 \<and>
    (\<forall>q. 0 \<le> q \<and> q < int nb_procs \<longrightarrow>
      (\<exists>z. memzones st' q = Some z \<and> fresh_zone (ff_max_so_context st) z))"
  using create_zones_ok[OF assms(2,4)] assms(1,3)
  by (auto simp: ff_create_so_memzone_def)

text \<open>C30. A zone of \<open>n\<close> contexts serves exactly \<open>n\<close> attaches: they return every context once, and
  the next attach fails and changes nothing.\<close>

theorem so_zone_capacity:
  assumes "zone_inv z" "zone_used z = {}"
  shows "\<exists>ps. fst (pool_take attach_zone (unat (zone_count z)) z) = map Some ps \<and> distinct ps \<and>
    set ps = {..<unat (zone_count z)} \<and>
    attach_zone (snd (pool_take attach_zone (unat (zone_count z)) z)) =
      (None, snd (pool_take attach_zone (unat (zone_count z)) z))"
proof -
  let ?n = "unat (zone_count z)" and ?r = "pool_take attach_zone (unat (zone_count z)) z"
  obtain ps where ps: "fst ?r = map Some ps" "distinct ps" "set ps \<subseteq> {..<?n}"
      "zone_used (snd ?r) = set ps" "zone_inv (snd ?r)" "unat (zone_count (snd ?r)) = ?n" "length ps = ?n"
    using zone_pool.take_all[OF assms(1), of ?n] assms(2) by auto
  then have "set ps = {..<?n}"
    using distinct_card[OF ps(2)] by (intro card_subset_eq) auto
  then show ?thesis using ps attach_zone_full[OF ps(5)] by auto
qed

text \<open>C31. Attaching a context and detaching it again gives the zone back as it was: the same contexts
  in use and the same number free, and every zone still well formed.\<close>

theorem so_attach_detach_roundtrip:
  assumes "so_inv st" "ff_attach_so_context idx st = (Some p, st1)"
  shows "so_inv (ff_detach_so_context (Some p) st1) \<and>
    map_option zone_used (current_zone idx (ff_detach_so_context (Some p) st1)) =
      map_option zone_used (current_zone idx st) \<and>
    map_option zone_free (current_zone idx (ff_detach_so_context (Some p) st1)) =
      map_option zone_free (current_zone idx st)"
  using assms by (rule attach_detach_restores)

text \<open>\<open>ff_set_max_so_context\<close> accepts exactly the powers of two, only before the zone exists; it
  clamps the size to 32, so every accepted size is a valid zone size, and a refusal changes nothing.\<close>

theorem so_set_max:
  "(fst (ff_set_max_so_context c st) = 0 \<longleftrightarrow> ff_so_zone st = None \<and> (\<exists>k < 16. unat c = 2 ^ k)) \<and>
   (if fst (ff_set_max_so_context c st) = 0
    then ff_max_so_context (snd (ff_set_max_so_context c st)) = min c 32 \<and>
         pool_size (unat (ff_max_so_context (snd (ff_set_max_so_context c st))))
    else snd (ff_set_max_so_context c st) = st)"
proof (cases "ff_so_zone st = None \<and> (\<exists>k < 16. unat c = 2 ^ k)")
  case True
  have "pool_size (unat (min c 32))"
  proof (cases "c \<le> 32")
    case le: True
    then have "unat c \<le> 32" by (simp add: word_le_nat_alt)
    then show ?thesis using True pow2_le_32 le by (auto simp: min_def)
  qed (simp add: min_def pool_size_def)
  then show ?thesis
    using True by (auto simp: ff_set_max_so_context_def Let_def ucast_power_of_2 min_def
        SOCKET_OPS_CONTEXT_MAX_NUM_def word_le_nat_alt not_le)
next
  case False
  then show ?thesis by (auto simp: ff_set_max_so_context_def Let_def ucast_power_of_2)
qed

section \<open>Witnesses\<close>

definition demo_zone :: ff_socket_ops_zone where
  "demo_zone = snd (init_contexts (\<lambda>_. True) 4 0 (zone_header 4))"

definition demo_state :: so_state where
  "demo_state = \<lparr>ff_max_so_context = 4, ff_so_zone = None, memzones = [0 \<mapsto> demo_zone]\<rparr>"

lemma demo_zone_fresh: "zone_inv demo_zone" "zone_used demo_zone = {}" "zone_count demo_zone = 4"
proof -
  obtain z where z: "init_contexts (\<lambda>_. True) 4 0 (zone_header 4) = (True, z)" "zone_inv z"
    "zone_used z = {}" "unat (zone_count z) = unat (4 :: u16)"
    by (rule init_contexts_fresh[of 4 "\<lambda>_. True"]) (simp_all add: pool_size_def list_all_iff)
  then have "demo_zone = z" by (simp add: demo_zone_def)
  moreover have "zone_count z = 4" using z(4) by (simp add: word_unat_eq_iff)
  ultimately show "zone_inv demo_zone" "zone_used demo_zone = {}" "zone_count demo_zone = 4"
    using z(2,3) by blast+
qed

lemma demo_attach:
  obtains p z' where "attach_zone demo_zone = (Some p, z')"
proof -
  have "{..<4} \<noteq> ({} :: nat set)" by (simp add: lessThan_empty_iff)
  then show ?thesis
    using attach_zone_free[OF demo_zone_fresh(1)] demo_zone_fresh(2,3) that
    by (cases "attach_zone demo_zone") auto
qed

lemma demo_state_inv: "so_inv demo_state"
  by (auto simp: so_inv_def demo_state_def demo_zone_fresh split: if_splits)

theorem so_context_exclusive_witness:
  "\<exists>p z'. attach_zone demo_zone = (Some p, z') \<and>
     fst (attach_zone (pool_run attach_zone detach_zone [Attach, Attach] z')) \<noteq> Some p"
proof -
  obtain p z' where "attach_zone demo_zone = (Some p, z')" by (rule demo_attach)
  then show ?thesis
    using so_context_exclusive[OF demo_zone_fresh(1), of p z' "[Attach, Attach]"] by auto
qed

theorem so_create_primary_witness:
  "\<exists>st'. ff_create_so_memzone (\<lambda>_. True) (\<lambda>_ _. True) True 2 0 (demo_state\<lparr>memzones := Map.empty\<rparr>) = (0, st') \<and>
    ff_so_zone st' = Some 0 \<and>
    (\<forall>q. 0 \<le> q \<and> q < int 2 \<longrightarrow> (\<exists>z. memzones st' q = Some z \<and>
       fresh_zone (ff_max_so_context (demo_state\<lparr>memzones := Map.empty\<rparr>)) z))"
  by (rule so_create_primary) (simp_all add: demo_state_def pool_size_def list_all_iff)

theorem so_zone_capacity_witness:
  "\<exists>ps. fst (pool_take attach_zone 4 demo_zone) = map Some ps \<and> distinct ps \<and> set ps = {..<4} \<and>
    attach_zone (snd (pool_take attach_zone 4 demo_zone)) = (None, snd (pool_take attach_zone 4 demo_zone))"
  using so_zone_capacity[OF demo_zone_fresh(1,2)] demo_zone_fresh(3) by simp

theorem so_attach_detach_roundtrip_witness:
  "\<exists>p st1. ff_attach_so_context 0 demo_state = (Some p, st1) \<and>
     map_option zone_used (current_zone 0 (ff_detach_so_context (Some p) st1)) = Some {}"
proof -
  obtain p z' where "attach_zone demo_zone = (Some p, z')" by (rule demo_attach)
  then obtain st1 where a: "ff_attach_so_context 0 demo_state = (Some p, st1)"
    by (simp add: ff_attach_so_context_def demo_state_def)
  have "current_zone 0 demo_state = Some demo_zone" by (simp add: current_zone_def demo_state_def)
  then show ?thesis
    using so_attach_detach_roundtrip[OF demo_state_inv a] a demo_zone_fresh(2) by auto
qed

end
