(* ===== verification/FF_Toeplitz.thy ===== *)
theory FF_Toeplitz
  imports FF_Prelude
begin

text \<open>
  The Toeplitz hash of receive-side scaling (\<open>toeplitz_hash\<close> of \<open>lib/ff_dpdk_if.c\<close>) and the hash
  keys the program offers. The C routine shifts a 32-bit window along the key while it walks the
  data; it is related here to the textbook definition, the exclusive or of the key windows at the
  positions of the data bits that are set. Linearity and, for the symmetric key, invariance under
  exchanging the two ends of a connection follow from that.
\<close>

section \<open>Keys\<close>

definition default_rsskey_40bytes :: "u8 list" where
  "default_rsskey_40bytes =
    [0xd1, 0x81, 0xc6, 0x2c, 0xf7, 0xf4, 0xdb, 0x5b,
     0x19, 0x83, 0xa2, 0xfc, 0x94, 0x3e, 0x1a, 0xdb,
     0xd9, 0x38, 0x9e, 0x6b, 0xd1, 0x03, 0x9c, 0x2c,
     0xa7, 0x44, 0x99, 0xad, 0x59, 0x3d, 0x56, 0xd9,
     0xf3, 0x25, 0x3c, 0x06, 0x2a, 0xdc, 0x1f, 0xfc]"

definition default_rsskey_52bytes :: "u8 list" where
  "default_rsskey_52bytes =
    [0x44, 0x39, 0x79, 0x6b, 0xb5, 0x4c, 0x50, 0x23,
     0xb6, 0x75, 0xea, 0x5b, 0x12, 0x4f, 0x9f, 0x30,
     0xb8, 0xa2, 0xc0, 0x3d, 0xdf, 0xdc, 0x4d, 0x02,
     0xa0, 0x8c, 0x9b, 0x33, 0x4a, 0xf6, 0x4a, 0x4c,
     0x05, 0xc6, 0xfa, 0x34, 0x39, 0x58, 0xd8, 0x55,
     0x7d, 0x99, 0x58, 0x3a, 0xe1, 0x38, 0xc9, 0x2e,
     0x81, 0x15, 0x03, 0x66]"

definition symmetric_rsskey :: "u8 list" where
  "symmetric_rsskey =
    [0x6d, 0x5a, 0x6d, 0x5a, 0x6d, 0x5a, 0x6d, 0x5a,
     0x6d, 0x5a, 0x6d, 0x5a, 0x6d, 0x5a, 0x6d, 0x5a,
     0x6d, 0x5a, 0x6d, 0x5a, 0x6d, 0x5a, 0x6d, 0x5a,
     0x6d, 0x5a, 0x6d, 0x5a, 0x6d, 0x5a, 0x6d, 0x5a,
     0x6d, 0x5a, 0x6d, 0x5a, 0x6d, 0x5a, 0x6d, 0x5a,
     0x6d, 0x5a, 0x6d, 0x5a, 0x6d, 0x5a, 0x6d, 0x5a,
     0x6d, 0x5a, 0x6d, 0x5a]"

section \<open>The routine\<close>

text \<open>One iteration of the inner loop: bit \<open>b\<close> of data byte \<open>i\<close>, whose value is \<open>d\<close>.\<close>

definition toeplitz_bit :: "nat \<Rightarrow> u8 list \<Rightarrow> nat \<Rightarrow> u8 \<Rightarrow> nat \<Rightarrow> u32 \<times> u32 \<Rightarrow> u32 \<times> u32" where
  "toeplitz_bit keylen key i d b = (\<lambda>(hash, v).
     let hash = (if bit d (7 - b) then hash XOR v else hash);
         v = push_bit 1 v;
         v = (if i + 4 < keylen \<and> bit (key ! (i + 4)) (7 - b) then v OR 1 else v)
     in (hash, v))"

fun toeplitz_loop :: "nat \<Rightarrow> u8 list \<Rightarrow> nat \<Rightarrow> u8 list \<Rightarrow> u32 \<times> u32 \<Rightarrow> u32 \<times> u32" where
  "toeplitz_loop keylen key i [] s = s"
| "toeplitz_loop keylen key i (d # data) s =
     toeplitz_loop keylen key (i + 1) data (fold (toeplitz_bit keylen key i d) [0..<8] s)"

definition toeplitz_hash :: "nat \<Rightarrow> u8 list \<Rightarrow> nat \<Rightarrow> u8 list \<Rightarrow> u32" where
  "toeplitz_hash keylen key datalen data =
    (let v = push_bit 24 (ucast (key ! 0)) + push_bit 16 (ucast (key ! 1))
           + push_bit 8 (ucast (key ! 2)) + ucast (key ! 3)
     in fst (toeplitz_loop keylen key 0 (take datalen data) (0, v)))"

section \<open>The textbook definition\<close>

definition key_bit :: "nat \<Rightarrow> u8 list \<Rightarrow> nat \<Rightarrow> bool" where
  "key_bit keylen key m \<longleftrightarrow> m < 8 * keylen \<and> bit (key ! (m div 8)) (7 - m mod 8)"

definition key_window :: "nat \<Rightarrow> u8 list \<Rightarrow> nat \<Rightarrow> u32" where
  "key_window keylen key n = horner_sum of_bool 2 (map (\<lambda>j. key_bit keylen key (n + 31 - j)) [0..<32])"

definition toeplitz_ref :: "nat \<Rightarrow> u8 list \<Rightarrow> u8 list \<Rightarrow> u32" where
  "toeplitz_ref keylen key data =
     xor_list (map (\<lambda>n. if bit (data ! (n div 8)) (7 - n mod 8) then key_window keylen key n else 0)
                   [0..<8 * length data])"

text \<open>The share of one data byte.\<close>

definition byte_hash :: "nat \<Rightarrow> u8 list \<Rightarrow> nat \<Rightarrow> u8 \<Rightarrow> u32" where
  "byte_hash keylen key i d =
     xor_list (map (\<lambda>b. if bit d (7 - b) then key_window keylen key (8 * i + b) else 0) [0..<8])"

lemma bit_key_window: "bit (key_window keylen key n) j \<longleftrightarrow> j < 32 \<and> key_bit keylen key (n + 31 - j)"
  by (auto simp: key_window_def bit_horner_sum_bit_iff)

lemma toeplitz_bit_window:
  assumes "b < 8"
  shows "toeplitz_bit keylen key i d b (h, key_window keylen key (8 * i + b)) =
    (if bit d (7 - b) then h XOR key_window keylen key (8 * i + b) else h,
     key_window keylen key (8 * i + Suc b))"
proof -
  let ?v = "key_window keylen key (8 * i + b)"
  have div: "(8 * i + b + 32) div 8 = i + 4" "(8 * i + b + 32) mod 8 = b"
    using assms by presburger+
  then have last: "key_bit keylen key (8 * i + b + 32) \<longleftrightarrow> i + 4 < keylen \<and> bit (key ! (i + 4)) (7 - b)"
    using assms by (auto simp: key_bit_def)
  have "(if i + 4 < keylen \<and> bit (key ! (i + 4)) (7 - b) then push_bit 1 ?v OR 1 else push_bit 1 ?v)
      = key_window keylen key (8 * i + Suc b)"
    unfolding last [symmetric]
  proof (rule bit_word_eqI)
    fix j assume j: "j < LENGTH(32)"
    define w where "w = push_bit 1 ?v"
    have w: "bit w j \<longleftrightarrow> 0 < j \<and> key_bit keylen key (8 * i + b + 32 - j)"
      unfolding w_def using j by (simp only: bit_push_bit_iff bit_key_window) (auto simp: Suc_le_eq add.commute)
    have "bit (key_window keylen key (8 * i + Suc b)) j \<longleftrightarrow> key_bit keylen key (8 * i + b + 32 - j)"
      using j by (simp add: bit_key_window add.commute)
    then show "bit (if key_bit keylen key (8 * i + b + 32) then push_bit 1 ?v OR 1 else push_bit 1 ?v) j
      \<longleftrightarrow> bit (key_window keylen key (8 * i + Suc b)) j"
      unfolding w_def [symmetric] using w j by (cases "j = 0") (simp_all add: bit_or_iff bit_1_iff)
  qed
  then show ?thesis by (simp only: toeplitz_bit_def Let_def prod.case)
qed

lemma toeplitz_bits_window:
  "n \<le> 8 \<Longrightarrow> fold (toeplitz_bit keylen key i d) [0..<n] (h, key_window keylen key (8 * i)) =
    (h XOR xor_list (map (\<lambda>b. if bit d (7 - b) then key_window keylen key (8 * i + b) else 0) [0..<n]),
     key_window keylen key (8 * i + n))"
proof (induction n)
  case (Suc n)
  then show ?case using toeplitz_bit_window[of n keylen key i d] by (auto simp: ac_simps)
qed simp

lemma toeplitz_loop_bytes:
  "fst (toeplitz_loop keylen key i data (h, key_window keylen key (8 * i))) =
    h XOR xor_list (map (\<lambda>n. byte_hash keylen key (i + n) (data ! n)) [0..<length data])"
proof (induction data arbitrary: i h)
  case (Cons d data)
  have "map (\<lambda>n. byte_hash keylen key (i + n) ((d # data) ! n)) [0..<length (d # data)] =
      byte_hash keylen key i d # map (\<lambda>n. byte_hash keylen key (Suc i + n) (data ! n)) [0..<length data]"
    by (subst upt_conv_Cons) (auto simp: map_Suc_upt [symmetric] simp del: upt_Suc)
  then show ?case
    using Cons.IH[of "Suc i"] toeplitz_bits_window[of 8 keylen key i d h]
    by (simp add: byte_hash_def [symmetric] ac_simps)
qed simp

text \<open>The 32-bit window the routine starts from.\<close>

lemma first_window:
  assumes "4 \<le> keylen" 
  shows "push_bit 24 (ucast (key ! 0)) + push_bit 16 (ucast (key ! 1))
    + push_bit 8 (ucast (key ! 2)) + ucast (key ! 3) = key_window keylen key 0"
  (is "?a + ?b + ?c + ?d = _")
proof -
  have b8: "bit (w :: u8) n \<Longrightarrow> n < 8" for w n using bit_imp_le_length[of w n] by simp
  have dj: "?c AND ?d = 0" "?b AND (?c OR ?d) = 0" "?a AND (?b OR ?c OR ?d) = 0"
    by (rule bit_word_eqI, auto simp: bit_simps dest: b8,
        rule bit_word_eqI, auto simp: bit_simps dest!: b8,
        rule bit_word_eqI, auto simp: bit_simps dest!: b8)
  have "?a + ?b + ?c + ?d = ?a + (?b + (?c + ?d))" by simp
  also have "\<dots> = ?a OR ?b OR ?c OR ?d"
    using dj by (simp add: disjunctive_add_eq_or or.assoc)
  also have "\<dots> = key_window keylen key 0"
  proof (rule bit_word_eqI)
    fix j assume "j < LENGTH(32)"
    define q r where "q = j div 8" and "r = j mod 8"
    then have j: "j = 8 * q + r" "r < 8" "q \<in> {0, 1, 2, 3}"
      using \<open>j < LENGTH(32)\<close> by auto
    then have "31 - j = 8 * (3 - q) + (7 - r)" by auto
    moreover have "(8 * a + c) div 8 = a \<and> (8 * a + c) mod 8 = c" if "c < 8" for a c :: nat
      using that by simp
    ultimately have "(31 - j) div 8 = 3 - q" "(31 - j) mod 8 = 7 - r" using less_imp_diff_less[of 7 8 r] by simp_all
    then have "bit (key_window keylen key 0) j \<longleftrightarrow> bit (key ! (3 - q)) r"
      using assms j by (auto simp: bit_key_window key_bit_def)
    moreover have "bit (?a OR ?b OR ?c OR ?d) j \<longleftrightarrow> bit (key ! (3 - q)) r"
      using j by (auto simp: bit_simps dest: b8)
    ultimately show "bit (?a OR ?b OR ?c OR ?d) j \<longleftrightarrow> bit (key_window keylen key 0) j" by simp
  qed
  finally show ?thesis .
qed

text \<open>The hash of data that starts at byte \<open>i\<close> of the hashed tuple.\<close>

definition hash_from :: "nat \<Rightarrow> u8 list \<Rightarrow> nat \<Rightarrow> u8 list \<Rightarrow> u32" where
  "hash_from keylen key i data = xor_list (map (\<lambda>n. byte_hash keylen key (i + n) (data ! n)) [0..<length data])"

lemma toeplitz_hash_from:
  assumes "4 \<le> keylen"
  shows "toeplitz_hash keylen key datalen data = hash_from keylen key 0 (take datalen data)"
  using toeplitz_loop_bytes[of keylen key 0 "take datalen data" 0] first_window[OF assms]
  by (simp add: toeplitz_hash_def Let_def hash_from_def)

lemma hash_from_append:
  "hash_from keylen key i (xs @ ys) = hash_from keylen key i xs XOR hash_from keylen key (i + length xs) ys"
proof -
  let ?f = "\<lambda>n. byte_hash keylen key (i + n) ((xs @ ys) ! n)"
  have "[0..<length (xs @ ys)] = [0..<length xs] @ map (\<lambda>n. n + length xs) [0..<length ys]"
    by (simp add: map_add_upt add.commute [of "length ys"] flip: upt_add_eq_append)
  then have "hash_from keylen key i (xs @ ys) =
      xor_list (map ?f [0..<length xs]) XOR xor_list (map (\<lambda>n. ?f (n + length xs)) [0..<length ys])"
    by (simp only: hash_from_def map_append map_map xor_list_append comp_def)
  also have "map ?f [0..<length xs] = map (\<lambda>n. byte_hash keylen key (i + n) (xs ! n)) [0..<length xs]"
    by (intro map_cong) (auto simp: nth_append)
  also have "map (\<lambda>n. ?f (n + length xs)) [0..<length ys] =
      map (\<lambda>n. byte_hash keylen key (i + length xs + n) (ys ! n)) [0..<length ys]"
    by (intro map_cong) (auto simp: nth_append ac_simps)
  finally show ?thesis by (simp add: hash_from_def)
qed

lemma xor_list_by_bytes:
  "xor_list (map f [0..<8 * n]) = xor_list (map (\<lambda>i. xor_list (map (\<lambda>b. f (8 * i + b)) [0..<8])) [0..<n])"
proof (induction n)
  case (Suc n)
  have "[0..<8 * Suc n] = [0..<8 * n] @ map (\<lambda>b. 8 * n + b) [0..<8]"
    using map_add_upt[of "8 * n" 8] upt_add_eq_append[of 0 "8 * n" 8]
    by (simp add: add.commute del: upt_Suc)
  then have "xor_list (map f [0..<8 * Suc n]) =
      xor_list (map f [0..<8 * n]) XOR xor_list (map (\<lambda>b. f (8 * n + b)) [0..<8])"
    by (simp only: map_append map_map xor_list_append comp_def)
  then show ?case using Suc.IH by (simp del: upt_Suc mult_Suc_right) simp
qed simp

lemma hash_from_ref: "hash_from keylen key 0 data = toeplitz_ref keylen key data"
  unfolding toeplitz_ref_def xor_list_by_bytes hash_from_def byte_hash_def
  by (intro arg_cong[where f = xor_list] map_cong refl) auto

lemma byte_hash_xor:
  "byte_hash keylen key i (d XOR e) = byte_hash keylen key i d XOR byte_hash keylen key i e"
proof -
  have "(if bit (d XOR e) k then w else 0) = (if bit d k then w else 0) XOR (if bit e k then w else 0)"
    for k and w :: u32 by (simp add: bit_xor_iff)
  then show ?thesis by (simp add: byte_hash_def xor_list_map_xor [symmetric])
qed

lemma hash_from_xor:
  assumes "length xs = length ys"
  shows "hash_from keylen key i (map2 (XOR) xs ys) = hash_from keylen key i xs XOR hash_from keylen key i ys"
proof -
  have "map (\<lambda>n. byte_hash keylen key (i + n) (map2 (XOR) xs ys ! n)) [0..<length ys] =
      map (\<lambda>n. byte_hash keylen key (i + n) (xs ! n) XOR byte_hash keylen key (i + n) (ys ! n)) [0..<length ys]"
    using assms by (intro map_cong refl) (simp add: byte_hash_xor)
  moreover have "length (map2 (XOR) xs ys) = length ys" using assms by simp
  ultimately show ?thesis unfolding hash_from_def assms xor_list_map_xor [symmetric] by argo
qed

text \<open>The symmetric key repeats after 16 bits, so a byte contributes the same two positions later.\<close>

lemma symmetric_key_repeats: "i < 50 \<Longrightarrow> symmetric_rsskey ! (i + 2) = symmetric_rsskey ! i"
proof -
  have "list_all (\<lambda>i. symmetric_rsskey ! (i + 2) = symmetric_rsskey ! i) [0..<50]"
    by code_simp
  then show "i < 50 \<Longrightarrow> ?thesis" by (simp add: list_all_iff)
qed

lemma symmetric_key_bit:
  assumes "m + 16 < 8 * keylen" "keylen \<le> 52"
  shows "key_bit keylen symmetric_rsskey (m + 16) = key_bit keylen symmetric_rsskey m"
proof -
  have "(m + 16) div 8 = m div 8 + 2" "(m + 16) mod 8 = m mod 8" by presburger+
  then show ?thesis using assms symmetric_key_repeats[of "m div 8"] by (auto simp: key_bit_def)
qed

lemma symmetric_window:
  assumes "n + 47 < 8 * keylen" "keylen \<le> 52"
  shows "key_window keylen symmetric_rsskey (n + 16) = key_window keylen symmetric_rsskey n"
proof (rule bit_word_eqI)
  fix j assume "j < LENGTH(32)"
  then show "bit (key_window keylen symmetric_rsskey (n + 16)) j = bit (key_window keylen symmetric_rsskey n) j"
    using symmetric_key_bit[of "n + 31 - j"] assms by (simp add: bit_key_window)
qed

lemma symmetric_byte_hash:
  assumes "i + 7 \<le> keylen" "keylen \<le> 52"
  shows "byte_hash keylen symmetric_rsskey (i + 2) d = byte_hash keylen symmetric_rsskey i d"
proof -
  have "key_window keylen symmetric_rsskey (8 * (i + 2) + b) = key_window keylen symmetric_rsskey (8 * i + b)"
    if "b \<in> set [0..<8]" for b
    using symmetric_window[of "8 * i + b" keylen] assms that by (simp add: algebra_simps)
  then show ?thesis
    unfolding byte_hash_def by (intro arg_cong[where f = xor_list] map_cong refl) metis
qed

lemma symmetric_shift:
  assumes "keylen \<le> 52"
  shows "even s \<Longrightarrow> i + s + length xs + 4 \<le> keylen \<Longrightarrow>
    hash_from keylen symmetric_rsskey (i + s) xs = hash_from keylen symmetric_rsskey i xs"
proof (induction s rule: less_induct)
  case (less s)
  show ?case
  proof (cases "s = 0")
    case False
    then obtain t where t: "s = t + 2" "even t"
      using less.prems(1) that[of "s - 2"] by (cases s; cases "s - 1") auto
    have "byte_hash keylen symmetric_rsskey (i + t + 2 + n) d = byte_hash keylen symmetric_rsskey (i + t + n) d"
      if "n < length xs" for n d
      using symmetric_byte_hash[OF _ assms, of "i + t + n" d] less.prems t that
      by (simp add: add.commute add.left_commute)
    then have "hash_from keylen symmetric_rsskey (i + t + 2) xs = hash_from keylen symmetric_rsskey (i + t) xs"
      unfolding hash_from_def by (intro arg_cong[where f = xor_list] map_cong refl) simp
    then show ?thesis using less.IH[of t] t less.prems by (simp add: add.assoc)
  qed simp
qed

section \<open>Properties\<close>

text \<open>C19. The shifting-window routine computes the textbook Toeplitz hash: the exclusive or of the
  32-bit key windows at the positions of the data bits that are set.\<close>

theorem toeplitz_hash_correct:
  assumes "4 \<le> keylen"
  shows "toeplitz_hash keylen key datalen data = toeplitz_ref keylen key (take datalen data)"
  using toeplitz_hash_from[OF assms] hash_from_ref by simp

theorem toeplitz_hash_correct_witness:
  "toeplitz_hash 40 default_rsskey_40bytes 2 [0x80, 1] = toeplitz_ref 40 default_rsskey_40bytes [0x80, 1] \<and>
   toeplitz_hash 40 default_rsskey_40bytes 1 [0x80] = 0xd181c62c"
  using toeplitz_hash_correct[of 40 default_rsskey_40bytes 2 "[0x80, 1]"] by (simp, code_simp)

text \<open>The hash is linear: the hash of the exclusive or of two tuples is the exclusive or of
  their hashes. Solving for a source port that reaches a chosen queue rests on this.\<close>

theorem toeplitz_hash_linear:
  assumes "4 \<le> keylen" "length xs = length ys"
  shows "toeplitz_hash keylen key (length xs) (map2 (XOR) xs ys) =
    toeplitz_hash keylen key (length xs) xs XOR toeplitz_hash keylen key (length xs) ys"
  using assms by (simp add: toeplitz_hash_from hash_from_xor)

theorem toeplitz_hash_linear_witness:
  "toeplitz_hash 40 default_rsskey_40bytes 2 [5, 7] =
   toeplitz_hash 40 default_rsskey_40bytes 2 [4, 1] XOR toeplitz_hash 40 default_rsskey_40bytes 2 [1, 6]"
  using toeplitz_hash_linear[of 40 "[4, 1]" "[1, 6]" default_rsskey_40bytes] by (simp add: numeral_2_eq_2)

text \<open>Under \<open>symmetric_rsskey\<close>, at both key lengths the program uses, both directions of a connection
  have the same hash: exchanging the addresses and the ports of the tuple changes nothing, for IPv4
  (four-byte addresses) as for IPv6.\<close>

theorem toeplitz_symmetric:
  assumes "keylen \<in> {40, 52}" "n \<in> {4, 16}"
    "length a = n" "length b = n" "length p = 2" "length q = 2"
  shows "toeplitz_hash keylen symmetric_rsskey (2 * n + 4) (a @ b @ p @ q) =
         toeplitz_hash keylen symmetric_rsskey (2 * n + 4) (b @ a @ q @ p)"
proof -
  let ?h = "hash_from keylen symmetric_rsskey"
  have e: "even n" "n \<le> 16" and k: "keylen \<le> 52" "40 \<le> keylen" "4 \<le> keylen" using assms(1,2) by auto
  have blocks: "toeplitz_hash keylen symmetric_rsskey (2 * n + 4) (x @ y @ u @ v) =
      ?h 0 x XOR (?h 0 y XOR (?h (2 * n) u XOR ?h (2 * n) v))"
    if "length x = n" "length y = n" "length u = 2" "length v = 2" for x y u v
  proof -
    have "?h n y = ?h 0 y" "?h (2 * n + 2) v = ?h (2 * n) v"
      using symmetric_shift[OF k(1), of n 0 y] symmetric_shift[OF k(1), of 2 "2 * n" v] that e k by simp_all
    moreover have "take (2 * n + 4) (x @ y @ u @ v) = x @ y @ u @ v" using that by simp
    ultimately show ?thesis
      by (simp only: toeplitz_hash_from[OF k(3)] hash_from_append that add_0 mult_2 xor.assoc)
  qed
  show ?thesis
    unfolding blocks[OF assms(3-6)] blocks[OF assms(4,3,6,5)] by (simp only: ac_simps)
qed

theorem toeplitz_symmetric_witness:
  "toeplitz_hash 52 symmetric_rsskey 12 ([10,0,0,1] @ [10,0,0,2] @ [0,80] @ [31,64]) =
   toeplitz_hash 52 symmetric_rsskey 12 ([10,0,0,2] @ [10,0,0,1] @ [31,64] @ [0,80])"
  using toeplitz_symmetric[of 52 4 "[10,0,0,1]" "[10,0,0,2]" "[0,80]" "[31,64]"] by simp

end
