(* ===== verification/FF_Config_Types.thy ===== *)
theory FF_Config_Types
  imports FF_Prelude
begin

text \<open>
  The configuration structures of \<open>lib/ff_config.h\<close>, in the default build (FF_IPFW and INET6 defined,
  FF_KERNEL_COEXIST not).

  A \<open>char *\<close> is a \<open>string option\<close>, None for NULL. A counted array of strings or numbers is a list;
  where the program allocates the array separately from its count both are kept. A pointer to an
  array of structures is an optional list. The entries of \<open>vlan_cfgs\<close> of a port point into the
  global VLAN table and are positions in it.
\<close>

section \<open>Constants\<close>

definition DPDK_CONFIG_NUM :: nat where "DPDK_CONFIG_NUM = 32"
definition DPDK_MAX_LCORE :: nat where "DPDK_MAX_LCORE = 128"
definition DPDK_MAX_VLAN_FILTER :: nat where "DPDK_MAX_VLAN_FILTER = 128"
definition PCAP_SNAP_MINLEN :: nat where "PCAP_SNAP_MINLEN = 94"
definition PCAP_SAVE_MINLEN :: nat where "PCAP_SAVE_MINLEN = 2 * 2 ^ 22"
definition KNI_RATELIMT_PROCESS :: int where "KNI_RATELIMT_PROCESS = 10000"
definition KNI_RATELIMT_GENERAL :: int where "KNI_RATELIMT_GENERAL = 1000"
definition KNI_RATELIMT_CONSOLE :: int where
  "KNI_RATELIMT_CONSOLE = KNI_RATELIMT_PROCESS - KNI_RATELIMT_GENERAL"
definition KNI_RATELIMT_KERNEL :: int where "KNI_RATELIMT_KERNEL = KNI_RATELIMT_PROCESS * 2"
definition MAX_PKT_BURST :: nat where "MAX_PKT_BURST = 32"
definition BURST_TX_DRAIN_US :: nat where "BURST_TX_DRAIN_US = 100"
definition FF_MTU_MIN :: nat where "FF_MTU_MIN = 68"
definition FF_MTU_DEFAULT :: nat where "FF_MTU_DEFAULT = 1500"
definition FF_MTU_JUMBO_DEFAULT :: nat where "FF_MTU_JUMBO_DEFAULT = 9000"
definition VIP_MAX_NUM :: nat where "VIP_MAX_NUM = 64"
definition FF_RSS_TBL_MAX_SADDR :: nat where "FF_RSS_TBL_MAX_SADDR = 4"
definition FF_RSS_TBL_MAX_SPORT :: nat where "FF_RSS_TBL_MAX_SPORT = 4"
definition FF_RSS_TBL_MAX_DADDR :: nat where "FF_RSS_TBL_MAX_DADDR = 4"
definition FF_RSS_TBL_MAX_DPORT :: nat where "FF_RSS_TBL_MAX_DPORT = 65536"
definition FF_RSS_TBL_MAX_DIP_MASK :: nat where
  "FF_RSS_TBL_MAX_DIP_MASK = FF_RSS_TBL_MAX_DADDR - 1"
definition FF_RSS_TBL_MAX_SADDR_SPORT_ENTRIES :: nat where
  "FF_RSS_TBL_MAX_SADDR_SPORT_ENTRIES = FF_RSS_TBL_MAX_SADDR * FF_RSS_TBL_MAX_SPORT"
definition FF_RSS_TBL_MAX_SADDR_SPORT_ENTRIES_MASK :: nat where
  "FF_RSS_TBL_MAX_SADDR_SPORT_ENTRIES_MASK = FF_RSS_TBL_MAX_SADDR_SPORT_ENTRIES - 1"
definition FF_RSS_TBL_MAX_ENTRIES :: nat where
  "FF_RSS_TBL_MAX_ENTRIES = FF_RSS_TBL_MAX_SADDR_SPORT_ENTRIES * FF_RSS_TBL_MAX_DADDR"

lemmas config_consts [simp] =
  DPDK_CONFIG_NUM_def DPDK_MAX_LCORE_def DPDK_MAX_VLAN_FILTER_def PCAP_SNAP_MINLEN_def
  PCAP_SAVE_MINLEN_def KNI_RATELIMT_PROCESS_def KNI_RATELIMT_GENERAL_def KNI_RATELIMT_CONSOLE_def
  KNI_RATELIMT_KERNEL_def MAX_PKT_BURST_def BURST_TX_DRAIN_US_def FF_MTU_MIN_def FF_MTU_DEFAULT_def
  FF_MTU_JUMBO_DEFAULT_def VIP_MAX_NUM_def FF_RSS_TBL_MAX_SADDR_def FF_RSS_TBL_MAX_SPORT_def
  FF_RSS_TBL_MAX_DADDR_def FF_RSS_TBL_MAX_DPORT_def FF_RSS_TBL_MAX_DIP_MASK_def
  FF_RSS_TBL_MAX_SADDR_SPORT_ENTRIES_def FF_RSS_TBL_MAX_SADDR_SPORT_ENTRIES_MASK_def
  FF_RSS_TBL_MAX_ENTRIES_def

section \<open>Structures\<close>

record ff_hw_features =
  hw_rx_csum :: u8
  hw_rx_lro :: u8
  hw_tx_csum_ip :: u8
  hw_tx_csum_l4 :: u8
  hw_tx_tso :: u8
  hw_sw_lro :: u8

record ff_ipfw_pr_cfg =
  pr_addr :: "string option"
  pr_netmask :: "string option"

record ff_vlan_cfg =
  vl_name :: "string option"
  vl_ifname :: "string option"
  vl_idx :: int
  vl_id :: u16
  vl_port_id :: u16
  vl_addr :: "string option"
  vl_netmask :: "string option"
  vl_broadcast :: "string option"
  vl_gateway :: "string option"
  vl_vip_ifname :: "string option"
  vl_vip_addr_str :: "string option"
  vl_vip_addr_array :: "string option list option"
  vl_nb_vip :: nat
  vl_pr_addr_str :: "string option"
  vl_pr_cfg :: "ff_ipfw_pr_cfg list option"
  vl_nb_pr :: nat
  vl_addr6_str :: "string option"
  vl_gateway6_str :: "string option"
  vl_prefix_len :: u8
  vl_vip_addr6_str :: "string option"
  vl_vip_addr6_array :: "string option list option"
  vl_nb_vip6 :: nat
  vl_vip_prefix_len :: u8

datatype ff_mbuf_mode = FF_MBUF_MODE_LARGE | FF_MBUF_MODE_SCATTER

record ff_port_cfg =
  pc_name :: "string option"
  pc_ifname :: "string option"
  pc_port_id :: u16
  pc_mac :: "u8 list"
  pc_hw_features :: ff_hw_features
  pc_addr :: "string option"
  pc_netmask :: "string option"
  pc_broadcast :: "string option"
  pc_gateway :: "string option"
  pc_vip_ifname :: "string option"
  pc_vip_addr_str :: "string option"
  pc_vip_addr_array :: "string option list option"
  pc_nb_vip :: nat
  pc_pr_addr_str :: "string option"
  pc_pr_cfg :: "ff_ipfw_pr_cfg list option"
  pc_nb_pr :: nat
  pc_addr6_str :: "string option"
  pc_gateway6_str :: "string option"
  pc_prefix_len :: u8
  pc_vip_addr6_str :: "string option"
  pc_vip_addr6_array :: "string option list option"
  pc_nb_vip6 :: nat
  pc_vip_prefix_len :: u8
  pc_nb_lcores :: int
  pc_nb_slaves :: int
  pc_lcore_list :: "u16 list"
  pc_slave_portid_list :: "u16 list option"
  pc_nb_vlan :: nat
  pc_vlan_cfgs :: "nat option list"
  pc_mtu :: u16

record ff_vdev_cfg =
  vd_name :: "string option"
  vd_iface :: "string option"
  vd_path :: "string option"
  vd_mac :: "string option"
  vd_vdev_id :: u8
  vd_nb_queues :: u8
  vd_nb_cq :: u8
  vd_queue_size :: u16

record ff_bond_cfg =
  bd_name :: "string option"
  bd_slave :: "string option"
  bd_primary :: "string option"
  bd_bond_mac :: "string option"
  bd_xmit_policy :: "string option"
  bd_bond_id :: u8
  bd_mode :: u8
  bd_socket_id :: u8
  bd_lsc_poll_period_ms :: u8
  bd_up_delay :: u16
  bd_down_delay :: u16

record ff_rss_tbl_cfg =
  rt_port_id :: u16
  rt_sport :: u16
  rt_daddr :: u32
  rt_saddr :: u32
  rt_family :: u8
  rt_daddr6 :: "u8 list"
  rt_saddr6 :: "u8 list"

record ff_rss_check_cfg =
  rc_enable :: int
  rc_recheck :: int
  rc_thash_adjust :: int
  rc_nb_rss_tbl :: nat
  rc_rss_tbl_str :: "string option"
  rc_rss_tbl_cfgs :: "ff_rss_tbl_cfg list"

datatype freebsd_value = Int_value int | Str_value string

record ff_freebsd_cfg =
  fb_name :: string
  fb_str :: string
  fb_value :: freebsd_value
  fb_vlen :: nat

record ff_dpdk_cfg =
  proc_type :: "string option"
  lcore_mask :: "string option"
  proc_mask :: "string option"
  base_virtaddr :: "string option"
  eal_file_prefix :: "string option"
  dpdk_allow :: "string option"
  extra_eal_args :: "string option"
  nb_channel :: int
  memory :: int
  no_huge :: int
  nb_procs :: int
  proc_id :: int
  thread_mode :: int
  nb_threads :: int
  primary_slim :: int
  promiscuous :: int
  nb_vdev :: int
  nb_bond :: int
  numa_on :: int
  dpdk_tso :: int
  dpdk_lro :: int
  tx_csum_offoad_skip :: int
  tx_csum_ip_skip :: int
  tx_csum_l4_skip :: int
  vlan_strip :: int
  nb_vlan_filter :: int
  vlan_filter_id :: "u16 list"
  symmetric_rss :: int
  idle_sleep :: u32
  primary_slim_idle_sleep :: u32
  pkt_tx_delay :: u32
  proc_lcore :: "u16 list option"
  nb_ports :: int
  max_portid :: u16
  portid_list :: "u16 list option"
  dpdk_log_level :: u16
  port_cfgs :: "ff_port_cfg list option"
  vlan_cfgs :: "ff_vlan_cfg list option"
  vdev_cfgs :: "ff_vdev_cfg list option"
  bond_cfgs :: "ff_bond_cfg list option"
  rss_check_cfgs :: "ff_rss_check_cfg option"
  mtu_enable :: int
  max_mtu :: u16
  mbuf_mode :: ff_mbuf_mode
  mbuf_low_watermark :: u32

record ff_kni_cfg =
  kni_enable :: int
  console_packets_ratelimit :: int
  general_packets_ratelimit :: int
  kernel_packets_ratelimit :: int
  owner_proc_id :: int
  kni_action :: "string option"
  kni_method :: "string option"
  kni_tcp_port :: "string option"
  kni_udp_port :: "string option"

record ff_log_cfg =
  log_level :: int
  log_dir :: "string option"

record ff_bsd_cfg =
  bsd_boot :: "ff_freebsd_cfg list"
  bsd_sysctl :: "ff_freebsd_cfg list"
  physmem :: int
  bsd_hz :: int
  fd_reserve :: int
  mem_size :: int
  tcp_ecn :: int

record ff_pcap_cfg =
  pcap_enable :: u16
  snap_len :: u16
  save_len :: u32
  save_path :: "string option"
  timestamp_precision :: u8

record ff_config =
  cfg_filename :: "string option"
  dpdk :: ff_dpdk_cfg
  kni :: ff_kni_cfg
  flog :: ff_log_cfg
  freebsd :: ff_bsd_cfg
  pcap :: ff_pcap_cfg

end
