(* ===== verification/FF_Rss.thy ===== *)
theory FF_Rss
  imports FF_Toeplitz FF_Config_Types
begin

text \<open>
  Receive-side scaling in \<open>lib/ff_dpdk_if.c\<close>: the indirection table written to the NIC
  (\<open>set_rss_table\<close>), the software prediction of the queue a tuple reaches (\<open>ff_rss_check\<close>,
  \<open>ff_rss_check6\<close>), the construction of the hash key through DPDK's thash library
  (\<open>ff_rss_thash_build_key\<close>), and the search for a source port whose reply reaches the local queue
  (\<open>ff_rss_adjust_sport\<close>, \<open>ff_rss_adjust_sport6\<close>).

  Addresses and ports are the words the program holds, in network order where the C code holds them
  so; their bytes in memory order are what is hashed. A soft context is the port it belongs to. DPDK's
  thash functions and the random numbers drawn are parameters.
\<close>

section \<open>State\<close>

record ('ctx, 'helper) rss_state =
  rsskey :: "u8 list"
  rsskey_len :: nat
  q_proc_id :: u16
  nb_tx_port :: u16
  tx_port_id :: "u16 list"
  nb_queue_list :: "u16 \<Rightarrow> u16"
  tx_queue_id :: "u16 \<Rightarrow> u16"
  rss_reta_size :: "u16 \<Rightarrow> u16"
  rss_cfg :: "ff_rss_check_cfg option"
  rss_thash_ctx :: "u16 \<Rightarrow> 'ctx option"
  rss_thash_sport_h :: "u16 \<Rightarrow> 'helper option"
  rss_thash_ready :: "u16 \<Rightarrow> bool"
  rss_thash6_ctx :: "u16 \<Rightarrow> 'ctx option"
  rss_thash6_sport_h :: "u16 \<Rightarrow> 'helper option"
  rss_thash6_ready :: "u16 \<Rightarrow> bool"
  ff_rss_key_built :: bool

section \<open>The indirection table\<close>

definition RTE_ETH_RETA_GROUP_SIZE :: nat where "RTE_ETH_RETA_GROUP_SIZE = 64"

record rte_eth_rss_reta_entry64 =
  reta_mask :: u64
  reta_entries :: "u16 list"

text \<open>The inner loop fills one group and hands on the running counter \<open>hash\<close>.\<close>

primrec reta_group :: "u16 \<Rightarrow> nat \<Rightarrow> u32 \<Rightarrow> u16 list \<times> u32" where
  "reta_group nb_queues 0 hash = ([], hash)"
| "reta_group nb_queues (Suc n) hash =
    (let (rest, hash') = reta_group nb_queues n (hash + 1)
     in (ucast (hash mod ucast nb_queues) # rest, hash'))"

primrec reta_groups :: "u16 \<Rightarrow> nat \<Rightarrow> u32 \<Rightarrow> rte_eth_rss_reta_entry64 list" where
  "reta_groups nb_queues 0 hash = []"
| "reta_groups nb_queues (Suc n) hash =
    (let (group, hash') = reta_group nb_queues RTE_ETH_RETA_GROUP_SIZE hash
     in \<lparr>reta_mask = -1, reta_entries = group\<rparr> # reta_groups nb_queues n hash')"

text \<open>The table handed to \<open>rte_eth_dev_rss_reta_update\<close>; None when there is none to write.\<close>

definition set_rss_table :: "u16 \<Rightarrow> u16 \<Rightarrow> rte_eth_rss_reta_entry64 list option" where
  "set_rss_table reta_size nb_queues =
    (if reta_size = 0 then None
     else Some (reta_groups nb_queues (max 1 (unat reta_size div RTE_ETH_RETA_GROUP_SIZE)) 0))"

section \<open>Predicting the queue\<close>

definition ff_rss_self_queue_info :: "('c, 'h) rss_state \<Rightarrow> (u16 \<times> u16 \<times> u16 \<times> u16) option" where
  "ff_rss_self_queue_info st =
    (if nb_tx_port st = 0 then None
     else let port_id = tx_port_id st ! 0
          in Some (q_proc_id st, tx_queue_id st port_id, nb_queue_list st port_id, rss_reta_size st port_id))"

definition on_local_queue :: "('c, 'h) rss_state \<Rightarrow> u16 \<Rightarrow> u8 list \<Rightarrow> bool" where
  "on_local_queue st port_id data =
    (let nb_queues = nb_queue_list st port_id
     in if nb_queues \<le> 1 then True
        else let hash = toeplitz_hash (rsskey_len st) (rsskey st) (length data) data
             in (hash AND (ucast (rss_reta_size st port_id) - 1)) mod ucast nb_queues
                = ucast (tx_queue_id st port_id))"

definition ff_rss_check :: "('c, 'h) rss_state \<Rightarrow> u16 \<Rightarrow> u32 \<Rightarrow> u32 \<Rightarrow> u16 \<Rightarrow> u16 \<Rightarrow> bool" where
  "ff_rss_check st port_id saddr daddr sport dport =
     on_local_queue st port_id (u32_bytes saddr @ u32_bytes daddr @ u16_bytes sport @ u16_bytes dport)"

definition ff_rss_check6 :: "('c, 'h) rss_state \<Rightarrow> u16 \<Rightarrow> u8 list \<Rightarrow> u8 list \<Rightarrow> u16 \<Rightarrow> u16 \<Rightarrow> bool" where
  "ff_rss_check6 st port_id saddr6 daddr6 sport dport =
     on_local_queue st port_id (take 16 saddr6 @ take 16 daddr6 @ u16_bytes sport @ u16_bytes dport)"

function ff_rss_reta_log2_from :: "nat \<Rightarrow> u16 \<Rightarrow> nat" where
  "ff_rss_reta_log2_from log2 reta_size =
    (let reta_size = drop_bit 1 reta_size
     in if reta_size \<noteq> 0 then ff_rss_reta_log2_from (log2 + 1) reta_size else log2)"
  by pat_completeness auto
termination
proof (relation "measure (\<lambda>(_, r). unat r)")
  fix log2 reta_size x :: nat and r r' :: u16
  assume "r' = drop_bit 1 r" "r' \<noteq> 0"
  then have "unat r' = unat r div 2" "r \<noteq> 0" by (auto simp: drop_bit_eq_div unat_div)
  then show "((log2 + 1, r'), (log2, r)) \<in> measure (\<lambda>(_, r). unat r)" by (simp add: unat_gt_0)
qed simp

declare ff_rss_reta_log2_from.simps [simp del]

definition ff_rss_reta_log2 :: "u16 \<Rightarrow> nat" where
  "ff_rss_reta_log2 reta_size = ff_rss_reta_log2_from 0 reta_size"

section \<open>Building the key\<close>

text \<open>DPDK's thash interface, as the program uses it. A context is made from a key, a helper is added
  to it (which rewrites its key), and the rewritten key is read back. Contexts are shared between
  processes by name; \<open>key_malloc\<close> is whether \<open>rte_malloc\<close> succeeds.\<close>

record ('ctx, 'helper) thash_api =
  thash_init_ctx :: "string \<times> u16 \<Rightarrow> nat \<Rightarrow> nat \<Rightarrow> u8 list \<Rightarrow> 'ctx option"
  thash_add_helper :: "'ctx \<Rightarrow> nat \<Rightarrow> nat \<Rightarrow> 'ctx option"
  thash_find_existing :: "string \<times> u16 \<Rightarrow> 'ctx option"
  thash_get_helper :: "'ctx \<Rightarrow> 'helper option"
  thash_get_key :: "'ctx \<Rightarrow> u8 list option"
  key_malloc :: bool

definition FF_RSS_THASH_V4_TUPLE_LEN :: nat where "FF_RSS_THASH_V4_TUPLE_LEN = 12"
definition FF_RSS_THASH_V4_SPORT_OFF :: nat where "FF_RSS_THASH_V4_SPORT_OFF = 80"
definition FF_RSS_THASH_SPORT_HELPER_LEN :: nat where "FF_RSS_THASH_SPORT_HELPER_LEN = 16"
definition FF_RSS_THASH_ADJUST_ATTEMPTS :: nat where "FF_RSS_THASH_ADJUST_ATTEMPTS = 16"
definition FF_RSS_THASH_V6_TUPLE_LEN :: nat where "FF_RSS_THASH_V6_TUPLE_LEN = 36"
definition FF_RSS_THASH_V6_SPORT_OFF :: nat where "FF_RSS_THASH_V6_SPORT_OFF = 272"

text \<open>Making (in the primary) or finding (in a secondary) the context of one address family. None is
  any of the failures, after which the C code frees what it made and gives this family up.\<close>

definition thash_ctx_of :: "('c, 'h) thash_api \<Rightarrow> bool \<Rightarrow> string \<times> u16 \<Rightarrow> nat \<Rightarrow> nat \<Rightarrow> u8 list \<Rightarrow> nat
    \<Rightarrow> 'c option" where
  "thash_ctx_of api is_primary name keylen reta_log2 seed off =
    (if is_primary
     then (case thash_init_ctx api name keylen reta_log2 seed of
             None \<Rightarrow> None
           | Some ctx \<Rightarrow> thash_add_helper api ctx FF_RSS_THASH_SPORT_HELPER_LEN off)
     else thash_find_existing api name)"

text \<open>The IPv6 part: the new state and the key to publish instead of the IPv4 one, if there is one.\<close>

definition build_key_v6 :: "('c, 'h) thash_api \<Rightarrow> bool \<Rightarrow> u16 \<Rightarrow> nat \<Rightarrow> u8 list \<Rightarrow> ('c, 'h) rss_state
    \<Rightarrow> ('c, 'h) rss_state \<times> u8 list option" where
  "build_key_v6 api is_primary port_id reta_log2 key_v4 st =
    (case thash_ctx_of api is_primary (''ff_rss_thash6_'', port_id) (rsskey_len st) reta_log2 key_v4
            FF_RSS_THASH_V6_SPORT_OFF of
       None \<Rightarrow> (st, None)
     | Some ctx_v6 \<Rightarrow>
         let st = st\<lparr>rss_thash6_sport_h := (rss_thash6_sport_h st)(port_id := thash_get_helper api ctx_v6)\<rparr>
         in if rss_thash6_sport_h st port_id = None then (st, None)
            else case thash_get_key api ctx_v6 of
                   None \<Rightarrow> (st, None)
                 | Some key_final \<Rightarrow>
                     (st\<lparr>rss_thash6_ctx := (rss_thash6_ctx st)(port_id := Some ctx_v6),
                         rss_thash6_ready := (rss_thash6_ready st)(port_id := True)\<rparr>, Some key_final))"

definition publish_key :: "('c, 'h) thash_api \<Rightarrow> u16 \<Rightarrow> u8 list \<Rightarrow> ('c, 'h) rss_state \<Rightarrow> ('c, 'h) rss_state" where
  "publish_key api port_id pub_key st =
    (if \<not> key_malloc api
     then st\<lparr>rss_thash_ready := (rss_thash_ready st)(port_id := False),
             rss_thash6_ready := (rss_thash6_ready st)(port_id := False)\<rparr>
     else st\<lparr>rsskey := take (rsskey_len st) pub_key, ff_rss_key_built := True\<rparr>)"

definition ff_rss_thash_build_key :: "('c, 'h) thash_api \<Rightarrow> bool \<Rightarrow> u16 \<Rightarrow> u16 \<Rightarrow> ('c, 'h) rss_state
    \<Rightarrow> ('c, 'h) rss_state" where
  "ff_rss_thash_build_key api is_primary port_id reta_size st0 =
    (let thash_adjust = (case rss_cfg st0 of Some rcc \<Rightarrow> rc_thash_adjust rcc \<noteq> 0 | None \<Rightarrow> True);
         st = st0\<lparr>rss_thash_ready := (rss_thash_ready st0)(port_id := False),
                  rss_thash6_ready := (rss_thash6_ready st0)(port_id := False),
                  rss_reta_size := (rss_reta_size st0)(port_id := reta_size)\<rparr>
     in if \<not> thash_adjust \<or> rsskey_len st = 0 then st
        else if reta_size < 2 \<or> ff_rss_key_built st then st
        else if rsskey_len st > 64 then st
        else
          let reta_log2 = ff_rss_reta_log2 reta_size
          in case thash_ctx_of api is_primary (''ff_rss_thash_'', port_id) (rsskey_len st) reta_log2
                    (rsskey st) FF_RSS_THASH_V4_SPORT_OFF of
               None \<Rightarrow> st
             | Some ctx_v4 \<Rightarrow>
                 let st = st\<lparr>rss_thash_sport_h := (rss_thash_sport_h st)(port_id := thash_get_helper api ctx_v4)\<rparr>
                 in if rss_thash_sport_h st port_id = None then st
                    else case thash_get_key api ctx_v4 of
                           None \<Rightarrow> st
                         | Some key_v4 \<Rightarrow>
                             let key_v4_buf = take (rsskey_len st) key_v4;
                                 st = st\<lparr>rss_thash_ctx := (rss_thash_ctx st)(port_id := Some ctx_v4),
                                         rss_thash_ready := (rss_thash_ready st)(port_id := True)\<rparr>;
                                 (st, key_final) = build_key_v6 api is_primary port_id reta_log2 key_v4_buf st
                             in publish_key api port_id
                                  (case key_final of Some key \<Rightarrow> key | None \<Rightarrow> key_v4_buf) st)"

section \<open>Searching a source port\<close>

text \<open>The search of one address family. \<open>mk\<close> builds the tuple around a local port in network order,
  \<open>off\<close> is where that port stands in it, \<open>adj\<close> is \<open>rte_thash_adjust_tuple\<close> on the family's context
  and helper (None when it does not return 0), \<open>ok\<close> the final check of a port in network order.
  \<open>adjust_loop\<close> is the loop over \<open>tries\<close>, with its remaining iterations as its first argument.\<close>

primrec adjust_loop :: "nat \<Rightarrow> (u16 \<Rightarrow> u8 list) \<Rightarrow> nat \<Rightarrow> (u8 list \<Rightarrow> u32 \<Rightarrow> u8 list option) \<Rightarrow> (u16 \<Rightarrow> bool)
    \<Rightarrow> u16 \<Rightarrow> u16 \<Rightarrow> u16 \<Rightarrow> u16 \<Rightarrow> u16 \<Rightarrow> u16 \<Rightarrow> u32 \<Rightarrow> u16 option" where
  "adjust_loop 0 mk off adj ok pfirst plast base reta_size nb_queues queueid desired = None"
| "adjust_loop (Suc n) mk off adj ok pfirst plast base reta_size nb_queues queueid desired =
    (let desired = (if desired \<ge> ucast reta_size then ucast queueid else desired);
         next = adjust_loop n mk off adj ok pfirst plast base reta_size nb_queues queueid (desired + ucast nb_queues)
     in case adj (mk (htons base)) (desired AND (ucast reta_size - 1)) of
          None \<Rightarrow> next
        | Some tuple \<Rightarrow>
            let sport = bytes_u16 (tuple ! off) (tuple ! (off + 1));
                host_lport = htons sport
            in if host_lport < pfirst \<or> host_lport > plast then next
               else if ok sport then Some host_lport
               else next)"

definition adjust_base :: "u16 \<Rightarrow> u16 \<Rightarrow> u16" where
  "adjust_base pfirst reta_size =
     ucast ((ucast pfirst + ucast reta_size - 1 :: u32) AND NOT (ucast reta_size - 1))"

definition adjust_tries :: "u16 \<Rightarrow> u16 \<Rightarrow> nat" where
  "adjust_tries reta_size nb_queues = (unat reta_size + unat nb_queues - 1) div unat nb_queues"

definition adjust_search :: "(u16 \<Rightarrow> u8 list) \<Rightarrow> nat \<Rightarrow> (u8 list \<Rightarrow> u32 \<Rightarrow> u8 list option) \<Rightarrow> (u16 \<Rightarrow> bool)
    \<Rightarrow> u32 \<Rightarrow> u32 \<Rightarrow> u16 \<Rightarrow> u16 \<Rightarrow> u16 \<Rightarrow> u16 \<Rightarrow> u16 \<Rightarrow> u16 option" where
  "adjust_search mk off adj ok rnd1 rnd2 pfirst plast reta_size nb_queues queueid =
    (if pfirst > plast then None
     else
       let base = adjust_base pfirst reta_size
       in if base < pfirst \<or> (ucast base + ucast reta_size - 1 :: u32) > ucast plast then None
          else
            let nblocks = of_int ((uint plast - uint base + 1) div uint reta_size) :: u16
            in if nblocks = 0 then None
               else
                 let block = ucast (rnd1 mod ucast nblocks) :: u16;
                     base = base + block * reta_size;
                     tries = adjust_tries reta_size nb_queues;
                     desired = ucast queueid + (rnd2 mod of_nat tries) * ucast nb_queues;
                     desired = (if desired \<ge> ucast reta_size then ucast queueid else desired)
                 in adjust_loop tries mk off adj ok pfirst plast base reta_size nb_queues queueid desired)"

definition recheck_on :: "('c, 'h) rss_state \<Rightarrow> bool" where
  "recheck_on st = (case rss_cfg st of Some rcc \<Rightarrow> rc_recheck rcc \<noteq> 0 | None \<Rightarrow> False)"

definition adjust_off :: "('c, 'h) rss_state \<Rightarrow> bool" where
  "adjust_off st = (case rss_cfg st of Some rcc \<Rightarrow> rc_thash_adjust rcc = 0 | None \<Rightarrow> False)"

definition ff_rss_adjust_sport :: "('c \<Rightarrow> 'h \<Rightarrow> u8 list \<Rightarrow> u32 \<Rightarrow> nat \<Rightarrow> u8 list option) \<Rightarrow> u32 \<Rightarrow> u32
    \<Rightarrow> ('c, 'h) rss_state \<Rightarrow> u16 \<Rightarrow> u32 \<Rightarrow> u32 \<Rightarrow> u16 \<Rightarrow> u16 \<Rightarrow> u16 \<Rightarrow> u16 option" where
  "ff_rss_adjust_sport adjust_tuple rnd1 rnd2 st port_id saddr daddr dport pfirst plast =
    (case (rss_thash_ready st port_id, rss_thash_ctx st port_id, rss_thash_sport_h st port_id) of
       (True, Some ctx, Some h) \<Rightarrow>
         if adjust_off st then None
         else if nb_queue_list st port_id \<le> 1 then None
         else adjust_search
                (\<lambda>sport. u32_bytes saddr @ u32_bytes daddr @ u16_bytes dport @ u16_bytes sport) 10
                (\<lambda>tuple desired. adjust_tuple ctx h tuple desired FF_RSS_THASH_ADJUST_ATTEMPTS)
                (\<lambda>sport. \<not> recheck_on st \<or> ff_rss_check st port_id saddr daddr dport sport)
                rnd1 rnd2 pfirst plast (rss_reta_size st port_id) (nb_queue_list st port_id) (tx_queue_id st port_id)
     | _ \<Rightarrow> None)"

definition ff_rss_adjust_sport6 :: "('c \<Rightarrow> 'h \<Rightarrow> u8 list \<Rightarrow> u32 \<Rightarrow> nat \<Rightarrow> u8 list option) \<Rightarrow> u32 \<Rightarrow> u32
    \<Rightarrow> ('c, 'h) rss_state \<Rightarrow> u16 \<Rightarrow> u8 list \<Rightarrow> u8 list \<Rightarrow> u16 \<Rightarrow> u16 \<Rightarrow> u16 \<Rightarrow> u16 option" where
  "ff_rss_adjust_sport6 adjust_tuple rnd1 rnd2 st port_id saddr6 daddr6 dport pfirst plast =
    (case (rss_thash6_ready st port_id, rss_thash6_ctx st port_id, rss_thash6_sport_h st port_id) of
       (True, Some ctx, Some h) \<Rightarrow>
         if adjust_off st then None
         else if nb_queue_list st port_id \<le> 1 then None
         else adjust_search
                (\<lambda>sport. take 16 saddr6 @ take 16 daddr6 @ u16_bytes dport @ u16_bytes sport) 34
                (\<lambda>tuple desired. adjust_tuple ctx h tuple desired FF_RSS_THASH_ADJUST_ATTEMPTS)
                (\<lambda>sport. \<not> recheck_on st \<or> ff_rss_check6 st port_id saddr6 daddr6 dport sport)
                rnd1 rnd2 pfirst plast (rss_reta_size st port_id) (nb_queue_list st port_id) (tx_queue_id st port_id)
     | _ \<Rightarrow> None)"

section \<open>The indirection table and the prediction\<close>

definition reta_lookup :: "rte_eth_rss_reta_entry64 list \<Rightarrow> nat \<Rightarrow> u16" where
  "reta_lookup conf i = reta_entries (conf ! (i div RTE_ETH_RETA_GROUP_SIZE)) ! (i mod RTE_ETH_RETA_GROUP_SIZE)"

lemma reta_group_eq:
  "reta_group nb n h = (map (\<lambda>j. ucast ((h + of_nat j) mod ucast nb)) [0..<n], h + of_nat n)"
proof (induction n arbitrary: h)
  case (Suc n)
  show ?case
    unfolding reta_group.simps Suc.IH Let_def prod.case
    by (subst (2) upt_conv_Cons) (simp_all add: map_Suc_upt [symmetric] add.assoc del: upt_Suc)
qed simp

lemma reta_groups_lookup:
  "i < 64 * n \<Longrightarrow> reta_lookup (reta_groups nb n h) i = ucast ((h + of_nat i) mod ucast nb)"
proof (induction n arbitrary: h i)
  case (Suc n)
  show ?case
  proof (cases "i < 64")
    case True
    then show ?thesis by (simp add: reta_lookup_def RTE_ETH_RETA_GROUP_SIZE_def reta_group_eq)
  next
    case False
    then obtain j where j: "i = j + 64" using le_Suc_ex[of 64 i] by (auto simp: add.commute)
    then have "i div 64 = Suc (j div 64)" "i mod 64 = j mod 64" by simp_all
    then have "reta_lookup (reta_groups nb (Suc n) h) i = reta_lookup (reta_groups nb n (h + 64)) j"
      by (simp add: reta_lookup_def RTE_ETH_RETA_GROUP_SIZE_def reta_group_eq)
    also have "\<dots> = ucast ((h + 64 + of_nat j) mod ucast nb)" using Suc.IH Suc.prems j by simp
    finally show ?thesis using j by (simp only: of_nat_add of_nat_numeral ac_simps)
  qed
qed simp

lemma set_rss_table_lookup:
  assumes "set_rss_table reta_size nb = Some conf" "i < unat reta_size" "64 dvd unat reta_size \<or> unat reta_size \<le> 64"
  shows "reta_lookup conf i = ucast ((of_nat i :: u32) mod ucast nb)"
proof -
  have "i < 64 * max 1 (unat reta_size div 64)" using assms(2,3) by (auto simp: max_def not_le)
  then show ?thesis
    using assms(1) by (auto simp: set_rss_table_def RTE_ETH_RETA_GROUP_SIZE_def reta_groups_lookup split: if_splits)
qed

lemma pow2_group:
  assumes "unat (r :: u16) = 2 ^ k"
  shows "64 dvd unat r \<or> unat r \<le> 64"
proof (cases "k \<le> 6")
  case True
  then have "(2::nat) ^ k \<le> 2 ^ 6" by (intro power_increasing) auto
  then show ?thesis using assms by simp
next
  case False
  then have "(2::nat) ^ 6 dvd 2 ^ k" by (intro le_imp_power_dvd) auto
  then show ?thesis using assms by simp
qed

lemma and_mask_less:
  assumes "unat (r :: u16) = 2 ^ k"
  shows "unat ((h :: u32) AND (ucast r - 1)) = unat h mod unat r" "unat (h AND (ucast r - 1)) < unat r"
proof -
  have r2: "unat (ucast r :: u32) = unat r" by (simp add: unat_ucast_widen)
  have "(ucast r :: u32) \<noteq> 0"
  proof
    assume "(ucast r :: u32) = 0"
    then have "unat r = 0" unfolding r2 [symmetric] by simp
    then show False using assms by simp
  qed
  note r = this r2
  then have "unat (h AND (ucast r - 1)) = unat h AND (2 ^ k - 1)"
    using assms by (simp add: unsigned_and_eq)
  also have "\<dots> = unat h mod 2 ^ k" by (simp add: take_bit_eq_mod [symmetric] take_bit_eq_mask mask_eq_exp_minus_1)
  finally show "unat (h AND (ucast r - 1)) = unat h mod unat r" using assms by simp
  then show "unat (h AND (ucast r - 1)) < unat r" using assms by simp
qed

lemma unat_ucast_mod:
  fixes h :: u32 and nb :: u16
  assumes "nb \<noteq> 0"
  shows "unat (ucast (h mod ucast nb) :: u16) = unat h mod unat nb"
proof -
  have nb: "unat (ucast nb :: u32) = unat nb" by (simp add: unat_ucast_widen)
  have "unat h mod unat nb < unat nb" using assms by (simp add: unat_gt_0)
  then have "unat (h mod ucast nb) < 2 ^ 16"
    using nb unsigned_less[of nb, where ?'a = nat] by (simp add: unat_mod)
  then show ?thesis using nb by (simp add: unsigned_ucast_eq take_bit_nat_eq_self unat_mod)
qed

lemma ucast_mod_eq_iff:
  fixes h :: u32 and nb q :: u16
  assumes "nb \<noteq> 0"
  shows "(ucast (h mod ucast nb) :: u16) = q \<longleftrightarrow> h mod ucast nb = ucast q"
  using unat_ucast_mod[OF assms, of h] by (simp add: word_unat_eq_iff unat_mod unat_ucast_widen)

section \<open>The logarithm\<close>

lemma reta_log2_from:
  "r \<noteq> 0 \<Longrightarrow> \<exists>k. ff_rss_reta_log2_from n r = n + k \<and> 2 ^ k \<le> unat r \<and> unat r < 2 * 2 ^ k"
proof (induction n r rule: ff_rss_reta_log2_from.induct)
  case (1 n r)
  let ?r = "drop_bit 1 r"
  have half: "unat ?r = unat r div 2" by (simp add: drop_bit_eq_div unat_div)
  show ?case
  proof (cases "?r = 0")
    case True
    then have "unat r div 2 = 0" using half by simp
    moreover have "unat r \<noteq> 0" using 1(2) by (simp add: unat_eq_zero)
    ultimately have "unat r = 1" by simp
    then show ?thesis using True by (subst ff_rss_reta_log2_from.simps) (simp add: Let_def)
  next
    case False
    obtain k where "ff_rss_reta_log2_from (n + 1) ?r = n + 1 + k" "2 ^ k \<le> unat ?r" "unat ?r < 2 * 2 ^ k"
      using 1(1)[OF refl False] False by auto
    then show ?thesis using False half
      by (subst ff_rss_reta_log2_from.simps) (auto simp: Let_def intro!: exI[of _ "Suc k"])
  qed
qed

section \<open>The port search\<close>

text \<open>The values \<open>desired\<close> runs through: the entries of the table that belong to the local queue.\<close>

definition queue_entry :: "u16 \<Rightarrow> u16 \<Rightarrow> u16 \<Rightarrow> nat \<Rightarrow> bool" where
  "queue_entry reta_size nb_queues queueid v \<longleftrightarrow>
     v < unat reta_size \<and> v mod unat nb_queues = unat queueid"

definition desired_inv :: "u16 \<Rightarrow> u16 \<Rightarrow> u16 \<Rightarrow> u32 \<Rightarrow> bool" where
  "desired_inv reta_size nb_queues queueid d \<longleftrightarrow>
     unat d < unat reta_size + unat nb_queues \<and> unat d mod unat nb_queues = unat queueid"

definition wrap_desired :: "u16 \<Rightarrow> u16 \<Rightarrow> u32 \<Rightarrow> u32" where
  "wrap_desired reta_size queueid d = (if d \<ge> ucast reta_size then ucast queueid else d)"

lemma u16_small: "unat (w :: u16) < 65536"
  using unsigned_less[of w, where ?'a = nat] by simp

lemma unat_u16_u32 [simp]: "unat (ucast (w :: u16) :: u32) = unat w"
  by (simp add: unat_ucast_widen)

lemma unat_wrap_desired:
  "unat (wrap_desired reta q d) = (if unat reta \<le> unat d then unat q else unat d)"
  by (simp add: wrap_desired_def word_le_nat_alt)

lemma wrap_desired_entry:
  assumes "desired_inv reta nb q d" "unat q < unat nb" "unat nb \<le> unat reta"
  shows "queue_entry reta nb q (unat (wrap_desired reta q d))"
  using assms by (auto simp: wrap_desired_def queue_entry_def desired_inv_def word_le_nat_alt)

lemma next_desired_inv:
  assumes "queue_entry reta nb q (unat d)"
  shows "desired_inv reta nb q (d + ucast nb)" "unat (d + ucast nb) = unat d + unat nb"
proof -
  have "unat d + unat nb < 2 ^ 32" using assms u16_small[of reta] u16_small[of nb] by (simp add: queue_entry_def)
  then show *: "unat (d + ucast nb) = unat d + unat nb" by (simp add: unat_word_ariths)
  show "desired_inv reta nb q (d + ucast nb)"
    using assms unfolding desired_inv_def queue_entry_def * by simp
qed

text \<open>What one iteration tries: the tuple adjusted to table entry \<open>v\<close>, if its port is acceptable.\<close>

definition attempt :: "(u16 \<Rightarrow> u8 list) \<Rightarrow> nat \<Rightarrow> (u8 list \<Rightarrow> u32 \<Rightarrow> u8 list option) \<Rightarrow> (u16 \<Rightarrow> bool)
    \<Rightarrow> u16 \<Rightarrow> u16 \<Rightarrow> u16 \<Rightarrow> u32 \<Rightarrow> u16 option" where
  "attempt mk off adj ok pfirst plast base v =
    (case adj (mk (htons base)) v of
       None \<Rightarrow> None
     | Some tuple \<Rightarrow>
         let sport = bytes_u16 (tuple ! off) (tuple ! (off + 1))
         in if htons sport < pfirst \<or> htons sport > plast \<or> \<not> ok sport then None else Some (htons sport))"

lemma adjust_loop_Suc:
  "adjust_loop (Suc n) mk off adj ok f l base reta nb q d =
    (case attempt mk off adj ok f l base (wrap_desired reta q d AND (ucast reta - 1)) of
       Some p \<Rightarrow> Some p
     | None \<Rightarrow> adjust_loop n mk off adj ok f l base reta nb q (wrap_desired reta q d + ucast nb))"
  by (auto simp: attempt_def wrap_desired_def Let_def split: option.splits)

lemma attempt_SomeD:
  assumes "attempt mk off adj ok f l base v = Some p"
  shows "f \<le> p" "p \<le> l" "ok (htons p)"
    "\<exists>tuple. adj (mk (htons base)) v = Some tuple \<and> htons p = bytes_u16 (tuple ! off) (tuple ! (off + 1))"
  using assms by (auto simp: attempt_def Let_def not_less split: option.splits if_splits)

lemma adjust_loop_Some:
  assumes "adjust_loop n mk off adj ok f l base reta nb q d = Some p"
    "desired_inv reta nb q d" "unat q < unat nb" "unat nb \<le> unat reta"
  shows "\<exists>v. queue_entry reta nb q (unat v) \<and>
    attempt mk off adj ok f l base (v AND (ucast reta - 1)) = Some p"
  using assms
proof (induction n arbitrary: d)
  case (Suc n)
  let ?v = "wrap_desired reta q d"
  have v: "queue_entry reta nb q (unat ?v)" by (rule wrap_desired_entry[OF Suc.prems(2-4)])
  show ?case
  proof (cases "attempt mk off adj ok f l base (?v AND (ucast reta - 1))")
    case None
    then have "adjust_loop n mk off adj ok f l base reta nb q (?v + ucast nb) = Some p"
      using Suc.prems(1) unfolding adjust_loop_Suc by simp
    then show ?thesis using Suc.IH[OF _ next_desired_inv(1)[OF v] Suc.prems(3,4)] by blast
  next
    case (Some p')
    then show ?thesis using Suc.prems(1) v unfolding adjust_loop_Suc by auto
  qed
qed simp

lemma adjust_loop_range:
  "adjust_loop n mk off adj ok f l base reta nb q d = Some p \<Longrightarrow> f \<le> p \<and> p \<le> l \<and> ok (htons p)"
proof (induction n arbitrary: d)
  case (Suc n)
  then show ?case unfolding adjust_loop_Suc by (auto split: option.splits dest: attempt_SomeD)
qed simp

text \<open>The loop visits the queue's table entries in a cycle, so enough iterations visit them all.\<close>

lemma ceil_div_iff:
  fixes a b j :: nat
  assumes "0 < b"
  shows "j < (a + b - 1) div b \<longleftrightarrow> j * b < a"
proof -
  have "j < (a + b - 1) div b \<longleftrightarrow> Suc j * b \<le> a + b - 1"
    using less_eq_div_iff_mult_less_eq[OF assms, of "Suc j" "a + b - 1"] by (simp add: Suc_le_eq)
  also have "\<dots> \<longleftrightarrow> j * b < a" using assms by auto
  finally show ?thesis .
qed

lemma adjust_loop_cycle:
  assumes q: "unat q < unat nb" "unat nb \<le> unat reta"
    and m: "m = (unat reta - unat q + unat nb - 1) div unat nb"
  shows "unat (wrap_desired reta q d) = unat q + j * unat nb \<Longrightarrow> j < m \<Longrightarrow> i < n \<Longrightarrow>
    attempt mk off adj ok f l base (of_nat (unat q + (j + i) mod m * unat nb) AND (ucast reta - 1)) \<noteq> None \<Longrightarrow>
    adjust_loop n mk off adj ok f l base reta nb q d \<noteq> None"
proof (induction n arbitrary: d j i)
  case (Suc n)
  let ?v = "wrap_desired reta q d"
  have jm: "j' < m \<longleftrightarrow> unat q + j' * unat nb < unat reta" for j'
    using ceil_div_iff[of "unat nb" j' "unat reta - unat q"] q m by auto
  have v: "?v = of_nat (unat q + j * unat nb)" using Suc.prems(1) by (metis of_nat_unat ucast_id)
  have e: "queue_entry reta nb q (unat ?v)"
    using Suc.prems(1,2) jm[of j] q by (simp add: queue_entry_def)
  show ?case
  proof (cases "attempt mk off adj ok f l base (?v AND (ucast reta - 1))")
    case None
    with Suc.prems(2,4) v have "i \<noteq> 0" by (intro notI) simp
    then obtain k where k: "i = Suc k" by (cases i) auto
    let ?j = "Suc j mod m"
    have "unat (?v + ucast nb) = unat q + Suc j * unat nb"
      using next_desired_inv(2)[OF e] Suc.prems(1) by simp
    moreover have "?j = (if Suc j < m then Suc j else 0)"
      using Suc.prems(2) by (auto simp: not_less dest: le_antisym[of m "Suc j"])
    ultimately have "unat (wrap_desired reta q (?v + ucast nb)) = unat q + ?j * unat nb"
      using jm[of "Suc j"] unfolding unat_wrap_desired by auto
    moreover have "(?j + k) mod m = (j + i) mod m" using k by (simp add: mod_simps)
    ultimately show ?thesis
      using Suc.IH[of "?v + ucast nb" ?j k] Suc.prems k None unfolding adjust_loop_Suc by simp
  next
    case (Some p)
    then show ?thesis unfolding adjust_loop_Suc by simp
  qed
qed simp

lemma adjust_loop_complete:
  assumes q: "unat q < unat nb" "unat nb \<le> unat reta" and d: "desired_inv reta nb q d"
    and v: "queue_entry reta nb q v"
    and s: "attempt mk off adj ok f l base (of_nat v AND (ucast reta - 1)) \<noteq> None"
  shows "adjust_loop (adjust_tries reta nb) mk off adj ok f l base reta nb q d \<noteq> None"
proof -
  define m where "m = (unat reta - unat q + unat nb - 1) div unat nb"
  have jm: "j < m \<longleftrightarrow> unat q + j * unat nb < unat reta" for j
    using ceil_div_iff[of "unat nb" j "unat reta - unat q"] q m_def by auto
  have idx: "w = unat q + w div unat nb * unat nb \<and> w div unat nb < m" if "queue_entry reta nb q w" for w
    using that jm[of "w div unat nb"] div_mult_mod_eq[of w "unat nb"] by (simp add: queue_entry_def add.commute)
  let ?j = "unat (wrap_desired reta q d) div unat nb" and ?k = "v div unat nb"
  note j = idx[OF wrap_desired_entry[OF d q]] and k = idx[OF v]
  define i where "i = (?k + m - ?j) mod m"
  have "(?j + i) mod m = (?j + (?k + m - ?j)) mod m" unfolding i_def by (simp add: mod_simps)
  also have "\<dots> = ?k" using j k by simp
  finally have "unat q + (?j + i) mod m * unat nb = v" using k by simp
  moreover have "i < m" unfolding i_def using j by simp
  moreover have "m \<le> adjust_tries reta nb"
    unfolding m_def adjust_tries_def using q by (intro div_le_mono) simp
  ultimately show ?thesis
    using adjust_loop_cycle[OF q m_def, of d ?j i "adjust_tries reta nb"] s j by simp
qed

text \<open>The random starting entry belongs to the queue.\<close>

lemma start_desired:
  assumes q: "unat q < unat nb" "unat nb \<le> unat reta"
  shows "desired_inv reta nb q (ucast q + (r2 mod of_nat (adjust_tries reta nb)) * ucast nb)"
proof -
  let ?t = "adjust_tries reta nb" and ?x = "unat (r2 mod of_nat (adjust_tries reta nb) :: u32)"
  have "?t \<le> unat reta + unat nb - 1" unfolding adjust_tries_def by (rule div_le_dividend)
  moreover have "0 < ?t" using q by (simp add: adjust_tries_def div_greater_zero_iff)
  ultimately have t: "0 < ?t" "?t \<le> unat reta + unat nb" by simp_all
  then have "unat (of_nat ?t :: u32) = ?t"
    using u16_small[of reta] u16_small[of nb] by (simp add: unat_of_nat take_bit_nat_eq_self)
  then have "?x < ?t" using t by (simp add: unat_mod)
  then have "?x * unat nb < unat reta"
    using ceil_div_iff[of "unat nb" ?x "unat reta"] q by (simp add: adjust_tries_def)
  then have "unat q + ?x * unat nb < unat reta + unat nb" using q by simp
  moreover from this have "unat (ucast q + (r2 mod of_nat ?t) * ucast nb :: u32) = unat q + ?x * unat nb"
    using u16_small[of reta] u16_small[of nb]
    by (simp add: unat_add_lem [THEN iffD1] unat_mult_lem [THEN iffD1])
  ultimately show ?thesis using q by (simp add: desired_inv_def)
qed

text \<open>The window: the block chosen lies inside the port range.\<close>

lemma block_inside:
  fixes base l reta :: u16 and r1 :: u32
  assumes "1 < unat reta" "unat base + unat reta \<le> Suc (unat l)"
  defines "nblocks \<equiv> of_int ((uint l - uint base + 1) div uint reta) :: u16"
  defines "block \<equiv> ucast (r1 mod ucast nblocks) :: u16"
  shows "nblocks \<noteq> 0" "base \<le> base + block * reta" "unat (base + block * reta) + unat reta \<le> Suc (unat l)"
proof -
  define N where "N = (Suc (unat l) - unat base) div unat reta"
  have "uint l - uint base + 1 = int (Suc (unat l) - unat base)" "uint reta = int (unat reta)"
    using assms(1,2) by (simp_all add: of_nat_diff)
  then have "(uint l - uint base + 1) div uint reta = int N"
    by (simp only: N_def zdiv_int)
  moreover have N: "0 < N" "N \<le> 32768" "N * unat reta \<le> Suc (unat l) - unat base"
  proof -
    show "0 < N" using assms(1,2) by (simp add: N_def div_greater_zero_iff)
    show le: "N * unat reta \<le> Suc (unat l) - unat base" unfolding N_def by (rule div_times_less_eq_dividend)
    have "N * 2 \<le> N * unat reta" using assms(1) by (intro mult_le_mono2) simp
    then show "N \<le> 32768" using le u16_small[of l] by linarith
  qed
  ultimately have n: "nblocks = of_nat N" "unat nblocks = N"
    by (simp_all add: nblocks_def unat_of_nat take_bit_nat_eq_self)
  then show "nblocks \<noteq> 0" using N by auto
  have "unat (r1 mod ucast nblocks :: u32) < N" using N n by (simp add: unat_mod)
  then have "unat block < N" using N by (simp add: block_def unsigned_ucast_eq take_bit_nat_eq_self)
  then have "(unat block + 1) * unat reta \<le> N * unat reta" by (intro mult_le_mono1) simp
  then have b: "unat base + unat block * unat reta + unat reta \<le> Suc (unat l)" using N assms(2) by simp
  then have "unat (base + block * reta) = unat base + unat block * unat reta"
    using u16_small[of l] assms(1) by (simp add: unat_add_lem [THEN iffD1] unat_mult_lem [THEN iffD1])
  then show "base \<le> base + block * reta" "unat (base + block * reta) + unat reta \<le> Suc (unat l)"
    using b by (simp_all add: word_le_nat_alt)
qed

definition has_block :: "u16 \<Rightarrow> u16 \<Rightarrow> u16 \<Rightarrow> bool" where
  "has_block f l reta \<longleftrightarrow> f \<le> adjust_base f reta \<and> unat (adjust_base f reta) + unat reta \<le> Suc (unat l)"

lemma adjust_search_cases:
  assumes q: "unat q < unat nb" "unat nb \<le> unat reta" "1 < unat nb"
  obtains (none) "\<not> has_block f l reta" "adjust_search mk off adj ok r1 r2 f l reta nb q = None"
  | (loop) base d where "has_block f l reta"
      "adjust_search mk off adj ok r1 r2 f l reta nb q =
         adjust_loop (adjust_tries reta nb) mk off adj ok f l base reta nb q d"
      "f \<le> base" "unat base + unat reta \<le> Suc (unat l)" "desired_inv reta nb q d"
proof -
  let ?b = "adjust_base f reta"
  have "unat (ucast ?b + ucast reta - 1 :: u32) = unat ?b + unat reta - 1"
  proof -
    have s: "unat (ucast ?b + ucast reta :: u32) = unat ?b + unat reta"
      using u16_small[of ?b] u16_small[of reta] by (simp add: unat_add_lem [THEN iffD1])
    then have "(ucast ?b + ucast reta :: u32) \<noteq> 0" using q by (auto simp: unat_eq_zero [symmetric])
    then show ?thesis using s by simp
  qed
  then have guard: "(ucast ?b + ucast reta - 1 :: u32) > ucast l \<longleftrightarrow> \<not> unat ?b + unat reta \<le> Suc (unat l)"
    using q by (simp add: word_less_nat_alt) arith
  show ?thesis
  proof (cases "has_block f l reta")
    case False
    then have "?b < f \<or> (ucast ?b + ucast reta - 1 :: u32) > ucast l"
      using guard by (simp add: has_block_def not_le)
    then have "adjust_search mk off adj ok r1 r2 f l reta nb q = None"
      by (simp only: adjust_search_def Let_def if_True if_cancel)
    then show ?thesis using none False by blast
  next
    case True
    define nblocks where "nblocks = (of_int ((uint l - uint ?b + 1) div uint reta) :: u16)"
    define base where "base = ?b + ucast (r1 mod ucast nblocks) * reta"
    define d where "d = wrap_desired reta q (ucast q + (r2 mod of_nat (adjust_tries reta nb)) * ucast nb)"
    have bl: "unat ?b + unat reta \<le> Suc (unat l)" "f \<le> ?b" using True by (simp_all add: has_block_def)
    have "\<not> f > l" using bl q by (simp add: word_le_nat_alt word_less_nat_alt)
    moreover have reta: "1 < unat reta" using q by simp
    note blk = block_inside(1)[OF this bl(1), folded nblocks_def]
      block_inside(2,3)[OF this bl(1), of r1, folded nblocks_def, folded base_def]
    ultimately have "adjust_search mk off adj ok r1 r2 f l reta nb q =
        adjust_loop (adjust_tries reta nb) mk off adj ok f l base reta nb q d"
      "f \<le> base" "unat base + unat reta \<le> Suc (unat l)"
      using bl guard blk
      by (auto simp: adjust_search_def Let_def nblocks_def [symmetric] base_def d_def wrap_desired_def)
    moreover have "desired_inv reta nb q d"
      using wrap_desired_entry[OF start_desired[OF q(1,2), of r2] q(1,2), folded d_def]
      by (simp add: desired_inv_def queue_entry_def)
    ultimately show ?thesis using loop True by blast
  qed
qed

text \<open>\<open>adjust_base\<close> rounds up to a multiple of a power-of-two table size.\<close>

lemma adjust_base_eq:
  assumes "unat reta = 2 ^ k" "unat f + unat reta \<le> 65536"
  shows "unat (adjust_base f reta) = (unat f + unat reta - 1) div unat reta * unat reta"
proof -
  let ?x = "ucast f + ucast reta - 1 :: u32" and ?m = "ucast reta - 1 :: u32"
  have pos: "0 < unat reta" using assms(1) by simp
  have s: "unat (ucast f + ucast reta :: u32) = unat f + unat reta"
    using assms(2) by (simp add: unat_add_lem [THEN iffD1])
  then have "(ucast f + ucast reta :: u32) \<noteq> 0" using pos by (auto simp: unat_eq_zero [symmetric])
  then have x: "unat ?x = unat f + unat reta - 1" using s by simp
  have dj: "(?x AND ?m) AND (?x AND NOT ?m) = 0" by (rule bit_word_eqI) (simp add: bit_simps)
  have "(?x AND ?m) OR (?x AND NOT ?m) = ?x" by (rule bit_word_eqI) (auto simp: bit_simps)
  then have sum: "(?x AND ?m) + (?x AND NOT ?m) = ?x" using disjunctive_add_eq_or[OF dj] by simp
  then have "?x AND NOT ?m = ?x - (?x AND ?m)" by (simp add: algebra_simps)
  moreover have "?x AND ?m \<le> ?x" by (simp add: word_and_le2)
  ultimately have "unat (?x AND NOT ?m) = unat ?x - unat (?x AND ?m)" by (simp add: unat_sub)
  then have u: "unat (?x AND NOT ?m) = unat ?x - unat ?x mod unat reta"
    using and_mask_less(1)[OF assms(1), of ?x] by simp
  moreover have "unat ?x - unat ?x mod unat reta < 65536" using x assms(2) pos by simp
  ultimately have "unat (adjust_base f reta) = unat ?x - unat ?x mod unat reta"
    by (simp add: adjust_base_def unsigned_ucast_eq take_bit_nat_eq_self)
  then show ?thesis using x by (simp add: minus_mod_eq_div_mult)
qed

lemma has_blockI:
  assumes r: "unat reta = 2 ^ k" and m: "unat f \<le> m * unat reta" "m * unat reta + unat reta \<le> Suc (unat l)"
  shows "has_block f l reta"
proof -
  have pos: "0 < unat reta" using r by simp
  have fit: "unat f + unat reta \<le> 65536" using m u16_small[of l] by simp
  let ?b = "(unat f + unat reta - 1) div unat reta * unat reta"
  note b = adjust_base_eq[OF r fit]
  have "unat f \<le> ?b"
    using div_mult_mod_eq[of "unat f + unat reta - 1" "unat reta"] mod_less_divisor[OF pos, of "unat f + unat reta - 1"]
    by linarith
  moreover have "(unat f + unat reta - 1) div unat reta \<le> m"
  proof (rule ccontr)
    assume "\<not> ?thesis"
    then have "m * unat reta < unat f" using ceil_div_iff[OF pos, of m "unat f"] by simp
    then show False using m(1) by simp
  qed
  then have "?b \<le> m * unat reta" by (rule mult_le_mono1)
  ultimately show ?thesis using m(2) unfolding has_block_def word_le_nat_alt b by linarith
qed

section \<open>What the search finds\<close>

text \<open>The documented behaviour of \<open>rte_thash_adjust_tuple\<close> on a tuple of \<open>n\<close> bytes whose port field
  starts at \<open>off\<close>: a success leaves the bytes before the port alone and gives the tuple the wanted
  low hash bits.\<close>

definition thash_contract :: "nat \<Rightarrow> u8 list \<Rightarrow> nat \<Rightarrow> u16 \<Rightarrow> (u8 list \<Rightarrow> u32 \<Rightarrow> u8 list option) \<Rightarrow> bool" where
  "thash_contract keylen key off reta adj \<longleftrightarrow>
     (\<forall>pre port v t. length pre = off \<longrightarrow> adj (pre @ u16_bytes port) v = Some t \<longrightarrow>
        length t = off + 2 \<and> take off t = pre \<and>
        toeplitz_hash keylen key (off + 2) t AND (ucast reta - 1) = v)"

lemma two_more:
  "length t = off + 2 \<Longrightarrow> t = take off t @ [t ! off, t ! (off + 1)]"
  by (rule nth_equalityI) (auto simp: nth_append less_Suc_eq)

lemma and_mask_entry:
  fixes reta :: u16
  assumes "unat reta = 2 ^ k" "unat v < unat reta"
  shows "(v :: u32) AND (ucast reta - 1) = v"
  using and_mask_less(1)[OF assms(1), of v] assms(2) by (simp add: word_unat_eq_iff)

lemma entry_on_local_queue:
  assumes "toeplitz_hash (rsskey_len st) (rsskey st) (length data) data AND (ucast (rss_reta_size st port) - 1) = v"
    "queue_entry (rss_reta_size st port) (nb_queue_list st port) (tx_queue_id st port) (unat v)"
  shows "on_local_queue st port data"
proof -
  have "unat (v mod ucast (nb_queue_list st port)) = unat (ucast (tx_queue_id st port) :: u32)"
    using assms(2) by (simp add: unat_mod queue_entry_def)
  then have "v mod ucast (nb_queue_list st port) = ucast (tx_queue_id st port)"
    by (simp only: word_unat_eq_iff)
  then show ?thesis using assms(1) by (simp add: on_local_queue_def Let_def)
qed

lemma attempt_on_local_queue:
  assumes c: "thash_contract (rsskey_len st) (rsskey st) off (rss_reta_size st port) adj"
    and pre: "length pre = off" and r: "unat (rss_reta_size st port) = 2 ^ k"
    and v: "queue_entry (rss_reta_size st port) (nb_queue_list st port) (tx_queue_id st port) (unat v)"
    and a: "adj (pre @ u16_bytes (htons base)) (v AND (ucast (rss_reta_size st port) - 1)) = Some t"
    and p: "sport = bytes_u16 (t ! off) (t ! (off + 1))"
  shows "on_local_queue st port (pre @ u16_bytes sport)"
proof -
  have vv: "v AND (ucast (rss_reta_size st port) - 1) = v"
    using v by (intro and_mask_entry[OF r]) (simp add: queue_entry_def)
  have t: "length t = off + 2" "take off t = pre"
    "toeplitz_hash (rsskey_len st) (rsskey st) (off + 2) t AND (ucast (rss_reta_size st port) - 1) = v"
    using c pre a unfolding thash_contract_def vv by blast+
  then have "t = pre @ u16_bytes sport" using two_more[OF t(1)] p by simp
  then show ?thesis using entry_on_local_queue[OF _ v, of t] t by simp
qed

lemma adjust_search_local:
  assumes c: "thash_contract (rsskey_len st) (rsskey st) off (rss_reta_size st port) adj"
    and pre: "length pre = off" and r: "unat (rss_reta_size st port) = 2 ^ k"
    and q: "unat (tx_queue_id st port) < unat (nb_queue_list st port)"
      "unat (nb_queue_list st port) \<le> unat (rss_reta_size st port)" "1 < unat (nb_queue_list st port)"
    and s: "adjust_search (\<lambda>sport. pre @ u16_bytes sport) off adj ok r1 r2 f l (rss_reta_size st port)
      (nb_queue_list st port) (tx_queue_id st port) = Some p"
  shows "on_local_queue st port (pre @ u16_bytes (htons p))"
proof (cases rule: adjust_search_cases[OF q, of f l "\<lambda>sport. pre @ u16_bytes sport" off adj ok r1 r2])
  case (2 base d)
  obtain v where v: "queue_entry (rss_reta_size st port) (nb_queue_list st port) (tx_queue_id st port) (unat v)"
    and a: "attempt (\<lambda>sport. pre @ u16_bytes sport) off adj ok f l base
      (v AND (ucast (rss_reta_size st port) - 1)) = Some p"
    using adjust_loop_Some[OF s[unfolded 2(2)] 2(5) q(1,2)] by blast
  obtain t where "adj (pre @ u16_bytes (htons base)) (v AND (ucast (rss_reta_size st port) - 1)) = Some t"
    "htons p = bytes_u16 (t ! off) (t ! (off + 1))"
    using attempt_SomeD(4)[OF a] by blast
  then show ?thesis by (rule attempt_on_local_queue[OF c pre r v])
qed (use s in simp)

lemma adjust_search_range:
  "adjust_search mk off adj ok r1 r2 f l reta nb q = Some p \<Longrightarrow> f \<le> p \<and> p \<le> l \<and> ok (htons p)"
  unfolding adjust_search_def Let_def by (auto split: if_splits dest!: adjust_loop_range)

lemma adjust_search_complete:
  assumes c: "thash_contract (rsskey_len st) (rsskey st) off (rss_reta_size st port) adj"
    and pre: "length pre = off" and r: "unat (rss_reta_size st port) = 2 ^ k"
    and q: "unat (tx_queue_id st port) < unat (nb_queue_list st port)"
      "unat (nb_queue_list st port) \<le> unat (rss_reta_size st port)" "1 < unat (nb_queue_list st port)"
    and b: "has_block f l (rss_reta_size st port)"
    and v: "queue_entry (rss_reta_size st port) (nb_queue_list st port) (tx_queue_id st port) v"
    and solves: "\<And>base. f \<le> base \<Longrightarrow> unat base + unat (rss_reta_size st port) \<le> Suc (unat l) \<Longrightarrow>
      \<exists>t. adj (pre @ u16_bytes (htons base)) (of_nat v) = Some t \<and>
          base \<le> htons (bytes_u16 (t ! off) (t ! (off + 1))) \<and>
          unat (htons (bytes_u16 (t ! off) (t ! (off + 1)))) < unat base + unat (rss_reta_size st port)"
    and ok: "\<And>sport. on_local_queue st port (pre @ u16_bytes sport) \<Longrightarrow> ok sport"
  shows "adjust_search (\<lambda>sport. pre @ u16_bytes sport) off adj ok r1 r2 f l (rss_reta_size st port)
      (nb_queue_list st port) (tx_queue_id st port) \<noteq> None"
proof (cases rule: adjust_search_cases[OF q, of f l "\<lambda>sport. pre @ u16_bytes sport" off adj ok r1 r2])
  case (2 base d)
  let ?r = "rss_reta_size st port"
  have vs: "unat (of_nat v :: u32) = v"
    using v u16_small[of ?r] by (simp add: queue_entry_def unat_of_nat take_bit_nat_eq_self)
  then have vv: "(of_nat v :: u32) AND (ucast ?r - 1) = of_nat v"
    using v by (intro and_mask_entry[OF r]) (simp add: queue_entry_def)
  obtain t where t: "adj (pre @ u16_bytes (htons base)) (of_nat v) = Some t"
    "base \<le> htons (bytes_u16 (t ! off) (t ! (off + 1)))"
    "unat (htons (bytes_u16 (t ! off) (t ! (off + 1)))) < unat base + unat ?r"
    using solves[OF 2(3,4)] by blast
  let ?p = "bytes_u16 (t ! off) (t ! (off + 1))"
  have "on_local_queue st port (pre @ u16_bytes ?p)"
    using attempt_on_local_queue[OF c pre r, of "of_nat v" base t] v t(1) by (simp add: vs vv)
  moreover have "f \<le> htons ?p" "htons ?p \<le> l"
    using t(2,3) 2(3,4) by (auto simp: word_le_nat_alt)
  ultimately have "attempt (\<lambda>sport. pre @ u16_bytes sport) off adj ok f l base (of_nat v AND (ucast ?r - 1)) \<noteq> None"
    using t(1) ok by (simp add: attempt_def vv Let_def not_less [symmetric])
  then show ?thesis using adjust_loop_complete[OF q(1,2) 2(5) v] 2(2) by simp
qed (use b in blast)

lemma adjust_sport_Some:
  assumes "ff_rss_adjust_sport adj r1 r2 st port saddr daddr dport f l = Some p"
  obtains ctx h where "1 < unat (nb_queue_list st port)"
    "adjust_search (\<lambda>sport. (u32_bytes saddr @ u32_bytes daddr @ u16_bytes dport) @ u16_bytes sport) 10
      (\<lambda>t v. adj ctx h t v FF_RSS_THASH_ADJUST_ATTEMPTS)
      (\<lambda>sport. \<not> recheck_on st \<or> ff_rss_check st port saddr daddr dport sport)
      r1 r2 f l (rss_reta_size st port) (nb_queue_list st port) (tx_queue_id st port) = Some p"
  using assms unfolding ff_rss_adjust_sport_def
  by (cases "rss_thash_ready st port"; cases "rss_thash_ctx st port"; cases "rss_thash_sport_h st port")
    (simp_all add: word_le_nat_alt split: if_splits)

lemma adjust_sport6_Some:
  assumes "ff_rss_adjust_sport6 adj r1 r2 st port saddr6 daddr6 dport f l = Some p"
  obtains ctx h where "1 < unat (nb_queue_list st port)"
    "adjust_search (\<lambda>sport. (take 16 saddr6 @ take 16 daddr6 @ u16_bytes dport) @ u16_bytes sport) 34
      (\<lambda>t v. adj ctx h t v FF_RSS_THASH_ADJUST_ATTEMPTS)
      (\<lambda>sport. \<not> recheck_on st \<or> ff_rss_check6 st port saddr6 daddr6 dport sport)
      r1 r2 f l (rss_reta_size st port) (nb_queue_list st port) (tx_queue_id st port) = Some p"
  using assms unfolding ff_rss_adjust_sport6_def
  by (cases "rss_thash6_ready st port"; cases "rss_thash6_ctx st port"; cases "rss_thash6_sport_h st port")
    (simp_all add: word_le_nat_alt split: if_splits)

lemma build_key_v6_props:
  assumes "build_key_v6 api prim port lg key st = (st', kf)"
  shows "rsskey st' = rsskey st" "rsskey_len st' = rsskey_len st" "rss_thash_ready st' = rss_thash_ready st"
    "rss_thash_ctx st' = rss_thash_ctx st" "rss_thash_sport_h st' = rss_thash_sport_h st"
    "ff_rss_key_built st' = ff_rss_key_built st" "rss_reta_size st' = rss_reta_size st"
    "kf = None \<Longrightarrow> rss_thash6_ready st' = rss_thash6_ready st"
    "kf = Some k \<Longrightarrow> rss_thash6_ready st' port \<and> rss_thash6_sport_h st' port \<noteq> None \<and>
       (\<exists>ctx. rss_thash6_ctx st' port = Some ctx \<and> thash_get_key api ctx = Some k)"
  using assms by (auto simp: build_key_v6_def Let_def split: option.splits if_splits)

lemma build_key_cases:
  assumes "st' = ff_rss_thash_build_key api prim port reta st"
  obtains (unready) "\<not> rss_thash_ready st' port" "\<not> rss_thash6_ready st' port" "rsskey st' = rsskey st"
      "rsskey_len st' = rsskey_len st" "rss_reta_size st' port = reta"
  | (ready) st1 st2 kf ctx key where "\<not> ff_rss_key_built st" "thash_get_key api ctx = Some key"
      "rss_thash_ctx st1 port = Some ctx" "rss_thash_sport_h st1 port \<noteq> None" "rss_thash_ready st1 port"
      "\<not> rss_thash6_ready st1 port" "rsskey_len st1 = rsskey_len st" "rsskey st1 = rsskey st"
      "rss_reta_size st1 port = reta"
      "build_key_v6 api prim port (ff_rss_reta_log2 reta) (take (rsskey_len st) key) st1 = (st2, kf)"
      "st' = publish_key api port (case kf of Some k \<Rightarrow> k | None \<Rightarrow> take (rsskey_len st) key) st2"
proof -
  let ?off = "\<not> (case rss_cfg st of Some rcc \<Rightarrow> rc_thash_adjust rcc \<noteq> 0 | None \<Rightarrow> True) \<or> rsskey_len st = 0"
  let ?c = "thash_ctx_of api prim (''ff_rss_thash_'', port) (rsskey_len st) (ff_rss_reta_log2 reta)
      (rsskey st) FF_RSS_THASH_V4_SPORT_OFF"
  note d = assms[unfolded ff_rss_thash_build_key_def Let_def]
  show ?thesis
  proof (cases "?off \<or> (reta < 2 \<or> ff_rss_key_built st) \<or> rsskey_len st > 64")
    case True
    then show ?thesis by (intro unready) (auto simp: d)
  next
    case False
    then have go: "\<not> ?off" "\<not> (reta < 2 \<or> ff_rss_key_built st)" "\<not> rsskey_len st > 64" by simp_all
    show ?thesis
    proof (cases ?c)
      case None
      then show ?thesis using go by (intro unready) (simp_all add: d)
    next
      case (Some ctx)
      show ?thesis
      proof (cases "thash_get_helper api ctx = None \<or> thash_get_key api ctx = None")
        case True
        then show ?thesis using go Some by (intro unready) (auto simp: d split: option.splits)
      next
        case False
        then obtain h key where hk: "thash_get_helper api ctx = Some h" "thash_get_key api ctx = Some key" by auto
        define st1 where "st1 = st\<lparr>rss_thash6_ready := (rss_thash6_ready st)(port := False),
          rss_reta_size := (rss_reta_size st)(port := reta),
          rss_thash_sport_h := (rss_thash_sport_h st)(port := Some h),
          rss_thash_ctx := (rss_thash_ctx st)(port := Some ctx),
          rss_thash_ready := (rss_thash_ready st)(port := True)\<rparr>"
        obtain st2 kf where bk: "build_key_v6 api prim port (ff_rss_reta_log2 reta) (take (rsskey_len st) key) st1 = (st2, kf)"
          by fastforce
        then show ?thesis
          by (rule ready[of ctx key st1, rotated 9])
            (use go Some hk bk[unfolded st1_def] in \<open>simp_all add: d st1_def cong: option.case_cong\<close>)
      qed
    qed
  qed
qed

section \<open>Properties\<close>

text \<open>The queue a NIC delivers a tuple to: it hashes with its key and reads the indirection table at
  the hash modulo the table size.\<close>

definition nic_queue :: "nat \<Rightarrow> u8 list \<Rightarrow> u16 \<Rightarrow> rte_eth_rss_reta_entry64 list \<Rightarrow> u8 list \<Rightarrow> u16" where
  "nic_queue keylen key reta_size conf data =
     reta_lookup conf (unat (toeplitz_ref keylen key data) mod unat reta_size)"

lemma on_local_queue_nic:
  assumes conf: "set_rss_table (rss_reta_size st port) (nb_queue_list st port) = Some conf"
    and r: "unat (rss_reta_size st port) = 2 ^ k" and nb: "1 < nb_queue_list st port"
    and len: "4 \<le> rsskey_len st"
  shows "on_local_queue st port data \<longleftrightarrow>
    nic_queue (rsskey_len st) (rsskey st) (rss_reta_size st port) conf data = tx_queue_id st port"
proof -
  let ?h = "toeplitz_ref (rsskey_len st) (rsskey st) data" and ?r = "rss_reta_size st port"
  let ?i = "?h AND (ucast ?r - 1)"
  have h: "toeplitz_hash (rsskey_len st) (rsskey st) (length data) data = ?h"
    using toeplitz_hash_from[OF len] hash_from_ref by simp
  have i: "unat ?i = unat ?h mod unat ?r" "unat ?i < unat ?r" using and_mask_less[OF r] by auto
  have "reta_lookup conf (unat ?i) = ucast (?i mod ucast (nb_queue_list st port))"
    using set_rss_table_lookup[OF conf i(2) pow2_group[OF r]] by simp
  then have "nic_queue (rsskey_len st) (rsskey st) ?r conf data = ucast (?i mod ucast (nb_queue_list st port))"
    by (simp only: nic_queue_def i(1))
  moreover have nb': "nb_queue_list st port \<noteq> 0" "\<not> nb_queue_list st port \<le> 1" using nb by auto
  moreover have "on_local_queue st port data \<longleftrightarrow>
      ?i mod ucast (nb_queue_list st port) = ucast (tx_queue_id st port)"
    using nb'(2) by (simp add: on_local_queue_def Let_def h)
  ultimately show ?thesis
    using ucast_mod_eq_iff[of "nb_queue_list st port" ?i "tx_queue_id st port"] by argo
qed

text \<open>C1. The software prediction agrees with the hardware: once \<open>set_rss_table\<close> has written the
  indirection table, \<open>ff_rss_check\<close> and \<open>ff_rss_check6\<close> answer yes exactly when the NIC delivers the
  tuple to the local queue.\<close>

theorem rss_check_predicts_nic:
  assumes "set_rss_table (rss_reta_size st port) (nb_queue_list st port) = Some conf"
    "unat (rss_reta_size st port) = 2 ^ k" "1 < nb_queue_list st port" "4 \<le> rsskey_len st"
  shows "(ff_rss_check st port saddr daddr sport dport \<longleftrightarrow>
      nic_queue (rsskey_len st) (rsskey st) (rss_reta_size st port) conf
        (u32_bytes saddr @ u32_bytes daddr @ u16_bytes sport @ u16_bytes dport) = tx_queue_id st port) \<and>
    (ff_rss_check6 st port saddr6 daddr6 sport dport \<longleftrightarrow>
      nic_queue (rsskey_len st) (rsskey st) (rss_reta_size st port) conf
        (take 16 saddr6 @ take 16 daddr6 @ u16_bytes sport @ u16_bytes dport) = tx_queue_id st port)"
  unfolding ff_rss_check_def ff_rss_check6_def using on_local_queue_nic[OF assms] by blast

text \<open>C24. Every tuple belongs to exactly one queue: among the queues of a port, exactly one process
  sees \<open>ff_rss_check\<close> succeed.\<close>

theorem rss_check_unique_queue:
  assumes "1 < nb_queue_list st port"
  shows "\<exists>!q. q < nb_queue_list st port \<and>
    ff_rss_check (st\<lparr>tx_queue_id := (tx_queue_id st)(port := q)\<rparr>) port saddr daddr sport dport"
proof -
  let ?nb = "nb_queue_list st port"
  let ?d = "u32_bytes saddr @ u32_bytes daddr @ u16_bytes sport @ u16_bytes dport"
  let ?x = "toeplitz_hash (rsskey_len st) (rsskey st) (length ?d) ?d AND (ucast (rss_reta_size st port) - 1)"
  let ?q = "ucast (?x mod ucast ?nb) :: u16"
  have nb: "?nb \<noteq> 0" "\<not> ?nb \<le> 1" using assms by auto
  have "ff_rss_check (st\<lparr>tx_queue_id := (tx_queue_id st)(port := q)\<rparr>) port saddr daddr sport dport \<longleftrightarrow> q = ?q" for q
    using ucast_mod_eq_iff[OF nb(1), of ?x q] nb(2)
    by (auto simp: ff_rss_check_def on_local_queue_def Let_def)
  moreover have "?q < ?nb"
    unfolding word_less_nat_alt unat_ucast_mod[OF nb(1)] using nb(1) by (simp add: unat_gt_0)
  ultimately show ?thesis by auto
qed

text \<open>\<open>ff_rss_reta_log2\<close> is the integer logarithm of the table size.\<close>

theorem rss_reta_log2_correct:
  assumes "reta_size \<noteq> 0"
  shows "2 ^ ff_rss_reta_log2 reta_size \<le> unat reta_size \<and> unat reta_size < 2 ^ Suc (ff_rss_reta_log2 reta_size)"
  using reta_log2_from[OF assms, of 0] by (auto simp: ff_rss_reta_log2_def)

text \<open>C23. A port the search returns lies in the requested range and, when rechecking is configured, its
  reply is predicted to reach the local queue; for IPv4 and IPv6, whatever DPDK's routine returned.\<close>

theorem rss_adjust_sport_safe:
  "(ff_rss_adjust_sport adj r1 r2 st port saddr daddr dport f l = Some p \<longrightarrow>
      f \<le> p \<and> p \<le> l \<and> (recheck_on st \<longrightarrow> ff_rss_check st port saddr daddr dport (htons p))) \<and>
   (ff_rss_adjust_sport6 adj r1 r2 st port saddr6 daddr6 dport f l = Some p \<longrightarrow>
      f \<le> p \<and> p \<le> l \<and> (recheck_on st \<longrightarrow> ff_rss_check6 st port saddr6 daddr6 dport (htons p)))"
  by (auto elim!: adjust_sport_Some adjust_sport6_Some dest!: adjust_search_range)



text \<open>C29. Building the key: a port becomes ready only with its context and helper in place and with the
  published key being the one its last context holds; the key is replaced only then, and once it has
  been published no other port replaces it.\<close>

theorem rss_build_key_published:
  assumes "st' = ff_rss_thash_build_key api prim port reta st"
  shows "(rss_thash_ready st' port \<longrightarrow>
      \<not> ff_rss_key_built st \<and> ff_rss_key_built st' \<and> rss_thash_sport_h st' port \<noteq> None \<and>
      (\<exists>ctx key. rss_thash_ctx st' port = Some ctx \<and> thash_get_key api ctx = Some key \<and>
        (\<not> rss_thash6_ready st' port \<longrightarrow> rsskey st' = take (rsskey_len st) key)) \<and>
      (rss_thash6_ready st' port \<longrightarrow> rss_thash6_sport_h st' port \<noteq> None \<and>
        (\<exists>ctx key. rss_thash6_ctx st' port = Some ctx \<and> thash_get_key api ctx = Some key \<and>
          rsskey st' = take (rsskey_len st) key))) \<and>
    (\<not> rss_thash_ready st' port \<longrightarrow> rsskey st' = rsskey st \<and> \<not> rss_thash6_ready st' port) \<and>
    rsskey_len st' = rsskey_len st \<and> rss_reta_size st' port = reta"
  using assms
proof (cases rule: build_key_cases)
  case (ready st1 st2 kf ctx key)
  note v6 = build_key_v6_props[OF ready(10)]
  show ?thesis
    using ready(1-9) v6 by (cases kf; cases "key_malloc api") (auto simp: ready(11) publish_key_def)
qed auto

section \<open>Witnesses\<close>

text \<open>Two queues, a table of two entries, and a tuple adjuster that tries both values of the lowest
  bit of the port.\<close>

definition demo_rss :: "(unit, unit) rss_state" where
  "demo_rss = \<lparr>rsskey = default_rsskey_40bytes, rsskey_len = 40, q_proc_id = 0, nb_tx_port = 1,
     tx_port_id = [0], nb_queue_list = (\<lambda>_. 2), tx_queue_id = (\<lambda>_. 1), rss_reta_size = (\<lambda>_. 2),
     rss_cfg = None, rss_thash_ctx = (\<lambda>_. Some ()), rss_thash_sport_h = (\<lambda>_. Some ()),
     rss_thash_ready = (\<lambda>_. True), rss_thash6_ctx = (\<lambda>_. None), rss_thash6_sport_h = (\<lambda>_. None),
     rss_thash6_ready = (\<lambda>_. False), ff_rss_key_built = True\<rparr>"

definition demo_adjust :: "unit \<Rightarrow> unit \<Rightarrow> u8 list \<Rightarrow> u32 \<Rightarrow> nat \<Rightarrow> u8 list option" where
  "demo_adjust c h t v n =
    (let t' = t[11 := t ! 11 XOR 1] in
     if toeplitz_hash 40 default_rsskey_40bytes 12 t AND 1 = v then Some t
     else if toeplitz_hash 40 default_rsskey_40bytes 12 t' AND 1 = v then Some t' else None)"

lemma demo_contract:
  "thash_contract 40 default_rsskey_40bytes 10 2 (\<lambda>t v. demo_adjust c h t v n)"
  by (auto simp: thash_contract_def demo_adjust_def Let_def split: if_splits)

lemma demo_adjust_run:
  "ff_rss_adjust_sport demo_adjust 7 5 demo_rss 0 0x0100000a 0x0200000a (htons 80) 0x8000 0x8001 = Some 0x8000 \<or>
   ff_rss_adjust_sport demo_adjust 7 5 demo_rss 0 0x0100000a 0x0200000a (htons 80) 0x8000 0x8001 = Some 0x8001"
  by code_simp

theorem rss_check_predicts_nic_witness:
  "\<exists>conf. set_rss_table 2 2 = Some conf \<and>
     ff_rss_check demo_rss 0 1 2 3 4 =
       (nic_queue 40 default_rsskey_40bytes 2 conf (u32_bytes 1 @ u32_bytes 2 @ u16_bytes 3 @ u16_bytes 4) = 1)"
proof -
  obtain conf where "set_rss_table 2 2 = Some conf" by (simp add: set_rss_table_def)
  then show ?thesis
    using rss_check_predicts_nic[of demo_rss 0 conf 1 1 2 3 4] by (simp add: demo_rss_def)
qed

theorem rss_check_unique_queue_witness:
  "\<exists>!q. q < 2 \<and> ff_rss_check (demo_rss\<lparr>tx_queue_id := (tx_queue_id demo_rss)(0 := q)\<rparr>) 0 1 2 3 4"
  using rss_check_unique_queue[of demo_rss 0 1 2 3 4] by (simp add: demo_rss_def)

theorem rss_reta_log2_correct_witness:
  "2 ^ ff_rss_reta_log2 512 \<le> (512::nat) \<and> (512::nat) < 2 ^ Suc (ff_rss_reta_log2 512)"
  using rss_reta_log2_correct[of 512] by simp

theorem rss_adjust_sport_safe_witness:
  "\<exists>p. ff_rss_adjust_sport demo_adjust 7 5 demo_rss 0 0x0100000a 0x0200000a (htons 80) 0x8000 0x8001 = Some p \<and>
     0x8000 \<le> p \<and> p \<le> 0x8001"
  using demo_adjust_run rss_adjust_sport_safe by blast


lemma demo_solves:
  "case demo_adjust () () (u32_bytes 0x0100000a @ u32_bytes 0x0200000a @ u16_bytes (htons 80) @ u16_bytes (htons 0x8000)) 1 16 of
     Some t \<Rightarrow> 0x8000 \<le> htons (bytes_u16 (t ! 10) (t ! 11)) \<and> htons (bytes_u16 (t ! 10) (t ! 11)) < 0x8002
   | None \<Rightarrow> False"
  by code_simp


definition demo_api :: "(unit, unit) thash_api" where
  "demo_api = \<lparr>thash_init_ctx = (\<lambda>_ _ _ _. Some ()), thash_add_helper = (\<lambda>c _ _. Some c),
     thash_find_existing = (\<lambda>_. None), thash_get_helper = Some, thash_get_key = (\<lambda>_. Some [1, 2, 3, 4]),
     key_malloc = True\<rparr>"

theorem rss_build_key_published_witness:
  "rss_thash_ready (ff_rss_thash_build_key demo_api True 0 128 (demo_rss\<lparr>ff_rss_key_built := False\<rparr>)) 0 \<and>
   rsskey (ff_rss_thash_build_key demo_api True 0 128 (demo_rss\<lparr>ff_rss_key_built := False\<rparr>)) = [1, 2, 3, 4]"
proof -
  let ?st = "ff_rss_thash_build_key demo_api True 0 128 (demo_rss\<lparr>ff_rss_key_built := False\<rparr>)"
  have "rss_thash_ready ?st 0"
    by (simp add: ff_rss_thash_build_key_def build_key_v6_def publish_key_def thash_ctx_of_def demo_api_def
        demo_rss_def Let_def)
  moreover have "thash_get_key demo_api c = Some [1, 2, 3, 4]" for c by (simp add: demo_api_def)
  ultimately show ?thesis
    using rss_build_key_published[of ?st demo_api True 0 128 "demo_rss\<lparr>ff_rss_key_built := False\<rparr>"]
    by (auto simp: demo_rss_def)
qed

end
