(* ===== verification/FF_Rss_Tbl.thy ===== *)
theory FF_Rss_Tbl
  imports FF_Rss
begin

text \<open>
  The tables of local ports per remote address and port, and local address (\<open>ff_rss_tbl\<close> and
  \<open>ff_rss_tbl6\<close> of \<open>lib/ff_dpdk_if.c\<close>): two levels of open addressing, filled once from the
  configuration, narrowed to a port range, and looked up when a connection picks its port.

  The IPv4 and the IPv6 code differ only in the type of an address, the all-zero address and the two
  index hashes; the operations are defined once over these (\<open>addr_ops\<close>) and instantiated for both.
  The array \<open>dport\<close> is a function from indices; index 0 is the last selected position.
\<close>

section \<open>State\<close>

record 'a ff_rss_tbl_dip_type =
  dip_daddr :: 'a
  dip_first :: u16
  dip_last :: u16
  dip_first_idx :: u16
  dip_last_idx :: u16
  dip_num :: u16
  dip_dport :: "nat \<Rightarrow> u16"

record 'a ff_rss_tbl_type =
  tbl_saddr :: 'a
  tbl_sport :: u16
  tbl_num :: u16
  dip_tbl :: "'a ff_rss_tbl_dip_type list"

record 'a addr_ops =
  any_addr :: 'a
  saddr_idx :: "'a \<Rightarrow> u16 \<Rightarrow> nat"
  daddr_idx :: "'a \<Rightarrow> nat"

definition empty_dip :: "'a addr_ops \<Rightarrow> 'a ff_rss_tbl_dip_type" where
  "empty_dip ops = \<lparr>dip_daddr = any_addr ops, dip_first = 0, dip_last = 0, dip_first_idx = 0,
     dip_last_idx = 0, dip_num = 0, dip_dport = (\<lambda>_. 0)\<rparr>"

definition empty_tbl :: "'a addr_ops \<Rightarrow> 'a ff_rss_tbl_type list" where
  "empty_tbl ops = replicate FF_RSS_TBL_MAX_SADDR_SPORT_ENTRIES
     \<lparr>tbl_saddr = any_addr ops, tbl_sport = 0, tbl_num = 0,
      dip_tbl = replicate FF_RSS_TBL_MAX_DADDR (empty_dip ops)\<rparr>"

definition v4_ops :: "u32 addr_ops" where
  "v4_ops = \<lparr>any_addr = 0,
     saddr_idx = (\<lambda>saddr sport. unat (((saddr + drop_bit 24 saddr) XOR ucast sport)
       AND of_nat FF_RSS_TBL_MAX_SADDR_SPORT_ENTRIES_MASK)),
     daddr_idx = (\<lambda>daddr. unat ((daddr + drop_bit 24 daddr) AND of_nat FF_RSS_TBL_MAX_DIP_MASK))\<rparr>"

definition ff_in6_is_any :: "u8 list \<Rightarrow> bool" where
  "ff_in6_is_any addr6 = list_all (\<lambda>i. addr6 ! i = 0) [0..<16]"

definition ff_in6_fold :: "u8 list \<Rightarrow> u32" where
  "ff_in6_fold addr6 = fold (\<lambda>i v. v + push_bit ((i AND 3) * 8) (ucast (addr6 ! i))) [0..<16] 0"

definition v6_ops :: "u8 list addr_ops" where
  "v6_ops = \<lparr>any_addr = replicate 16 0,
     saddr_idx = (\<lambda>saddr6 sport. unat ((ff_in6_fold saddr6 XOR ucast sport)
       AND of_nat FF_RSS_TBL_MAX_SADDR_SPORT_ENTRIES_MASK)),
     daddr_idx = (\<lambda>daddr6. unat (ff_in6_fold daddr6 AND of_nat FF_RSS_TBL_MAX_DIP_MASK))\<rparr>"

section \<open>Probing\<close>

text \<open>The \<open>do ... while (idx != ori)\<close> loops over a table with mask \<open>msk\<close>: the position at which the
  loop is left. The first argument bounds the iterations; one per slot is enough.\<close>

primrec probe :: "nat \<Rightarrow> (nat \<Rightarrow> bool) \<Rightarrow> nat \<Rightarrow> nat \<Rightarrow> nat \<Rightarrow> nat" where
  "probe 0 stop msk ori idx = idx"
| "probe (Suc n) stop msk ori idx =
    (if stop idx then idx
     else let idx = (idx + 1) AND msk in if idx \<noteq> ori then probe n stop msk ori idx else idx)"

definition probe_saddr :: "'a addr_ops \<Rightarrow> 'a ff_rss_tbl_type list \<Rightarrow> 'a \<Rightarrow> u16 \<Rightarrow> nat" where
  "probe_saddr ops tbl saddr sport =
    (let ori_idx = saddr_idx ops saddr sport
     in probe FF_RSS_TBL_MAX_SADDR_SPORT_ENTRIES
          (\<lambda>idx. tbl_saddr (tbl ! idx) = any_addr ops \<or>
             (tbl_saddr (tbl ! idx) = saddr \<and> tbl_sport (tbl ! idx) = sport))
          FF_RSS_TBL_MAX_SADDR_SPORT_ENTRIES_MASK ori_idx ori_idx)"

definition probe_daddr :: "'a addr_ops \<Rightarrow> 'a ff_rss_tbl_dip_type list \<Rightarrow> 'a \<Rightarrow> nat" where
  "probe_daddr ops dips daddr =
    (let ori_daddr_idx = daddr_idx ops daddr
     in probe FF_RSS_TBL_MAX_DADDR
          (\<lambda>idx. dip_daddr (dips ! idx) = any_addr ops \<or> dip_daddr (dips ! idx) = daddr)
          FF_RSS_TBL_MAX_DIP_MASK ori_daddr_idx ori_daddr_idx)"

section \<open>Filling\<close>

text \<open>One iteration of the loop over all ports, with \<open>check\<close> the test of the port in network order;
  the loop state is the entry, the next free position \<open>k\<close> and the previous port.\<close>

definition fill_port :: "(u16 \<Rightarrow> bool) \<Rightarrow> nat \<Rightarrow> 'a ff_rss_tbl_dip_type \<times> nat \<times> int
    \<Rightarrow> 'a ff_rss_tbl_dip_type \<times> nat \<times> int" where
  "fill_port check j = (\<lambda>(dip, k, prev_dport).
     if check (htons (of_nat j))
     then (dip\<lparr>dip_num := dip_num dip + 1,
               dip_dport := (dip_dport dip)(k := of_nat j),
               dip_first := (if prev_dport = -1 then of_nat j else dip_first dip)\<rparr>,
           k + 1, int j)
     else (dip, k, prev_dport))"

definition fill_dip :: "(u16 \<Rightarrow> bool) \<Rightarrow> 'a \<Rightarrow> 'a ff_rss_tbl_dip_type \<Rightarrow> 'a ff_rss_tbl_dip_type" where
  "fill_dip check daddr dip =
    (let dip = dip\<lparr>dip_dport := (dip_dport dip)(0 := 1), dip_first_idx := 1\<rparr>;
         (dip, k, prev_dport) = fold (fill_port check) [0..<FF_RSS_TBL_MAX_DPORT] (dip, 1, -1);
         dip = (if k = FF_RSS_TBL_MAX_DPORT + 1
                then dip\<lparr>dip_num := of_nat (k - 2), dip_last_idx := of_nat (k - 2)\<rparr>
                else dip\<lparr>dip_last_idx := of_nat (k - 1)\<rparr>)
     in dip\<lparr>dip_last := of_int prev_dport, dip_daddr := daddr\<rparr>)"

text \<open>One configuration entry; ignoring it leaves the table as it is.\<close>

definition tbl_insert :: "'a addr_ops \<Rightarrow> (u16 \<Rightarrow> bool) \<Rightarrow> 'a \<Rightarrow> u16 \<Rightarrow> 'a \<Rightarrow> 'a ff_rss_tbl_type list
    \<Rightarrow> 'a ff_rss_tbl_type list" where
  "tbl_insert ops check saddr sport daddr tbl =
    (let idx = probe_saddr ops tbl saddr sport;
         e = tbl ! idx
     in if idx = saddr_idx ops saddr sport \<and> tbl_saddr e \<noteq> any_addr ops \<and>
           (tbl_saddr e \<noteq> saddr \<or> tbl_sport e \<noteq> sport) then tbl
        else
          let d = probe_daddr ops (dip_tbl e) daddr;
              dip = dip_tbl e ! d
          in if dip_daddr dip \<noteq> any_addr ops then tbl
             else tbl[idx := e\<lparr>dip_tbl := (dip_tbl e)[d := fill_dip check daddr dip],
                               tbl_saddr := saddr, tbl_sport := sport, tbl_num := tbl_num e + 1\<rparr>])"

definition AF_INET6_LINUX :: u8 where "AF_INET6_LINUX = 10"

text \<open>The tables' initialisation over the configured entries; \<open>softc\<close> is whether
  \<open>ff_veth_get_softc\<close> returned a context. None is the return value -1.\<close>

definition ff_rss_tbl_init :: "bool \<Rightarrow> ('c, 'h) rss_state \<Rightarrow> ff_rss_check_cfg \<Rightarrow> u32 ff_rss_tbl_type list option" where
  "ff_rss_tbl_init softc st cfg =
    (if \<not> softc then None
     else Some (fold (\<lambda>rcc tbl.
       if rt_family rcc = AF_INET6_LINUX then tbl
       else tbl_insert v4_ops (\<lambda>dport. ff_rss_check st (rt_port_id rcc) (rt_saddr rcc) (rt_daddr rcc) (rt_sport rcc) dport)
              (rt_saddr rcc) (rt_sport rcc) (rt_daddr rcc) tbl)
       (take (rc_nb_rss_tbl cfg) (rc_rss_tbl_cfgs cfg)) (empty_tbl v4_ops)))"

definition ff_rss_tbl6_init :: "bool \<Rightarrow> ('c, 'h) rss_state \<Rightarrow> ff_rss_check_cfg \<Rightarrow> u8 list ff_rss_tbl_type list option" where
  "ff_rss_tbl6_init softc st cfg =
    (if \<not> softc then None
     else Some (fold (\<lambda>rcc tbl.
       if rt_family rcc \<noteq> AF_INET6_LINUX then tbl
       else tbl_insert v6_ops (\<lambda>dport. ff_rss_check6 st (rt_port_id rcc) (rt_saddr6 rcc) (rt_daddr6 rcc) (rt_sport rcc) dport)
              (rt_saddr6 rcc) (rt_sport rcc) (rt_daddr6 rcc) tbl)
       (take (rc_nb_rss_tbl cfg) (rc_rss_tbl_cfgs cfg)) (empty_tbl v6_ops)))"

section \<open>Narrowing to a port range\<close>

text \<open>The loop over \<open>k\<close> on one entry.\<close>

function range_scan :: "u16 \<Rightarrow> u16 \<Rightarrow> nat \<Rightarrow> 'a ff_rss_tbl_dip_type \<Rightarrow> 'a ff_rss_tbl_dip_type" where
  "range_scan pfirst plast k dip =
    (if k \<le> unat (dip_num dip) then
       let found = dip_first_idx dip = 0 \<and> dip_dport dip k \<ge> pfirst;
           dip = (if found then dip\<lparr>dip_first_idx := of_nat k\<rparr> else dip)
       in if found \<and> dip_dport dip (unat (dip_num dip)) < plast then dip
          else if found \<and> pfirst = plast then dip\<lparr>dip_last_idx := of_nat k\<rparr>
          else if dip_dport dip k = plast then dip\<lparr>dip_last_idx := of_nat k\<rparr>
          else if dip_dport dip k > plast then dip\<lparr>dip_last_idx := of_nat (if k > 1 then k - 1 else k)\<rparr>
          else range_scan pfirst plast (k + 1) dip
     else dip)"
  by pat_completeness auto
termination by (relation "measure (\<lambda>(_, _, k, dip). Suc (unat (dip_num dip)) - k)") auto

declare range_scan.simps [simp del]

definition range_dip :: "u16 \<Rightarrow> u16 \<Rightarrow> 'a ff_rss_tbl_dip_type \<Rightarrow> 'a ff_rss_tbl_dip_type" where
  "range_dip pfirst plast dip =
     range_scan pfirst plast 1 (dip\<lparr>dip_first := pfirst, dip_last := plast, dip_first_idx := 0\<rparr>)"

definition range_failed :: "'a ff_rss_tbl_dip_type \<Rightarrow> bool" where
  "range_failed dip \<longleftrightarrow> dip_first_idx dip = 0 \<or> dip_last_idx dip < dip_first_idx dip"

text \<open>The loops over the entries; a failed entry ends them, the entries before it stay updated.\<close>

primrec range_dips :: "'a addr_ops \<Rightarrow> u16 \<Rightarrow> u16 \<Rightarrow> 'a ff_rss_tbl_dip_type list
    \<Rightarrow> bool \<times> 'a ff_rss_tbl_dip_type list" where
  "range_dips ops pfirst plast [] = (True, [])"
| "range_dips ops pfirst plast (dip # dips) =
    (if dip_daddr dip = any_addr ops
     then let (ok, dips) = range_dips ops pfirst plast dips in (ok, dip # dips)
     else let dip = range_dip pfirst plast dip
          in if range_failed dip then (False, dip # dips)
             else let (ok, dips) = range_dips ops pfirst plast dips in (ok, dip # dips))"

primrec range_tbl :: "'a addr_ops \<Rightarrow> u16 \<Rightarrow> u16 \<Rightarrow> 'a ff_rss_tbl_type list \<Rightarrow> bool \<times> 'a ff_rss_tbl_type list" where
  "range_tbl ops pfirst plast [] = (True, [])"
| "range_tbl ops pfirst plast (e # es) =
    (if tbl_saddr e = any_addr ops
     then let (ok, es) = range_tbl ops pfirst plast es in (ok, e # es)
     else let (ok, dips) = range_dips ops pfirst plast (dip_tbl e);
              e = e\<lparr>dip_tbl := dips\<rparr>
          in if \<not> ok then (False, e # es)
             else let (ok, es) = range_tbl ops pfirst plast es in (ok, e # es))"

definition set_portrange :: "'a addr_ops \<Rightarrow> ff_rss_check_cfg option \<Rightarrow> u16 \<Rightarrow> u16 \<Rightarrow> 'a ff_rss_tbl_type list
    \<Rightarrow> int \<times> 'a ff_rss_tbl_type list" where
  "set_portrange ops cfg pfirst plast tbl =
    (if pfirst > plast \<or> (case cfg of None \<Rightarrow> True | Some c \<Rightarrow> rc_enable c = 0) then (-1, tbl)
     else let (ok, tbl) = range_tbl ops pfirst plast tbl in (if ok then 0 else -1, tbl))"

definition ff_rss_tbl_set_portrange :: "ff_rss_check_cfg option \<Rightarrow> u16 \<Rightarrow> u16 \<Rightarrow> u32 ff_rss_tbl_type list
    \<Rightarrow> int \<times> u32 ff_rss_tbl_type list" where
  "ff_rss_tbl_set_portrange = set_portrange v4_ops"

definition ff_rss_tbl6_set_portrange :: "ff_rss_check_cfg option \<Rightarrow> u16 \<Rightarrow> u16 \<Rightarrow> u8 list ff_rss_tbl_type list
    \<Rightarrow> int \<times> u8 list ff_rss_tbl_type list" where
  "ff_rss_tbl6_set_portrange = set_portrange v6_ops"

section \<open>Lookup\<close>

definition ENOENT :: int where "ENOENT = 2"

text \<open>The entry of a triple: the first loop stops at a free slot (no entry), at the slot of the remote
  end, or after a full turn; the second likewise.\<close>

definition tbl_lookup :: "'a addr_ops \<Rightarrow> 'a ff_rss_tbl_type list \<Rightarrow> 'a \<Rightarrow> 'a \<Rightarrow> u16 \<Rightarrow> 'a ff_rss_tbl_dip_type option" where
  "tbl_lookup ops tbl saddr daddr sport =
    (let e = tbl ! probe_saddr ops tbl saddr sport
     in if tbl_saddr e \<noteq> any_addr ops \<and> tbl_saddr e = saddr \<and> tbl_sport e = sport
        then let dip = dip_tbl e ! probe_daddr ops (dip_tbl e) daddr
             in if dip_daddr dip \<noteq> any_addr ops \<and> dip_daddr dip = daddr then Some dip else None
        else None)"

definition get_portrange :: "'a addr_ops \<Rightarrow> ff_rss_check_cfg option \<Rightarrow> 'a ff_rss_tbl_type list \<Rightarrow> 'a \<Rightarrow> 'a \<Rightarrow> u16
    \<Rightarrow> int + u16 \<times> u16 \<times> (nat \<Rightarrow> u16)" where
  "get_portrange ops cfg tbl saddr daddr sport =
    (if (case cfg of None \<Rightarrow> True | Some c \<Rightarrow> rc_enable c = 0) then Inl (-1)
     else case tbl_lookup ops tbl saddr daddr sport of
            None \<Rightarrow> Inl (- ENOENT)
          | Some dip \<Rightarrow> Inr (dip_first_idx dip, dip_last_idx dip, dip_dport dip))"

definition ff_rss_tbl_get_portrange :: "ff_rss_check_cfg option \<Rightarrow> u32 ff_rss_tbl_type list \<Rightarrow> u32 \<Rightarrow> u32 \<Rightarrow> u16
    \<Rightarrow> int + u16 \<times> u16 \<times> (nat \<Rightarrow> u16)" where
  "ff_rss_tbl_get_portrange = get_portrange v4_ops"

definition ff_rss_tbl6_get_portrange :: "ff_rss_check_cfg option \<Rightarrow> u8 list ff_rss_tbl_type list \<Rightarrow> u8 list \<Rightarrow> u8 list \<Rightarrow> u16
    \<Rightarrow> int + u16 \<times> u16 \<times> (nat \<Rightarrow> u16)" where
  "ff_rss_tbl6_get_portrange = get_portrange v6_ops"

section \<open>The filled entry\<close>

text \<open>The accepted ports in increasing order, and what the loop makes of them.\<close>

definition accepted :: "(u16 \<Rightarrow> bool) \<Rightarrow> u16 list" where
  "accepted check = map of_nat (filter (\<lambda>j. check (htons (of_nat j))) [0..<65536])"

lemma fill_dip_daddr [simp]: "dip_daddr (fill_dip check d dip) = d"
  by (simp add: fill_dip_def Let_def split_beta)

lemma fill_port_fold:
  fixes check :: "u16 \<Rightarrow> bool"
  assumes "dip_num dip = 0" and n: "n \<le> 65536"
  defines "ports \<equiv> filter (\<lambda>j. check (htons (of_nat j))) [0..<n]"
  shows "\<exists>dip' prev. fold (fill_port check) [0..<n] (dip, 1, -1) = (dip', 1 + length ports, prev) \<and>
    dip_num dip' = of_nat (length ports) \<and> dip_first_idx dip' = dip_first_idx dip \<and>
    dip_dport dip' 0 = dip_dport dip 0 \<and> (\<forall>i < length ports. dip_dport dip' (Suc i) = of_nat (ports ! i))"
  using n unfolding ports_def
proof (induction n)
  case 0
  then show ?case using assms(1) by simp
next
  case (Suc n)
  let ?ps = "filter (\<lambda>j. check (htons (of_nat j))) [0..<n]"
  obtain dip' prev where IH: "fold (fill_port check) [0..<n] (dip, 1, -1) = (dip', 1 + length ?ps, prev)"
    "dip_num dip' = of_nat (length ?ps)" "dip_first_idx dip' = dip_first_idx dip"
    "dip_dport dip' 0 = dip_dport dip 0" "\<forall>i < length ?ps. dip_dport dip' (Suc i) = of_nat (?ps ! i)"
    using Suc by auto
  have step: "fold (fill_port check) [0..<Suc n] (dip, 1, -1) = fill_port check n (dip', 1 + length ?ps, prev)"
    using IH(1) by simp
  show ?case unfolding step using IH(2-)
    by (cases "check (htons (of_nat n))") (auto simp: fill_port_def nth_append less_Suc_eq)
qed

lemma fill_dip_spec:
  fixes check :: "u16 \<Rightarrow> bool" and d :: 'a
  assumes "dip_num dip = 0"
  defines "r \<equiv> fill_dip check d dip" and "ports \<equiv> accepted check"
  shows "dip_daddr r = d" "dip_first_idx r = 1" "dip_num r = of_nat (min 65535 (length ports))"
    "dip_last_idx r = of_nat (min 65535 (length ports))"
    "i < length ports \<Longrightarrow> dip_dport r (Suc i) = ports ! i"
proof -
  let ?ps = "filter (\<lambda>j. check (htons (of_nat j))) [0..<65536]"
  let ?dip = "dip\<lparr>dip_dport := (dip_dport dip)(0 := 1), dip_first_idx := 1\<rparr>"
  obtain dip' prev where f: "fold (fill_port check) [0..<65536] (?dip, 1, -1) = (dip', 1 + length ?ps, prev)"
    "dip_num dip' = of_nat (length ?ps)" "dip_first_idx dip' = 1"
    "\<forall>i < length ?ps. dip_dport dip' (Suc i) = of_nat (?ps ! i)"
    using fill_port_fold[of ?dip 65536 check] assms(1) by auto
  have len: "length ?ps \<le> 65536" by (rule order_trans[OF length_filter_le]) simp
  have "min 65535 (length ?ps) = length ?ps" if "length ?ps \<noteq> 65536" using len that by linarith
  then have m: "of_nat (min 65535 (length ?ps)) = (if length ?ps = 65536 then 65535 else of_nat (length ?ps) :: u16)"
    by simp
  have ports: "ports = map of_nat ?ps" by (simp add: ports_def accepted_def)
  have r: "r = (if length ?ps = 65536 then dip'\<lparr>dip_num := of_nat 65535, dip_last_idx := of_nat 65535\<rparr>
      else dip'\<lparr>dip_last_idx := of_nat (length ?ps)\<rparr>)\<lparr>dip_last := of_int prev, dip_daddr := d\<rparr>"
    by (simp add: r_def fill_dip_def f(1)[simplified] del: upt_Suc)
  show "dip_daddr r = d" "dip_first_idx r = 1" using f(3) by (auto simp: r)
  show "dip_num r = of_nat (min 65535 (length ports))" "dip_last_idx r = of_nat (min 65535 (length ports))"
    using f(2) m by (auto simp: r ports)
  show "i < length ports \<Longrightarrow> dip_dport r (Suc i) = ports ! i" using f(4) by (auto simp: r ports)
qed

lemma accepted_sorted: "sorted_wrt (<) (accepted check)"
proof -
  have lift: "of_nat i < (of_nat j :: u16)" if "i < j" "j < 65536" for i j :: nat
    using that by (simp add: word_less_nat_alt unat_of_nat)
  have "sorted_wrt (<) (map (of_nat :: nat \<Rightarrow> u16) xs)" if "sorted_wrt (<) xs" "set xs \<subseteq> {..<65536}" for xs
    using that by (induction xs) (auto intro: lift)
  moreover have "sorted_wrt (<) (filter P [0..<65536])" for P by (rule sorted_wrt_filter) (rule sorted_wrt_upt)
  moreover have "set (filter P [0..<65536]) \<subseteq> {..<65536}" for P by auto
  ultimately show ?thesis unfolding accepted_def by blast
qed

lemma accepted_set: "set (accepted check) = {p. check (htons p)}"
proof -
  have "p \<in> of_nat ` {j. j < 65536 \<and> check (htons (of_nat j))}" if "check (htons p)" for p :: u16
    using that unsigned_less[of p, where ?'a = nat] by (intro image_eqI[of _ _ "unat p"]) auto
  then show ?thesis by (auto simp: accepted_def)
qed

lemma accepted_length: "length (accepted check) \<le> 65536"
  unfolding accepted_def length_map by (rule order_trans[OF length_filter_le]) simp

section \<open>The narrowed entry\<close>

text \<open>\<open>a\<close> ports lie below the range and \<open>b\<close> below or at its end; the ports stand in increasing order at
  the positions from 1 to \<open>num\<close>.\<close>

definition split_at :: "u16 \<Rightarrow> u16 \<Rightarrow> nat \<Rightarrow> nat \<Rightarrow> 'a ff_rss_tbl_dip_type \<Rightarrow> bool" where
  "split_at pfirst plast a b dip \<longleftrightarrow> a \<le> b \<and> b \<le> unat (dip_num dip) \<and>
     (\<forall>k. 1 \<le> k \<and> k \<le> unat (dip_num dip) \<longrightarrow>
        (dip_dport dip k < pfirst \<longleftrightarrow> k \<le> a) \<and> (dip_dport dip k \<le> plast \<longleftrightarrow> k \<le> b)
        \<and> (dip_dport dip k = plast \<longrightarrow> k = b))"

lemma split_atD:
  assumes "split_at pfirst plast a b dip" "1 \<le> k" "k \<le> unat (dip_num dip)"
  shows "dip_dport dip k < pfirst \<longleftrightarrow> k \<le> a" "dip_dport dip k \<le> plast \<longleftrightarrow> k \<le> b"
  using assms by (auto simp: split_at_def)

lemma range_scan_below:
  assumes "split_at pfirst plast a b dip" "pfirst \<le> plast" "dip_first_idx dip = 0" "1 \<le> k" "k \<le> a + 1"
  shows "range_scan pfirst plast k dip = range_scan pfirst plast (a + 1) dip"
  using assms(4,5)
proof (induction "a + 1 - k" arbitrary: k)
  case (Suc n)
  then have k: "k \<le> a" "k \<le> unat (dip_num dip)" using assms(1) by (auto simp: split_at_def)
  then have "dip_dport dip k < pfirst" using assms(1) Suc.prems by (auto simp: split_at_def)
  then have "\<not> pfirst \<le> dip_dport dip k" "dip_dport dip k \<noteq> plast" "\<not> plast < dip_dport dip k"
    using assms(2) by auto
  then have "range_scan pfirst plast k dip = range_scan pfirst plast (k + 1) dip"
    using k assms(2) by (subst range_scan.simps) (simp add: Let_def)
  then show ?case using Suc k by simp
qed (use assms in simp)

lemma range_scan_inside:
  assumes "split_at pfirst plast a b dip" "dip_first_idx dip \<noteq> 0" "a < k" "k \<le> b + 1" "1 < k"
    "plast \<le> dip_dport dip (unat (dip_num dip))" "k \<le> unat (dip_num dip)"
  shows "range_scan pfirst plast k dip = dip\<lparr>dip_last_idx := of_nat b\<rparr>"
  using assms(3-5,7)
proof (induction "b + 1 - k" arbitrary: k)
  case 0
  then have "\<not> dip_dport dip k \<le> plast" using assms(1) by (simp add: split_at_def)
  moreover have "k - 1 = b" using 0 by simp
  ultimately show ?case using 0 assms(2) by (subst range_scan.simps) (simp add: Let_def not_le)
next
  case (Suc n)
  then have le: "dip_dport dip k \<le> plast" using assms(1) by (simp add: split_at_def)
  show ?case
  proof (cases "dip_dport dip k = plast")
    case True
    then have "k = b" using assms(1) Suc.prems by (auto simp: split_at_def)
    then show ?thesis using True Suc assms(2) by (subst range_scan.simps) (auto simp: Let_def)
  next
    case False
    then have "k < unat (dip_num dip)" using le assms(6) Suc.prems by (cases "k = unat (dip_num dip)") auto
    moreover have "range_scan pfirst plast k dip = range_scan pfirst plast (k + 1) dip"
      using False le Suc assms(2) by (subst range_scan.simps) (auto simp: Let_def)
    ultimately show ?thesis using Suc by simp
  qed
qed

lemma range_dip_spec:
  assumes sp: "split_at pfirst plast a b dip" and r: "pfirst < plast"
  shows "range_dip pfirst plast dip = dip\<lparr>dip_first := pfirst, dip_last := plast,
    dip_first_idx := (if a < unat (dip_num dip) then of_nat (a + 1) else 0),
    dip_last_idx := (if a < unat (dip_num dip) \<and> plast \<le> dip_dport dip (unat (dip_num dip))
      then of_nat (max 1 b) else dip_last_idx dip)\<rparr>"
proof -
  let ?N = "unat (dip_num dip)" and ?d = "dip\<lparr>dip_first := pfirst, dip_last := plast, dip_first_idx := 0\<rparr>"
  have spd: "split_at pfirst plast a b ?d" using sp by (simp add: split_at_def)
  have below: "range_dip pfirst plast dip = range_scan pfirst plast (a + 1) ?d"
    using range_scan_below[OF spd, of 1] r by (simp add: range_dip_def)
  show ?thesis
  proof (cases "a < ?N")
    case False
    then show ?thesis unfolding below by (subst range_scan.simps) simp
  next
    case True
    let ?k = "a + 1" and ?e = "?d\<lparr>dip_first_idx := of_nat (a + 1)\<rparr>"
    have ge: "pfirst \<le> dip_dport dip ?k" using sp True by (simp add: split_at_def not_less[symmetric])
    have at: "dip_dport dip ?k \<le> plast \<longleftrightarrow> ?k \<le> b" "dip_dport dip ?k = plast \<longrightarrow> ?k = b" "a \<le> b"
      using sp True by (auto simp: split_at_def)
    have nz: "(of_nat (a + 1) :: u16) \<noteq> 0"
      using True unsigned_less[of "dip_num dip", where ?'a = nat] by (simp add: word_unat_eq_iff unat_of_nat del: of_nat_Suc of_nat_add)
    have spe: "split_at pfirst plast a b ?e" using sp by (simp add: split_at_def)
    consider "dip_dport dip ?N < plast" | "plast \<le> dip_dport dip ?N" "dip_dport dip ?k = plast"
      | "plast \<le> dip_dport dip ?N" "plast < dip_dport dip ?k"
      | "plast \<le> dip_dport dip ?N" "dip_dport dip ?k < plast" by fastforce
    then show ?thesis
    proof cases
      case 1
      then show ?thesis unfolding below using True ge by (subst range_scan.simps) (auto simp: Let_def not_le)
    next
      case 2
      then have "b = ?k" using at by simp
      then show ?thesis unfolding below using 2 True ge r by (subst range_scan.simps) (auto simp: Let_def not_le)
    next
      case 3
      then have "b = a" using at(1)[THEN iffD2] at(3) by (cases "?k \<le> b") auto
      then show ?thesis unfolding below using 3 True ge r by (subst range_scan.simps) (auto simp: Let_def not_le)
    next
      case 4
      then have b: "?k \<le> b" using at(1) less_imp_le by blast
      have kN: "?k < ?N" using 4 True by (cases "?k = ?N") auto
      have "range_scan pfirst plast ?k ?d = range_scan pfirst plast (?k + 1) ?e"
        using 4 True ge r by (subst range_scan.simps) (auto simp: Let_def not_le)
      also have "\<dots> = ?e\<lparr>dip_last_idx := of_nat b\<rparr>"
        using range_scan_inside[OF spe, of "?k + 1"] nz b kN 4 by simp
      finally show ?thesis unfolding below using True b 4 by (simp add: max_def)
    qed
  qed
qed

lemma range_dip_single:
  assumes "split_at port port a b dip"
  shows "range_dip port port dip = dip\<lparr>dip_first := port, dip_last := port,
    dip_first_idx := (if a < unat (dip_num dip) then of_nat (a + 1) else 0),
    dip_last_idx := (if a < unat (dip_num dip) then of_nat (a + 1) else dip_last_idx dip)\<rparr>"
proof -
  let ?d = "dip\<lparr>dip_first := port, dip_last := port, dip_first_idx := 0\<rparr>"
  have "split_at port port a b ?d" using assms by (simp add: split_at_def)
  from range_scan_below[OF this, of 1]
  have below: "range_dip port port dip = range_scan port port (a + 1) ?d" by (simp add: range_dip_def)
  show ?thesis
  proof (cases "a < unat (dip_num dip)")
    case True
    then have "\<not> dip_dport dip (a + 1) < port" "\<not> dip_dport dip (unat (dip_num dip)) < port"
      using assms by (auto simp: split_at_def)
    then show ?thesis unfolding below using True by (subst range_scan.simps) (simp add: Let_def not_less)
  next
    case False
    then show ?thesis unfolding below by (subst range_scan.simps) simp
  qed
qed

lemma sorted_filter_index:
  assumes "sorted_wrt (<) xs" "i < length xs" "\<And>x y. P y \<Longrightarrow> x \<le> y \<Longrightarrow> P (x :: 'b :: linorder)"
  shows "P (xs ! i) \<longleftrightarrow> i < length (filter P xs)"
  using assms(1,2)
proof (induction xs arbitrary: i)
  case (Cons x xs)
  show ?case
  proof (cases "P x")
    case True
    then show ?thesis using Cons by (cases i) auto
  next
    case False
    then have "\<not> P y" if "y \<in> set xs" for y using that Cons.prems(1) assms(3)[of y x] by (auto dest: less_imp_le)
    then show ?thesis using False Cons.prems(2) by (cases i) (auto simp: filter_empty_conv)
  qed
qed simp

text \<open>A freshly filled entry, by the list of the ports it counts.\<close>

definition counted :: "(u16 \<Rightarrow> bool) \<Rightarrow> u16 list" where
  "counted check = take 65535 (accepted check)"

lemma counted_sorted: "sorted_wrt (<) (counted check)"
  unfolding counted_def by (rule sorted_wrt_take[OF accepted_sorted])

lemma counted_length: "length (counted check) < 65536"
  by (simp add: counted_def)

lemma fill_dip_counted:
  fixes check :: "u16 \<Rightarrow> bool" and d :: 'a
  assumes "dip_num dip = 0"
  defines "r \<equiv> fill_dip check d dip" and "qs \<equiv> counted check"
  shows "unat (dip_num r) = length qs" "unat (dip_last_idx r) = length qs"
    "1 \<le> k \<Longrightarrow> k \<le> length qs \<Longrightarrow> dip_dport r k = qs ! (k - 1)"
proof -
  note f = fill_dip_spec[OF assms(1), where check = check and d = d, folded r_def]
  have "length qs = min 65535 (length (accepted check))" by (simp add: qs_def counted_def min.commute)
  then show "unat (dip_num r) = length qs" "unat (dip_last_idx r) = length qs"
    using f(3,4) by (simp_all add: unat_of_nat min_def)
  assume "1 \<le> k" "k \<le> length qs"
  then show "dip_dport r k = qs ! (k - 1)" using f(5)[of "k - 1"] by (cases k) (auto simp: qs_def counted_def)
qed

lemma sorted_filter_split:
  assumes "sorted_wrt (<) xs" "\<And>x y. P y \<Longrightarrow> x \<le> y \<Longrightarrow> P (x :: 'b :: linorder)"
  shows "filter P xs = take (length (filter P xs)) xs" "filter (\<lambda>x. \<not> P x) xs = drop (length (filter P xs)) xs"
proof -
  have "filter P xs = take (length (filter P xs)) xs \<and> filter (\<lambda>x. \<not> P x) xs = drop (length (filter P xs)) xs"
    using assms(1)
  proof (induction xs)
    case (Cons x xs)
    show ?case
    proof (cases "P x")
      case False
      then have "\<not> P y" if "y \<in> set xs" for y using that Cons.prems assms(2)[of y x] by (auto dest: less_imp_le)
      then have "filter P xs = []" "filter (\<lambda>x. \<not> P x) xs = xs" by (auto simp: filter_empty_conv filter_id_conv)
      then show ?thesis using False by simp
    qed (use Cons in auto)
  qed simp
  then show "filter P xs = take (length (filter P xs)) xs" "filter (\<lambda>x. \<not> P x) xs = drop (length (filter P xs)) xs"
    by auto
qed

lemma filled_split:
  assumes "dip_num dip = 0" "pfirst \<le> plast"
  shows "split_at pfirst plast (length (filter (\<lambda>p. p < pfirst) (counted check)))
    (length (filter (\<lambda>p. p \<le> plast) (counted check))) (fill_dip check d dip)"
proof -
  let ?qs = "counted check" and ?r = "fill_dip check d dip"
  note f = fill_dip_counted[OF assms(1), where check = check and d = d]
  have idx1: "?qs ! i < pfirst \<longleftrightarrow> i < length (filter (\<lambda>p. p < pfirst) ?qs)" if "i < length ?qs" for i
    by (rule sorted_filter_index[OF counted_sorted that]) auto
  have idx2: "?qs ! i \<le> plast \<longleftrightarrow> i < length (filter (\<lambda>p. p \<le> plast) ?qs)" if "i < length ?qs" for i
    by (rule sorted_filter_index[OF counted_sorted that]) auto
  have mono: "length (filter (\<lambda>p. p < pfirst) xs) \<le> length (filter (\<lambda>p. p \<le> plast) xs)" for xs
    using assms(2) by (induction xs) auto
  have last: "k = length (filter (\<lambda>p. p \<le> plast) ?qs)" if "1 \<le> k" "k \<le> length ?qs" "?qs ! (k - 1) = plast" for k
  proof -
    have "k - 1 < length (filter (\<lambda>p. p \<le> plast) ?qs)" using idx2[of "k - 1"] that by simp
    moreover have "\<not> ?qs ! k \<le> plast" if "k < length ?qs"
      using sorted_wrt_nth_less[OF counted_sorted, of "k - 1" k check] that \<open>1 \<le> k\<close> \<open>?qs ! (k - 1) = plast\<close> by simp
    moreover have "length (filter (\<lambda>p. p \<le> plast) ?qs) \<le> length ?qs" by (rule length_filter_le)
    ultimately show ?thesis using idx2[of k] that by (cases "k < length ?qs") (simp, linarith)
  qed
  have "(dip_dport ?r k < pfirst \<longleftrightarrow> k \<le> length (filter (\<lambda>p. p < pfirst) ?qs)) \<and>
      (dip_dport ?r k \<le> plast \<longleftrightarrow> k \<le> length (filter (\<lambda>p. p \<le> plast) ?qs)) \<and>
      (dip_dport ?r k = plast \<longrightarrow> k = length (filter (\<lambda>p. p \<le> plast) ?qs))" if "1 \<le> k" "k \<le> length ?qs" for k
  proof -
    have "k - 1 < length ?qs" using that by simp
    from f(3)[OF that] idx1[OF this] idx2[OF this] last[OF that] show ?thesis using that(1) by auto
  qed
  then show ?thesis using mono length_filter_le[of _ ?qs] f(1) by (simp add: split_at_def)
qed

text \<open>Narrowing it selects exactly its ports of the range, when there is one.\<close>

lemma filter_range:
  assumes "sorted_wrt (<) qs" "pfirst \<le> (plast :: 'b :: linorder)"
  shows "filter (\<lambda>p. pfirst \<le> p \<and> p \<le> plast) qs =
    drop (length (filter (\<lambda>p. p < pfirst) qs)) (take (length (filter (\<lambda>p. p \<le> plast) qs)) qs)"
proof -
  let ?us = "filter (\<lambda>p. p \<le> plast) qs"
  have us: "?us = take (length ?us) qs" by (rule sorted_filter_split[OF assms(1)]) auto
  have "filter (\<lambda>p. p < pfirst) ?us = filter (\<lambda>p. p < pfirst) qs"
    using assms(2) by (auto intro: filter_cong)
  moreover have "filter (\<lambda>p. \<not> p < pfirst) ?us = drop (length (filter (\<lambda>p. p < pfirst) ?us)) ?us"
    by (rule sorted_filter_split[OF sorted_wrt_filter[OF assms(1)]]) auto
  moreover have "filter (\<lambda>p. \<not> p < pfirst) ?us = filter (\<lambda>p. pfirst \<le> p \<and> p \<le> plast) qs"
    by (simp add: not_less conj_commute)
  ultimately show ?thesis using us by simp
qed

lemma filled_positions:
  fixes d :: 'a and dip :: "'a ff_rss_tbl_dip_type"
  assumes "dip_num dip = 0" "pfirst < plast" "p \<in> set (counted check)" "pfirst \<le> p" "p \<le> plast"
  defines "r \<equiv> range_dip pfirst plast (fill_dip check d dip)"
    and "a \<equiv> length (filter (\<lambda>p. p < pfirst) (counted check))"
    and "b \<equiv> length (filter (\<lambda>p. p \<le> plast) (counted check))"
  shows "unat (dip_first_idx r) = a + 1" "unat (dip_last_idx r) = b" "a < b" "b \<le> length (counted check)"
    "dip_num r = dip_num (fill_dip check d dip)" "dip_dport r = dip_dport (fill_dip check d dip)"
proof -
  let ?qs = "counted check" and ?e = "fill_dip check d dip"
  note f = fill_dip_counted[OF assms(1), where check = check and d = d]
  have sp: "split_at pfirst plast a b ?e" unfolding a_def b_def
    by (rule filled_split[OF assms(1) less_imp_le[OF assms(2)]])
  obtain i where i: "i < length ?qs" "?qs ! i = p" using assms(3) by (auto simp: in_set_conv_nth)
  then have "dip_dport ?e (Suc i) = p" using f(3)[of "Suc i"] by simp
  then have "\<not> Suc i \<le> a" "Suc i \<le> b" using split_atD[OF sp, of "Suc i"] assms(4,5) f(1) i by auto
  moreover have "b \<le> length ?qs" by (simp add: b_def)
  ultimately have ab: "a < b" "b \<le> length ?qs" "a + 1 < 65536" "b < 65536"
    using counted_length[of check] by linarith+
  then show "a < b" "b \<le> length ?qs" by auto
  note r = range_dip_spec[OF sp assms(2), folded r_def, unfolded f(1)]
  have "length ?qs \<le> b" if "\<not> plast \<le> dip_dport ?e (length ?qs)"
    using that split_atD(2)[OF sp, of "length ?qs"] f(1) i by auto
  then show "unat (dip_last_idx r) = b" using r ab f(2) by (auto simp: unat_of_nat max_def)
  show "unat (dip_first_idx r) = a + 1" using r ab by (simp add: unat_of_nat del: of_nat_Suc of_nat_add)
  show "dip_num r = dip_num ?e" "dip_dport r = dip_dport ?e" using r by auto
qed

lemma filled_window:
  fixes d :: 'a and dip :: "'a ff_rss_tbl_dip_type"
  assumes "dip_num dip = 0" "pfirst < plast" "p \<in> set (counted check)" "pfirst \<le> p" "p \<le> plast"
  defines "r \<equiv> range_dip pfirst plast (fill_dip check d dip)"
  shows "\<not> range_failed r"
    "map (dip_dport r) [unat (dip_first_idx r)..<Suc (unat (dip_last_idx r))] =
       filter (\<lambda>p. pfirst \<le> p \<and> p \<le> plast) (counted check)"
proof -
  let ?qs = "counted check"
  define a where "a = length (filter (\<lambda>p. p < pfirst) ?qs)"
  define b where "b = length (filter (\<lambda>p. p \<le> plast) ?qs)"
  note pos = filled_positions(1,2,5,6)[OF assms(1-5), where d = d, folded r_def a_def b_def]
    filled_positions(3,4)[OF assms(1-5), folded a_def b_def]
  show "\<not> range_failed r" using pos by (auto simp: range_failed_def word_less_nat_alt)
  have "map (dip_dport r) [a + 1..<Suc b] = drop a (take b ?qs)"
    using pos fill_dip_counted(3)[OF assms(1)] by (intro nth_equalityI) (simp_all del: upt_Suc)
  then show "map (dip_dport r) [unat (dip_first_idx r)..<Suc (unat (dip_last_idx r))] =
      filter (\<lambda>p. pfirst \<le> p \<and> p \<le> plast) ?qs"
    using filter_range[OF counted_sorted less_imp_le[OF assms(2)]] pos(1,2) by (simp add: a_def b_def)
qed

lemma range_scan_daddr [simp]: "dip_daddr (range_scan pfirst plast k dip) = dip_daddr dip"
proof (induction "Suc (unat (dip_num dip)) - k" arbitrary: k dip)
  case (Suc n)
  have "dip_daddr (range_scan pfirst plast (k + 1) dip) = dip_daddr dip"
    "dip_daddr (range_scan pfirst plast (k + 1) (dip\<lparr>dip_first_idx := of_nat k\<rparr>)) = dip_daddr dip"
    using Suc.hyps(1)[of dip "k + 1"] Suc.hyps(1)[of "dip\<lparr>dip_first_idx := of_nat k\<rparr>" "k + 1"] Suc.hyps(2) by auto
  then show ?case by (subst range_scan.simps) (simp add: Let_def)
qed (subst range_scan.simps, simp)

lemma range_dip_daddr [simp]: "dip_daddr (range_dip pfirst plast dip) = dip_daddr dip"
  by (simp add: range_dip_def)

lemma accepted_index_le: "i < length (accepted check) \<Longrightarrow> i \<le> unat (accepted check ! i)"
proof (induction i)
  case (Suc i)
  then have "accepted check ! i < accepted check ! Suc i"
    by (intro sorted_wrt_nth_less[OF accepted_sorted]) auto
  then show ?case using Suc by (simp add: word_less_nat_alt)
qed simp

lemma counted_mem: "check (htons p) \<Longrightarrow> p \<noteq> 65535 \<Longrightarrow> p \<in> set (counted check)"
proof -
  assume p: "check (htons p)" "p \<noteq> 65535"
  obtain i where i: "i < length (accepted check)" "accepted check ! i = p"
    using p(1) accepted_set[of check] by (metis in_set_conv_nth mem_Collect_eq)
  have "unat p < 65535" using p(2) unsigned_less[of p, where ?'a = nat] by (simp add: word_unat_eq_iff)
  then have "i < length (counted check)" "counted check ! i = p"
    using i accepted_index_le[OF i(1)] by (auto simp: counted_def)
  then show ?thesis by (metis nth_mem)
qed

text \<open>The loops over the table when no entry fails.\<close>

lemma range_dips_all:
  assumes "\<And>dip. dip \<in> set dips \<Longrightarrow> dip_daddr dip \<noteq> any_addr ops \<Longrightarrow> \<not> range_failed (range_dip pfirst plast dip)"
  shows "range_dips ops pfirst plast dips =
    (True, map (\<lambda>dip. if dip_daddr dip = any_addr ops then dip else range_dip pfirst plast dip) dips)"
  using assms by (induction dips) (auto simp: Let_def)

definition range_row :: "'a addr_ops \<Rightarrow> u16 \<Rightarrow> u16 \<Rightarrow> 'a ff_rss_tbl_type \<Rightarrow> 'a ff_rss_tbl_type" where
  "range_row ops pfirst plast e = (if tbl_saddr e = any_addr ops then e
     else e\<lparr>dip_tbl := map (\<lambda>dip. if dip_daddr dip = any_addr ops then dip else range_dip pfirst plast dip) (dip_tbl e)\<rparr>)"

lemma range_tbl_all:
  assumes "\<And>e dip. e \<in> set tbl \<Longrightarrow> tbl_saddr e \<noteq> any_addr ops \<Longrightarrow> dip \<in> set (dip_tbl e) \<Longrightarrow>
    dip_daddr dip \<noteq> any_addr ops \<Longrightarrow> \<not> range_failed (range_dip pfirst plast dip)"
  shows "range_tbl ops pfirst plast tbl = (True, map (range_row ops pfirst plast) tbl)"
  using assms
proof (induction tbl)
  case (Cons e tbl)
  have "range_dips ops pfirst plast (dip_tbl e) =
      (True, map (\<lambda>dip. if dip_daddr dip = any_addr ops then dip else range_dip pfirst plast dip) (dip_tbl e))"
    if "tbl_saddr e \<noteq> any_addr ops" using Cons.prems[of e] that by (intro range_dips_all) auto
  moreover have "range_tbl ops pfirst plast tbl = (True, map (range_row ops pfirst plast) tbl)"
    by (intro Cons.IH Cons.prems) auto
  ultimately show ?case by (simp add: Let_def range_row_def)
qed simp

section \<open>Open addressing\<close>

lemma and_pow2_mask: "sz = 2 ^ m \<Longrightarrow> n AND (sz - 1) = n mod (sz :: nat)"
  by (simp add: take_bit_eq_mod [symmetric] take_bit_eq_mask mask_eq_exp_minus_1)

text \<open>The loop is a search through the rotation of the table that starts at the hash.\<close>

lemma probe_from:
  assumes "sz = 2 ^ m" "h < sz"
  shows "i < sz \<Longrightarrow> probe (sz - i) stop (sz - 1) h ((h + i) mod sz) =
    (case List.find (\<lambda>j. stop ((h + j) mod sz)) [i..<sz] of Some j \<Rightarrow> (h + j) mod sz | None \<Rightarrow> h)"
proof (induction "sz - i" arbitrary: i)
  case (Suc n)
  have next_idx: "((h + i) mod sz + 1) AND (sz - 1) = (h + Suc i) mod sz"
    by (subst and_pow2_mask[OF assms(1)]) (simp add: mod_simps)
  have wrap: "(h + Suc i) mod sz = h \<longleftrightarrow> Suc i = sz"
  proof
    assume "(h + Suc i) mod sz = h"
    then have "(h + Suc i) mod sz = (h + 0) mod sz" using assms(2) by simp
    then have "sz dvd Suc i" using mod_eq_dvd_iff_nat[of h "h + Suc i" sz] by simp
    then show "Suc i = sz" using Suc.prems by (auto dest: dvd_imp_le)
  qed (use assms(2) in simp)
  have n: "sz - i = Suc (sz - Suc i)" using Suc.prems by simp
  show ?case
  proof (cases "Suc i = sz")
    case True
    then show ?thesis unfolding n using next_idx wrap by (simp add: upt_conv_Cons Let_def)
  next
    case False
    then have "Suc i < sz" using Suc.prems by simp
    then show ?thesis
      unfolding n using Suc.hyps(1)[of "Suc i"] Suc.hyps(2) next_idx wrap False Suc.prems
      by (simp add: upt_conv_Cons Let_def)
  qed
qed simp

locale open_addressing =
  fixes sz :: nat and hash :: "'k \<Rightarrow> nat"
  assumes size_pow2: "\<exists>m. sz = 2 ^ m" and hash_less: "hash k < sz"
begin

definition find_slot :: "(nat \<Rightarrow> 'k option) \<Rightarrow> 'k \<Rightarrow> nat" where
  "find_slot keys k = probe sz (\<lambda>i. keys i = None \<or> keys i = Some k) (sz - 1) (hash k) (hash k)"

definition reachable :: "(nat \<Rightarrow> 'k option) \<Rightarrow> bool" where
  "reachable keys \<longleftrightarrow> (\<forall>i < sz. \<forall>k. keys i = Some k \<longrightarrow> find_slot keys k = i)"

definition stored :: "(nat \<Rightarrow> 'k option) \<Rightarrow> 'k set" where
  "stored keys = {k. \<exists>i < sz. keys i = Some k}"

lemma size_pos: "0 < sz"
  using size_pow2 by auto

lemma find_slot_eq:
  "find_slot keys k =
    (case List.find (\<lambda>j. keys ((hash k + j) mod sz) = None \<or> keys ((hash k + j) mod sz) = Some k) [0..<sz] of
       Some j \<Rightarrow> (hash k + j) mod sz | None \<Rightarrow> hash k)"
proof -
  obtain m where "sz = 2 ^ m" using size_pow2 by blast
  from probe_from[OF this hash_less size_pos, of "\<lambda>i. keys i = None \<or> keys i = Some k" k] show ?thesis
    using hash_less[of k] by (simp add: find_slot_def)
qed

lemma find_slot_less: "find_slot keys k < sz"
  using hash_less size_pos by (auto simp: find_slot_eq split: option.splits)

lemma rotate_onto: "i < sz \<Longrightarrow> \<exists>j < sz. (h + j) mod sz = i"
proof -
  assume i: "i < sz"
  have "(h + (i + sz - h mod sz) mod sz) mod sz = (h mod sz + (i + sz - h mod sz)) mod sz"
    by (simp add: mod_simps)
  also have "h mod sz + (i + sz - h mod sz) = i + sz"
    using less_imp_le[OF mod_less_divisor[OF size_pos, of h]] by simp
  finally show ?thesis using i size_pos by (intro exI[of _ "(i + sz - h mod sz) mod sz"]) simp
qed

lemma no_slot:
  assumes "List.find (\<lambda>j. keys ((h + j) mod sz) = None \<or> keys ((h + j) mod sz) = Some k) [0..<sz] = None" "i < sz"
  shows "keys i \<noteq> None" "keys i \<noteq> Some k"
proof -
  obtain j where "j < sz" "(h + j) mod sz = i" using rotate_onto[OF assms(2)] by blast
  then show "keys i \<noteq> None" "keys i \<noteq> Some k" using assms(1) by (auto simp: find_None_iff)
qed

text \<open>Either the slot found is free or holds the key, or every slot holds another key.\<close>

lemma find_slot_cases:
  "keys (find_slot keys k) = None \<or> keys (find_slot keys k) = Some k \<or>
   (\<forall>i < sz. keys i \<noteq> None \<and> keys i \<noteq> Some k)"
proof (cases "List.find (\<lambda>j. keys ((hash k + j) mod sz) = None \<or> keys ((hash k + j) mod sz) = Some k) [0..<sz]")
  case None
  then show ?thesis using no_slot[OF None] by blast
next
  case (Some j)
  then have "find_slot keys k = (hash k + j) mod sz" by (simp add: find_slot_eq)
  then show ?thesis using Some by (auto simp: find_Some_iff)
qed

lemma find_slot_stored:
  assumes "reachable keys"
  shows "keys (find_slot keys k) = Some k \<longleftrightarrow> k \<in> stored keys"
  using assms find_slot_less[of keys k] by (auto simp: reachable_def stored_def)

lemma full_card:
  assumes "reachable keys" "\<forall>i < sz. keys i \<noteq> None"
  shows "card (stored keys) = sz"
proof -
  have "inj_on (\<lambda>i. the (keys i)) {..<sz}"
    using assms by (intro inj_onI) (metis lessThan_iff option.collapse reachable_def)
  moreover have "(\<lambda>i. the (keys i)) ` {..<sz} = stored keys"
    using assms(2) by (force simp: stored_def image_iff)
  ultimately show ?thesis by (metis card_image card_lessThan)
qed

lemma find_slot_room:
  assumes "reachable keys" "k \<in> stored keys \<or> card (stored keys) < sz"
  shows "keys (find_slot keys k) = None \<or> keys (find_slot keys k) = Some k"
  using find_slot_cases[of keys k] full_card[OF assms(1)] assms(2) by (auto simp: stored_def)

text \<open>Filling the slot found changes no other search.\<close>

lemma find_slot_update:
  assumes "reachable keys" "keys p = None" "k' \<noteq> k" "k' \<in> stored keys"
  shows "find_slot (keys(p := Some k)) k' = find_slot keys k'"
proof -
  let ?P = "\<lambda>ks j. ks ((hash k' + j) mod sz) = None \<or> ks ((hash k' + j) mod sz) = Some k'"
  have hit: "keys (find_slot keys k') = Some k'" using find_slot_stored[OF assms(1)] assms(4) by simp
  obtain j where j: "List.find (?P keys) [0..<sz] = Some j" "find_slot keys k' = (hash k' + j) mod sz"
  proof (cases "List.find (?P keys) [0..<sz]")
    case None
    then show ?thesis using assms(4) no_slot(2)[OF None] by (auto simp: stored_def)
  next
    case (Some j)
    then show ?thesis using that by (simp add: find_slot_eq)
  qed
  then have "j < sz" "?P keys j" "\<forall>i < j. \<not> ?P keys i" by (auto simp: find_Some_iff)
  then have "List.find (?P (keys(p := Some k))) [0..<sz] = Some j"
    using hit j(2) assms(2,3) by (auto simp: find_Some_iff intro!: exI[of _ j])
  then show ?thesis using j(2) by (simp add: find_slot_eq)
qed

lemma view_cong:
  assumes "\<And>i. i < sz \<Longrightarrow> keys i = keys' i"
  shows "find_slot keys = find_slot keys'" "reachable keys = reachable keys'" "stored keys = stored keys'"
proof -
  show f: "find_slot keys = find_slot keys'"
  proof
    fix k
    have "List.find (\<lambda>j. keys ((hash k + j) mod sz) = None \<or> keys ((hash k + j) mod sz) = Some k) [0..<sz] =
        List.find (\<lambda>j. keys' ((hash k + j) mod sz) = None \<or> keys' ((hash k + j) mod sz) = Some k) [0..<sz]"
      using assms size_pos by (intro find_cong) auto
    then show "find_slot keys k = find_slot keys' k" by (simp only: find_slot_eq)
  qed
  show "reachable keys = reachable keys'" "stored keys = stored keys'"
    using assms f by (auto simp: reachable_def stored_def)
qed

lemma insert_reachable:
  assumes "reachable keys" "keys (find_slot keys k) = None"
  shows "reachable (keys(find_slot keys k := Some k))"
    "find_slot (keys(find_slot keys k := Some k)) k = find_slot keys k"
    "stored (keys(find_slot keys k := Some k)) = insert k (stored keys)"
proof -
  let ?p = "find_slot keys k"
  let ?ks = "keys(?p := Some k)"
  let ?P = "\<lambda>ks j. ks ((hash k + j) mod sz) = None \<or> ks ((hash k + j) mod sz) = Some k"
  have "List.find (?P ?ks) [0..<sz] = List.find (?P keys) [0..<sz]"
  proof (cases "List.find (?P keys) [0..<sz]")
    case None
    then show ?thesis using assms(2) find_slot_less no_slot(1)[OF None] by blast
  next
    case (Some j)
    then have p: "?p = (hash k + j) mod sz" by (simp add: find_slot_eq)
    have "j < sz" "\<forall>i < j. \<not> ?P keys i" using Some by (auto simp: find_Some_iff)
    then have "List.find (?P ?ks) [0..<sz] = Some j"
      using p assms(2) by (auto simp: find_Some_iff intro!: exI[of _ j])
    then show ?thesis using Some by simp
  qed
  then show same: "find_slot ?ks k = ?p" by (simp add: find_slot_eq)
  show "stored ?ks = insert k (stored keys)"
    using assms(2) find_slot_less[of keys k] by (auto simp: stored_def) (metis option.distinct(1))
  show "reachable ?ks"
    unfolding reachable_def
  proof (intro allI impI)
    fix i k' assume i: "i < sz" "?ks i = Some k'"
    show "find_slot ?ks k' = i"
    proof (cases "k' = k")
      case True
      have "k \<notin> stored keys" using find_slot_stored[OF assms(1), of k] assms(2) by auto
      then show ?thesis using i True same by (auto simp: stored_def split: if_splits)
    next
      case False
      then have "keys i = Some k'" using i by (auto split: if_splits)
      then show ?thesis
        using find_slot_update[OF assms(1,2) False] i assms(1) by (auto simp: stored_def reachable_def)
    qed
  qed
qed

text \<open>Writing the key into the slot found for it, free or already its own.\<close>

lemma put:
  assumes "reachable keys" "keys (find_slot keys k) = None \<or> keys (find_slot keys k) = Some k"
    and view: "\<And>i. i < sz \<Longrightarrow> keys' i = (keys(find_slot keys k := Some k)) i"
  shows "reachable keys'" "find_slot keys' k = find_slot keys k" "stored keys' = insert k (stored keys)"
    "k' \<in> stored keys \<Longrightarrow> k' \<noteq> k \<Longrightarrow> find_slot keys' k' = find_slot keys k' \<and> find_slot keys k' \<noteq> find_slot keys k"
proof -
  let ?ks = "keys(find_slot keys k := Some k)"
  have c: "find_slot keys' = find_slot ?ks" "reachable keys' = reachable ?ks" "stored keys' = stored ?ks"
    using view_cong[of keys' ?ks] view by auto
  have "reachable ?ks \<and> find_slot ?ks k = find_slot keys k \<and> stored ?ks = insert k (stored keys)"
  proof (cases "keys (find_slot keys k) = None")
    case True
    then show ?thesis using insert_reachable[OF assms(1)] by blast
  next
    case False
    then have "keys (find_slot keys k) = Some k" using assms(2) by metis
    moreover from this have "?ks = keys" by (simp add: fun_upd_idem)
    ultimately show ?thesis using assms(1) find_slot_stored[OF assms(1), of k] by (simp add: insert_absorb)
  qed
  then show "reachable keys'" "find_slot keys' k = find_slot keys k" "stored keys' = insert k (stored keys)"
    using c by auto
  assume k': "k' \<in> stored keys" "k' \<noteq> k"
  then have hit: "keys (find_slot keys k') = Some k'" using find_slot_stored[OF assms(1)] by simp
  then have ne: "find_slot keys k' \<noteq> find_slot keys k" using assms(2) k'(2) by force
  have "find_slot ?ks k' = find_slot keys k'"
  proof (cases "keys (find_slot keys k) = None")
    case True
    then show ?thesis using find_slot_update[OF assms(1) _ k'(2,1)] by blast
  next
    case False
    then have "keys (find_slot keys k) = Some k" using assms(2) by metis
    then show ?thesis by (simp add: fun_upd_idem)
  qed
  then show "find_slot keys' k' = find_slot keys k' \<and> find_slot keys k' \<noteq> find_slot keys k" using c ne by simp
qed

end

section \<open>The two-level table as a map\<close>

definition tbl_keys :: "'a addr_ops \<Rightarrow> 'a ff_rss_tbl_type list \<Rightarrow> nat \<Rightarrow> ('a \<times> u16) option" where
  "tbl_keys ops tbl i =
    (if tbl_saddr (tbl ! i) = any_addr ops then None else Some (tbl_saddr (tbl ! i), tbl_sport (tbl ! i)))"

definition dip_keys :: "'a addr_ops \<Rightarrow> 'a ff_rss_tbl_dip_type list \<Rightarrow> nat \<Rightarrow> 'a option" where
  "dip_keys ops dips i = (if dip_daddr (dips ! i) = any_addr ops then None else Some (dip_daddr (dips ! i)))"

locale rss_addr =
  fixes ops :: "'a addr_ops"
  assumes saddr_idx_less: "saddr_idx ops s p < 16" and daddr_idx_less: "daddr_idx ops d < 4"
begin

sublocale outer: open_addressing 16 "\<lambda>(s, p). saddr_idx ops s p"
  using saddr_idx_less by unfold_locales (auto intro: exI[of _ 4])

sublocale inner: open_addressing 4 "daddr_idx ops"
  using daddr_idx_less by unfold_locales (auto intro: exI[of _ 2])

text \<open>The invariant of the table: its dimensions, every key reachable, and free slots blank.\<close>

definition dips_ok :: "'a ff_rss_tbl_dip_type list \<Rightarrow> bool" where
  "dips_ok dips \<longleftrightarrow> length dips = 4 \<and> inner.reachable (dip_keys ops dips) \<and>
     (\<forall>i < 4. dip_keys ops dips i = None \<longrightarrow> dips ! i = empty_dip ops)"

definition tbl_ok :: "'a ff_rss_tbl_type list \<Rightarrow> bool" where
  "tbl_ok tbl \<longleftrightarrow> length tbl = 16 \<and> outer.reachable (tbl_keys ops tbl) \<and>
     (\<forall>i < 16. dips_ok (dip_tbl (tbl ! i))) \<and>
     (\<forall>i < 16. tbl_keys ops tbl i = None \<longrightarrow> inner.stored (dip_keys ops (dip_tbl (tbl ! i))) = {})"

lemma probe_saddr_slot:
  "s \<noteq> any_addr ops \<Longrightarrow> probe_saddr ops tbl s p = outer.find_slot (tbl_keys ops tbl) (s, p)"
  unfolding probe_saddr_def outer.find_slot_def tbl_keys_def Let_def
  by (simp, intro arg_cong2[where f = "\<lambda>f x. probe 16 f 15 x x"] ext refl) auto

lemma probe_daddr_slot:
  "d \<noteq> any_addr ops \<Longrightarrow> probe_daddr ops dips d = inner.find_slot (dip_keys ops dips) d"
  unfolding probe_daddr_def inner.find_slot_def dip_keys_def Let_def
  by (simp, intro arg_cong2[where f = "\<lambda>f x. probe 4 f 3 x x"] ext refl) auto

text \<open>The entry of a local address in one row.\<close>

definition row_lookup :: "'a ff_rss_tbl_dip_type list \<Rightarrow> 'a \<Rightarrow> 'a ff_rss_tbl_dip_type option" where
  "row_lookup dips d = (let i = inner.find_slot (dip_keys ops dips) d
     in if dip_keys ops dips i = Some d then Some (dips ! i) else None)"

lemma tbl_lookup_slots:
  assumes "s \<noteq> any_addr ops" "d \<noteq> any_addr ops"
  shows "tbl_lookup ops tbl s d p =
    (let i = outer.find_slot (tbl_keys ops tbl) (s, p)
     in if tbl_keys ops tbl i = Some (s, p) then row_lookup (dip_tbl (tbl ! i)) d else None)"
  using assms
  by (auto simp: tbl_lookup_def Let_def probe_saddr_slot probe_daddr_slot row_lookup_def tbl_keys_def dip_keys_def)

lemma row_lookup_stored:
  "inner.reachable (dip_keys ops dips) \<Longrightarrow> row_lookup dips d \<noteq> None \<longleftrightarrow> d \<in> inner.stored (dip_keys ops dips)"
  using inner.find_slot_stored by (auto simp: row_lookup_def Let_def)

lemma row_insert:
  assumes ok: "dips_ok dips" and d: "d \<noteq> any_addr ops" "dip_daddr dip = d"
    and free: "dip_keys ops dips (inner.find_slot (dip_keys ops dips) d) = None"
  defines "dips' \<equiv> dips[inner.find_slot (dip_keys ops dips) d := dip]"
  shows "dips_ok dips'" "inner.stored (dip_keys ops dips') = insert d (inner.stored (dip_keys ops dips))"
    "row_lookup dips' d' = (if d' = d then Some dip else row_lookup dips d')"
proof -
  let ?k = "dip_keys ops dips" and ?i = "inner.find_slot (dip_keys ops dips) d"
  have len: "length dips = 4" "?i < length dips" and re: "inner.reachable ?k"
    using ok inner.find_slot_less[of ?k d] by (auto simp: dips_ok_def)
  have keys: "dip_keys ops dips' j = (?k(?i := Some d)) j" if "j < 4" for j
    using len d that by (auto simp: dip_keys_def dips'_def)
  note cong = inner.view_cong[of "dip_keys ops dips'" "?k(?i := Some d)", OF keys]
  note ins = inner.insert_reachable[OF re free]
  show st: "inner.stored (dip_keys ops dips') = insert d (inner.stored ?k)" using cong(3) ins(3) by simp
  have re': "inner.reachable (dip_keys ops dips')" using cong(2) ins(1) by simp
  then show "dips_ok dips'"
    using ok keys len by (auto simp: dips_ok_def dips'_def nth_list_update split: if_splits)
  show "row_lookup dips' d' = (if d' = d then Some dip else row_lookup dips d')"
  proof (cases "d' = d")
    case True
    then show ?thesis using cong(1) ins(2) keys[of ?i] len by (simp add: row_lookup_def Let_def dips'_def)
  next
    case False
    show ?thesis
    proof (cases "d' \<in> inner.stored ?k")
      case True
      then have "inner.find_slot (dip_keys ops dips') d' = inner.find_slot ?k d'"
        using inner.find_slot_update[OF re free False] cong(1) by simp
      moreover have "inner.find_slot ?k d' \<noteq> ?i"
        using inner.find_slot_stored[OF re, of d'] True free by auto
      ultimately show ?thesis
        using False keys[OF inner.find_slot_less[of ?k d']] by (simp add: row_lookup_def Let_def dips'_def)
    next
      case notin: False
      then show ?thesis using row_lookup_stored[OF re', of d'] row_lookup_stored[OF re, of d'] st False by auto
    qed
  qed
qed

definition row_of :: "'a ff_rss_tbl_type list \<Rightarrow> 'a \<times> u16 \<Rightarrow> 'a ff_rss_tbl_dip_type list" where
  "row_of tbl k = dip_tbl (tbl ! outer.find_slot (tbl_keys ops tbl) k)"

definition row_stored :: "'a ff_rss_tbl_type list \<Rightarrow> 'a \<times> u16 \<Rightarrow> 'a set" where
  "row_stored tbl k = (if k \<in> outer.stored (tbl_keys ops tbl) then inner.stored (dip_keys ops (row_of tbl k)) else {})"

lemma tbl_lookup_row:
  assumes "tbl_ok tbl" "s \<noteq> any_addr ops" "d \<noteq> any_addr ops"
  shows "tbl_lookup ops tbl s d p =
    (if (s, p) \<in> outer.stored (tbl_keys ops tbl) then row_lookup (row_of tbl (s, p)) d else None)"
  using assms outer.find_slot_stored[of "tbl_keys ops tbl" "(s, p)"]
  by (simp add: tbl_lookup_slots Let_def row_of_def tbl_ok_def)

lemma row_of_ok: "tbl_ok tbl \<Longrightarrow> dips_ok (row_of tbl k)"
  using outer.find_slot_less by (simp add: tbl_ok_def row_of_def)

lemma tbl_insert_eq:
  assumes ok: "tbl_ok tbl" and sd: "s \<noteq> any_addr ops" "d \<noteq> any_addr ops"
    and i: "i = outer.find_slot (tbl_keys ops tbl) (s, p)"
    and room: "tbl_keys ops tbl i = None \<or> tbl_keys ops tbl i = Some (s, p)"
    and j: "j = inner.find_slot (dip_keys ops (dip_tbl (tbl ! i))) d"
  shows "tbl_insert ops check s p d tbl =
    (if dip_keys ops (dip_tbl (tbl ! i)) j \<noteq> None then tbl
     else tbl[i := (tbl ! i)\<lparr>dip_tbl := (dip_tbl (tbl ! i))[j := fill_dip check d (empty_dip ops)],
                             tbl_saddr := s, tbl_sport := p, tbl_num := tbl_num (tbl ! i) + 1\<rparr>])"
proof -
  have "i < 16" "j < 4" using i j outer.find_slot_less inner.find_slot_less by auto
  then have "dip_keys ops (dip_tbl (tbl ! i)) j = None \<Longrightarrow> dip_tbl (tbl ! i) ! j = empty_dip ops"
    using ok by (simp add: tbl_ok_def dips_ok_def)
  moreover have "\<not> (tbl_saddr (tbl ! i) \<noteq> any_addr ops \<and> (tbl_saddr (tbl ! i) \<noteq> s \<or> tbl_sport (tbl ! i) \<noteq> p))"
    using room by (auto simp: tbl_keys_def split: if_splits)
  moreover have "probe_saddr ops tbl s p = i" "probe_daddr ops (dip_tbl (tbl ! i)) d = j"
    using sd i j probe_saddr_slot probe_daddr_slot by auto
  moreover have "dip_daddr (dip_tbl (tbl ! i) ! j) \<noteq> any_addr ops \<longleftrightarrow> dip_keys ops (dip_tbl (tbl ! i)) j \<noteq> None"
    by (simp add: dip_keys_def)
  ultimately show ?thesis by (simp only: tbl_insert_def Let_def) (simp split: if_split)
qed

text \<open>Writing one row of the table.\<close>

lemma tbl_put:
  assumes ok: "tbl_ok tbl" and s: "s \<noteq> any_addr ops"
    and i: "i = outer.find_slot (tbl_keys ops tbl) (s, p)"
    and fit: "tbl_keys ops tbl i = None \<or> tbl_keys ops tbl i = Some (s, p)"
    and e: "tbl_saddr e = s" "tbl_sport e = p" "dips_ok (dip_tbl e)"
    and tbl': "tbl' = tbl[i := e]"
  shows "tbl_ok tbl'" "outer.stored (tbl_keys ops tbl') = insert (s, p) (outer.stored (tbl_keys ops tbl))"
    "k \<in> outer.stored (tbl_keys ops tbl') \<Longrightarrow> row_of tbl' k = (if k = (s, p) then dip_tbl e else row_of tbl k)"
proof -
  let ?K = "tbl_keys ops tbl" and ?K' = "tbl_keys ops tbl'"
  have len: "length tbl = 16" "i < 16" and re: "outer.reachable ?K"
    using ok i outer.find_slot_less by (auto simp: tbl_ok_def)
  have keys: "?K' x = (?K(i := Some (s, p))) x" if "x < 16" for x
    using that len e s by (auto simp: tbl_keys_def tbl')
  note put = outer.put[OF re fit[unfolded i] keys[unfolded i]]
  show st: "outer.stored ?K' = insert (s, p) (outer.stored ?K)" using put(3) .
  have nth: "tbl' ! x = (if x = i then e else tbl ! x)" if "x < 16" for x
    using that len by (simp add: tbl')
  show "tbl_ok tbl'"
    unfolding tbl_ok_def
  proof (intro conjI allI impI)
    fix x :: nat
    assume x: "x < 16"
    then show "dips_ok (dip_tbl (tbl' ! x))" using e ok by (simp add: nth tbl_ok_def)
    assume "?K' x = None"
    then have "x \<noteq> i" "?K x = None" using x keys by (auto split: if_splits)
    then show "inner.stored (dip_keys ops (dip_tbl (tbl' ! x))) = {}" using x ok by (simp add: nth tbl_ok_def)
  qed (use len put(1) in \<open>auto simp: tbl'\<close>)
  assume k: "k \<in> outer.stored ?K'"
  show "row_of tbl' k = (if k = (s, p) then dip_tbl e else row_of tbl k)"
  proof (cases "k = (s, p)")
    case True
    then show ?thesis using put(2) i nth len by (simp add: row_of_def)
  next
    case False
    then have "k \<in> outer.stored ?K" using k st by simp
    from put(4)[OF _ this False] show ?thesis
      using False nth[OF outer.find_slot_less] i by (simp add: row_of_def)
  qed
qed

text \<open>The effect of one configuration entry that finds room.\<close>

lemma row_stored_slot:
  assumes "tbl_ok tbl" "tbl_keys ops tbl (outer.find_slot (tbl_keys ops tbl) k) = None
    \<or> tbl_keys ops tbl (outer.find_slot (tbl_keys ops tbl) k) = Some k"
  shows "inner.stored (dip_keys ops (row_of tbl k)) = row_stored tbl k"
  using assms outer.find_slot_stored[of "tbl_keys ops tbl" k] outer.find_slot_less[of "tbl_keys ops tbl" k]
  by (auto simp: row_stored_def row_of_def tbl_ok_def)

lemma tbl_insert_step:
  assumes ok: "tbl_ok tbl" and sd: "s \<noteq> any_addr ops" "d \<noteq> any_addr ops"
    and room: "(s, p) \<in> outer.stored (tbl_keys ops tbl) \<or> card (outer.stored (tbl_keys ops tbl)) < 16"
      "d \<in> row_stored tbl (s, p) \<or> card (row_stored tbl (s, p)) < 4"
    and tbl': "tbl' = tbl_insert ops check s p d tbl"
  shows "tbl_ok tbl' \<and> outer.stored (tbl_keys ops tbl') = insert (s, p) (outer.stored (tbl_keys ops tbl)) \<and>
    row_stored tbl' = (row_stored tbl)((s, p) := insert d (row_stored tbl (s, p))) \<and>
    (s' \<noteq> any_addr ops \<longrightarrow> d' \<noteq> any_addr ops \<longrightarrow> tbl_lookup ops tbl' s' d' p' =
      (if (s', p', d') = (s, p, d) \<and> tbl_lookup ops tbl s d p = None then Some (fill_dip check d (empty_dip ops))
       else tbl_lookup ops tbl s' d' p'))"
proof -
  define i where "i = outer.find_slot (tbl_keys ops tbl) (s, p)"
  define row where "row = row_of tbl (s, p)"
  define j where "j = inner.find_slot (dip_keys ops row) d"
  have fit: "tbl_keys ops tbl i = None \<or> tbl_keys ops tbl i = Some (s, p)"
    using outer.find_slot_room[OF _ room(1)] ok by (simp add: i_def tbl_ok_def)
  have rs: "inner.stored (dip_keys ops row) = row_stored tbl (s, p)"
    using row_stored_slot[OF ok] fit by (simp add: row_def i_def)
  have dok: "dips_ok row" "dip_tbl (tbl ! i) = row" using row_of_ok[OF ok] by (auto simp: row_def row_of_def i_def)
  then have re: "inner.reachable (dip_keys ops row)" by (simp add: dips_ok_def)
  have fit2: "dip_keys ops row j = None \<or> dip_keys ops row j = Some d"
    using inner.find_slot_room[OF re] room(2) rs by (simp add: j_def)
  have stored: "dip_keys ops row j = Some d \<longleftrightarrow> d \<in> row_stored tbl (s, p)"
    using inner.find_slot_stored[OF re] rs by (simp add: j_def)
  note eq = tbl_insert_eq[OF ok sd i_def fit, of j check, unfolded dok(2), OF j_def]
  show ?thesis
  proof (cases "dip_keys ops row j = None")
    case False
    then have "tbl' = tbl" "d \<in> row_stored tbl (s, p)" using eq tbl' fit2 stored by auto
    moreover from this have "(s, p) \<in> outer.stored (tbl_keys ops tbl)" by (auto simp: row_stored_def split: if_splits)
    moreover from calculation have "tbl_lookup ops tbl s d p \<noteq> None"
      using tbl_lookup_row[OF ok sd] row_lookup_stored[OF re, of d] rs by (simp add: row_def)
    ultimately show ?thesis using ok by (auto simp: insert_absorb)
  next
    case True
    define dip where "dip = fill_dip check d (empty_dip ops)"
    define e where "e = (tbl ! i)\<lparr>dip_tbl := row[j := dip], tbl_saddr := s, tbl_sport := p, tbl_num := tbl_num (tbl ! i) + 1\<rparr>"
    have "dip_daddr dip = d" by (simp add: dip_def)
    note ri = row_insert[OF dok(1) sd(2) this True[unfolded j_def], folded j_def]
    have te: "tbl' = tbl[i := e]" using eq True by (simp add: tbl' e_def dip_def)
    have "tbl_saddr e = s" "tbl_sport e = p" "dips_ok (dip_tbl e)" using ri(1) by (auto simp: e_def)
    note put = tbl_put[OF ok sd(1) i_def fit this te]
    have rlook: "row_lookup row x = None" if "(s, p) \<notin> outer.stored (tbl_keys ops tbl)" for x
      using row_lookup_stored[OF re, of x] rs that by (auto simp: row_stored_def)
    have row': "dip_tbl e = row[j := dip]" by (simp add: e_def)
    have "row_stored tbl' k = ((row_stored tbl)((s, p) := insert d (row_stored tbl (s, p)))) k" for k
      using put(2) put(3)[of k] ri(2) rs row' by (auto simp: row_stored_def)
    moreover have "d \<notin> row_stored tbl (s, p)" using stored True by simp
    moreover from this have "tbl_lookup ops tbl s d p = None"
      using tbl_lookup_row[OF ok sd] row_lookup_stored[OF re, of d] rs by (auto simp: row_def)
    moreover have "tbl_lookup ops tbl' s' d' p' = (if (s', p', d') = (s, p, d) then Some dip else tbl_lookup ops tbl s' d' p')"
      if "s' \<noteq> any_addr ops" "d' \<noteq> any_addr ops"
      using tbl_lookup_row[OF ok that] tbl_lookup_row[OF put(1) that] put(2) put(3)[of "(s', p')"] ri(3)[of d'] row'
        rlook[of d'] by (auto simp: row_def)
    ultimately show ?thesis using put by (simp add: dip_def fun_eq_iff)
  qed
qed

end

section \<open>The table built from a list of entries\<close>

text \<open>The capacity of the table: no address is the wildcard, at most 16 remote ends, and at most 4 local
  addresses for each of them.\<close>

definition remotes :: "('a \<times> u16 \<times> 'a) list \<Rightarrow> ('a \<times> u16) set" where
  "remotes ts = set (map (\<lambda>(s, p, d). (s, p)) ts)"

definition locals_of :: "('a \<times> u16 \<times> 'a) list \<Rightarrow> 'a \<times> u16 \<Rightarrow> 'a set" where
  "locals_of ts k = set (map (\<lambda>(s, p, d). d) (filter (\<lambda>(s, p, d). (s, p) = k) ts))"

definition triples_fit :: "'a addr_ops \<Rightarrow> ('a \<times> u16 \<times> 'a) list \<Rightarrow> bool" where
  "triples_fit ops ts \<longleftrightarrow> list_all (\<lambda>(s, p, d). s \<noteq> any_addr ops \<and> d \<noteq> any_addr ops) ts \<and>
     card (remotes ts) \<le> 16 \<and> list_all (\<lambda>(s, p, d). card (locals_of ts (s, p)) \<le> 4) ts"

definition tbl_of :: "'a addr_ops \<Rightarrow> (('a \<times> u16 \<times> 'a) \<times> (u16 \<Rightarrow> bool)) list \<Rightarrow> 'a ff_rss_tbl_type list" where
  "tbl_of ops cs = fold (\<lambda>((s, p, d), check). tbl_insert ops check s p d) cs (empty_tbl ops)"

lemma remotes_snoc: "remotes (ts @ [(s, p, d)]) = insert (s, p) (remotes ts)"
  by (auto simp: remotes_def)

lemma locals_of_snoc: "locals_of (ts @ [(s, p, d)]) = (locals_of ts)((s, p) := insert d (locals_of ts (s, p)))"
  by (auto simp: locals_of_def fun_eq_iff)

lemma card_insert_room: "finite A \<Longrightarrow> card (insert x A) \<le> n \<Longrightarrow> x \<in> A \<or> card A < n"
  by (cases "x \<in> A") auto

lemma triples_fit_snoc:
  assumes "triples_fit ops (ts @ [(s, p, d)])"
  shows "triples_fit ops ts" "s \<noteq> any_addr ops" "d \<noteq> any_addr ops"
    "(s, p) \<in> remotes ts \<or> card (remotes ts) < 16" "d \<in> locals_of ts (s, p) \<or> card (locals_of ts (s, p)) < 4"
proof -
  have fin: "finite (remotes ts)" "finite (locals_of ts k)" for k by (auto simp: remotes_def locals_of_def)
  have fit: "card (insert (s, p) (remotes ts)) \<le> 16" "card (insert d (locals_of ts (s, p))) \<le> 4"
    "\<forall>(s', p', d') \<in> set ts. card (locals_of (ts @ [(s, p, d)]) (s', p')) \<le> 4"
    using assms by (auto simp: triples_fit_def list_all_iff remotes_snoc locals_of_snoc)
  have "locals_of ts k \<subseteq> locals_of (ts @ [(s, p, d)]) k" for k by (auto simp: locals_of_def)
  then have "card (locals_of ts k) \<le> card (locals_of (ts @ [(s, p, d)]) k)" for k
    by (rule card_mono[rotated]) (simp add: locals_of_def)
  with fit(3) have "\<forall>(s', p', d') \<in> set ts. card (locals_of ts (s', p')) \<le> 4" by (fastforce intro: order_trans)
  moreover have "card (remotes ts) \<le> 16" using fit(1) fin(1) by (meson card_insert_le order_trans)
  ultimately show "triples_fit ops ts" using assms by (auto simp: triples_fit_def list_all_iff)
  show "s \<noteq> any_addr ops" "d \<noteq> any_addr ops" using assms by (auto simp: triples_fit_def)
  show "(s, p) \<in> remotes ts \<or> card (remotes ts) < 16" "d \<in> locals_of ts (s, p) \<or> card (locals_of ts (s, p)) < 4"
    using card_insert_room[OF fin(1) fit(1)] card_insert_room[OF fin(2) fit(2)] by simp_all
qed

lemma find_snoc: "List.find P (xs @ [x]) = (case List.find P xs of None \<Rightarrow> if P x then Some x else None | Some y \<Rightarrow> Some y)"
  by (induction xs) auto

context rss_addr
begin

lemma empty_tbl_ok: "tbl_ok (empty_tbl ops)" "outer.stored (tbl_keys ops (empty_tbl ops)) = {}"
  by (auto simp: tbl_ok_def empty_tbl_def dips_ok_def outer.reachable_def inner.reachable_def tbl_keys_def
      dip_keys_def empty_dip_def outer.stored_def inner.stored_def)

lemma tbl_of_spec:
  assumes "triples_fit ops (map fst cs)"
  shows "tbl_ok (tbl_of ops cs) \<and> outer.stored (tbl_keys ops (tbl_of ops cs)) = remotes (map fst cs) \<and>
    row_stored (tbl_of ops cs) = locals_of (map fst cs) \<and>
    (\<forall>s d p. s \<noteq> any_addr ops \<longrightarrow> d \<noteq> any_addr ops \<longrightarrow> tbl_lookup ops (tbl_of ops cs) s d p =
      map_option (\<lambda>(_, check). fill_dip check d (empty_dip ops)) (List.find (\<lambda>(t, _). t = (s, p, d)) cs))"
  using assms
proof (induction cs rule: rev_induct)
  case Nil
  have "tbl_lookup ops (empty_tbl ops) s d p = None" if "s \<noteq> any_addr ops" "d \<noteq> any_addr ops" for s d p
    using tbl_lookup_row[OF empty_tbl_ok(1) that] empty_tbl_ok(2) by simp
  then show ?case using empty_tbl_ok by (auto simp: tbl_of_def remotes_def locals_of_def row_stored_def)
next
  case (snoc c cs)
  obtain s p d check where c: "c = ((s, p, d), check)" by (cases c) auto
  note fit = triples_fit_snoc[OF snoc.prems[unfolded c, simplified]]
  note IH = snoc.IH[OF fit(1)]
  have tbl: "tbl_of ops (cs @ [c]) = tbl_insert ops check s p d (tbl_of ops cs)" by (simp add: tbl_of_def c)
  have room: "(s, p) \<in> outer.stored (tbl_keys ops (tbl_of ops cs)) \<or> card (outer.stored (tbl_keys ops (tbl_of ops cs))) < 16"
    "d \<in> row_stored (tbl_of ops cs) (s, p) \<or> card (row_stored (tbl_of ops cs) (s, p)) < 4"
    using IH fit(4,5) by auto
  note step = tbl_insert_step[OF conjunct1[OF IH] fit(2,3) room tbl]
  have "tbl_lookup ops (tbl_of ops (cs @ [c])) s' d' p' =
      map_option (\<lambda>(_, check). fill_dip check d' (empty_dip ops)) (List.find (\<lambda>(t, _). t = (s', p', d')) (cs @ [c]))"
    if "s' \<noteq> any_addr ops" "d' \<noteq> any_addr ops" for s' d' p'
    using step[of s' d' p'] IH that fit(2,3) by (auto simp: find_snoc c split: option.splits)
  then show ?case using step IH by (simp add: c remotes_snoc locals_of_snoc)
qed

text \<open>Every entry in use is what the lookup of its triple returns, and narrowing keeps the keys.\<close>

lemma entry_lookup:
  assumes ok: "tbl_ok tbl" and e: "e \<in> set tbl" "tbl_saddr e \<noteq> any_addr ops"
    and dip: "dip \<in> set (dip_tbl e)" "dip_daddr dip \<noteq> any_addr ops"
  shows "tbl_lookup ops tbl (tbl_saddr e) (dip_daddr dip) (tbl_sport e) = Some dip"
proof -
  obtain i where i: "i < 16" "tbl ! i = e" using ok e by (auto simp: tbl_ok_def in_set_conv_nth)
  have dok: "dips_ok (dip_tbl e)" using ok i by (auto simp: tbl_ok_def)
  obtain j where j: "j < 4" "dip_tbl e ! j = dip" using dok dip by (auto simp: dips_ok_def in_set_conv_nth)
  have "tbl_keys ops tbl i = Some (tbl_saddr e, tbl_sport e)" using i e by (simp add: tbl_keys_def)
  then have "outer.find_slot (tbl_keys ops tbl) (tbl_saddr e, tbl_sport e) = i"
    using ok i(1) unfolding tbl_ok_def outer.reachable_def by blast
  moreover have k: "dip_keys ops (dip_tbl e) j = Some (dip_daddr dip)" using j dip by (simp add: dip_keys_def)
  then have "inner.find_slot (dip_keys ops (dip_tbl e)) (dip_daddr dip) = j"
    using dok j(1) unfolding dips_ok_def inner.reachable_def by blast
  ultimately show ?thesis using e i j k dip by (simp add: tbl_lookup_slots row_lookup_def tbl_keys_def Let_def)
qed

lemma range_row_lookup:
  assumes ok: "tbl_ok tbl" and sd: "s \<noteq> any_addr ops" "d \<noteq> any_addr ops"
  shows "tbl_lookup ops (map (range_row ops pfirst plast) tbl) s d p =
    map_option (range_dip pfirst plast) (tbl_lookup ops tbl s d p)"
proof -
  let ?tbl = "map (range_row ops pfirst plast) tbl"
  have len: "length tbl = 16" using ok by (simp add: tbl_ok_def)
  have "tbl_keys ops ?tbl i = tbl_keys ops tbl i" if "i < 16" for i
    using that len by (simp add: tbl_keys_def range_row_def)
  then have slot: "outer.find_slot (tbl_keys ops ?tbl) = outer.find_slot (tbl_keys ops tbl)" by (rule outer.view_cong)
  define i where "i = outer.find_slot (tbl_keys ops tbl) (s, p)"
  have i: "i < 16" using outer.find_slot_less by (simp add: i_def)
  define row where "row = dip_tbl (tbl ! i)"
  let ?row = "map (\<lambda>dip. if dip_daddr dip = any_addr ops then dip else range_dip pfirst plast dip) row"
  have lenr: "length row = 4" using ok i by (simp add: tbl_ok_def dips_ok_def row_def)
  have keys: "dip_keys ops ?row j = dip_keys ops row j" if "j < 4" for j using that lenr by (simp add: dip_keys_def)
  then have slotr: "inner.find_slot (dip_keys ops ?row) = inner.find_slot (dip_keys ops row)" by (rule inner.view_cong)
  define j where "j = inner.find_slot (dip_keys ops row) d"
  have j: "j < 4" using inner.find_slot_less by (simp add: j_def)
  have "row_lookup ?row d = map_option (range_dip pfirst plast) (row_lookup row d)"
    using keys[OF j] j lenr sd by (simp add: row_lookup_def Let_def slotr j_def[symmetric]) (simp add: dip_keys_def)
  moreover have "tbl_keys ops tbl i = Some (s, p) \<Longrightarrow> dip_tbl (?tbl ! i) = ?row"
    using i len sd by (auto simp: tbl_keys_def range_row_def row_def split: if_splits)
  moreover have "tbl_keys ops ?tbl i = tbl_keys ops tbl i" using i len by (simp add: tbl_keys_def range_row_def)
  ultimately show ?thesis
    by (simp add: tbl_lookup_slots[OF sd] slot Let_def i_def[symmetric] row_def[symmetric])
qed

lemma narrowed:
  assumes fit: "triples_fit ops (map fst cs)" and r: "pfirst < plast"
    and some: "\<And>t check. (t, check) \<in> set cs \<Longrightarrow> \<exists>p \<in> set (counted check). pfirst \<le> p \<and> p \<le> plast"
  defines "tbl \<equiv> map (range_row ops pfirst plast) (tbl_of ops cs)"
  shows "range_tbl ops pfirst plast (tbl_of ops cs) = (True, tbl)"
    "s \<noteq> any_addr ops \<Longrightarrow> d \<noteq> any_addr ops \<Longrightarrow> tbl_lookup ops tbl s d p =
       map_option (\<lambda>(_, check). range_dip pfirst plast (fill_dip check d (empty_dip ops)))
         (List.find (\<lambda>(t, _). t = (s, p, d)) cs)"
proof -
  note spec = tbl_of_spec[OF fit]
  have look: "tbl_lookup ops (tbl_of ops cs) s d p =
      map_option (\<lambda>(_, check). fill_dip check d (empty_dip ops)) (List.find (\<lambda>(t, _). t = (s, p, d)) cs)"
    if "s \<noteq> any_addr ops" "d \<noteq> any_addr ops" for s d p using spec that by blast
  have zero: "dip_num (empty_dip ops) = 0" by (simp add: empty_dip_def)
  show "range_tbl ops pfirst plast (tbl_of ops cs) = (True, tbl)"
    unfolding tbl_def
  proof (rule range_tbl_all)
    fix e dip
    assume e: "e \<in> set (tbl_of ops cs)" "tbl_saddr e \<noteq> any_addr ops" "dip \<in> set (dip_tbl e)" "dip_daddr dip \<noteq> any_addr ops"
    obtain t check where c: "List.find (\<lambda>(t, _). t = (tbl_saddr e, tbl_sport e, dip_daddr dip)) cs = Some (t, check)"
      "dip = fill_dip check (dip_daddr dip) (empty_dip ops)"
      using entry_lookup[OF conjunct1[OF spec] e] look[OF e(2,4)] by auto
    then have "(t, check) \<in> set cs" by (auto simp: find_Some_iff in_set_conv_nth)
    then show "\<not> range_failed (range_dip pfirst plast dip)"
      using some filled_window(1)[OF zero r] c(2) by metis
  qed
  show "s \<noteq> any_addr ops \<Longrightarrow> d \<noteq> any_addr ops \<Longrightarrow> tbl_lookup ops tbl s d p =
       map_option (\<lambda>(_, check). range_dip pfirst plast (fill_dip check d (empty_dip ops)))
         (List.find (\<lambda>(t, _). t = (s, p, d)) cs)"
    using range_row_lookup[OF conjunct1[OF spec]] look
    by (simp add: tbl_def option.map_comp) (auto intro!: option.map_cong)
qed

end

lemma unat_and_mask_less: "unat ((w :: u32) AND 15) < 16" "unat ((w :: u32) AND 3) < 4"
  using word_and_le1[of w 15] word_and_le1[of w 3] by (simp_all add: word_le_nat_alt)

interpretation v4: rss_addr v4_ops
  by unfold_locales (auto simp: v4_ops_def unat_and_mask_less)

interpretation v6: rss_addr v6_ops
  by unfold_locales (auto simp: v6_ops_def unat_and_mask_less)

section \<open>The two tables of the code\<close>

definition v4_entries :: "ff_rss_check_cfg \<Rightarrow> ff_rss_tbl_cfg list" where
  "v4_entries cfg = filter (\<lambda>rcc. rt_family rcc \<noteq> AF_INET6_LINUX) (take (rc_nb_rss_tbl cfg) (rc_rss_tbl_cfgs cfg))"

definition v4_triple :: "ff_rss_tbl_cfg \<Rightarrow> u32 \<times> u16 \<times> u32" where
  "v4_triple rcc = (rt_saddr rcc, rt_sport rcc, rt_daddr rcc)"

definition v4_check :: "('c, 'h) rss_state \<Rightarrow> ff_rss_tbl_cfg \<Rightarrow> u16 \<Rightarrow> bool" where
  "v4_check st rcc = ff_rss_check st (rt_port_id rcc) (rt_saddr rcc) (rt_daddr rcc) (rt_sport rcc)"

definition v6_entries :: "ff_rss_check_cfg \<Rightarrow> ff_rss_tbl_cfg list" where
  "v6_entries cfg = filter (\<lambda>rcc. rt_family rcc = AF_INET6_LINUX) (take (rc_nb_rss_tbl cfg) (rc_rss_tbl_cfgs cfg))"

definition v6_triple :: "ff_rss_tbl_cfg \<Rightarrow> u8 list \<times> u16 \<times> u8 list" where
  "v6_triple rcc = (rt_saddr6 rcc, rt_sport rcc, rt_daddr6 rcc)"

definition v6_check :: "('c, 'h) rss_state \<Rightarrow> ff_rss_tbl_cfg \<Rightarrow> u16 \<Rightarrow> bool" where
  "v6_check st rcc = ff_rss_check6 st (rt_port_id rcc) (rt_saddr6 rcc) (rt_daddr6 rcc) (rt_sport rcc)"

lemma fold_skip: "fold (\<lambda>x t. if P x then t else f x t) xs t = fold f (filter (\<lambda>x. \<not> P x) xs) t"
  by (induction xs arbitrary: t) auto

lemma ff_rss_tbl_init_tbl_of:
  "ff_rss_tbl_init True st cfg = Some (tbl_of v4_ops (map (\<lambda>rcc. (v4_triple rcc, v4_check st rcc)) (v4_entries cfg)))"
  by (simp add: ff_rss_tbl_init_def tbl_of_def fold_skip v4_entries_def fold_map v4_triple_def v4_check_def comp_def)

lemma ff_rss_tbl6_init_tbl_of:
  "ff_rss_tbl6_init True st cfg = Some (tbl_of v6_ops (map (\<lambda>rcc. (v6_triple rcc, v6_check st rcc)) (v6_entries cfg)))"
  by (simp add: ff_rss_tbl6_init_def tbl_of_def fold_skip v6_entries_def fold_map v6_triple_def v6_check_def comp_def)

lemma find_map: "List.find P (map f xs) = map_option f (List.find (P \<circ> f) xs)"
  by (induction xs) auto

lemmas v4_tables =
  ff_rss_tbl_init_tbl_of ff_rss_tbl_get_portrange_def ff_rss_tbl_set_portrange_def get_portrange_def set_portrange_def

lemmas v6_tables =
  ff_rss_tbl6_init_tbl_of ff_rss_tbl6_get_portrange_def ff_rss_tbl6_set_portrange_def get_portrange_def set_portrange_def

lemma v4_lookup:
  assumes "triples_fit v4_ops (map v4_triple (v4_entries cfg))" "saddr \<noteq> any_addr v4_ops" "daddr \<noteq> any_addr v4_ops"
  shows "tbl_lookup v4_ops (tbl_of v4_ops (map (\<lambda>rcc. (v4_triple rcc, v4_check st rcc)) (v4_entries cfg))) saddr daddr sport =
    map_option (\<lambda>rcc. fill_dip (v4_check st rcc) daddr (empty_dip v4_ops))
      (List.find (\<lambda>rcc. v4_triple rcc = (saddr, sport, daddr)) (v4_entries cfg))"
  using v4.tbl_of_spec[of "map (\<lambda>rcc. (v4_triple rcc, v4_check st rcc)) (v4_entries cfg)"] assms
  by (simp add: comp_def find_map option.map_comp)

lemma v6_lookup:
  assumes "triples_fit v6_ops (map v6_triple (v6_entries cfg))" "saddr \<noteq> any_addr v6_ops" "daddr \<noteq> any_addr v6_ops"
  shows "tbl_lookup v6_ops (tbl_of v6_ops (map (\<lambda>rcc. (v6_triple rcc, v6_check st rcc)) (v6_entries cfg))) saddr daddr sport =
    map_option (\<lambda>rcc. fill_dip (v6_check st rcc) daddr (empty_dip v6_ops))
      (List.find (\<lambda>rcc. v6_triple rcc = (saddr, sport, daddr)) (v6_entries cfg))"
  using v6.tbl_of_spec[of "map (\<lambda>rcc. (v6_triple rcc, v6_check st rcc)) (v6_entries cfg)"] assms
  by (simp add: comp_def find_map option.map_comp)

lemma range_dips_fst:
  "fst (range_dips ops pfirst plast dips) \<longleftrightarrow>
    (\<forall>dip \<in> set dips. dip_daddr dip \<noteq> any_addr ops \<longrightarrow> \<not> range_failed (range_dip pfirst plast dip))"
  by (induction dips) (auto simp: Let_def split: prod.splits)

lemma range_tbl_fst:
  "fst (range_tbl ops pfirst plast tbl) \<longleftrightarrow>
    (\<forall>e \<in> set tbl. tbl_saddr e \<noteq> any_addr ops \<longrightarrow> (\<forall>dip \<in> set (dip_tbl e).
       dip_daddr dip \<noteq> any_addr ops \<longrightarrow> \<not> range_failed (range_dip pfirst plast dip)))"
proof (induction tbl)
  case (Cons e tbl)
  then show ?case using range_dips_fst[of ops pfirst plast "dip_tbl e"]
    by (auto simp: Let_def split: prod.splits)
qed simp

section \<open>Properties\<close>

text \<open>C18. After \<open>ff_rss_tbl_init\<close> on a configuration that fits the table, \<open>ff_rss_tbl_get_portrange\<close> answers
  every IPv4 triple as its configuration says: without a configured entry it is \<open>-ENOENT\<close>; with one it returns the
  positions from 1 to the number of ports, and at these positions, in increasing order, exactly the ports that
  \<open>ff_rss_check\<close> accepts for the entry.\<close>

theorem rss_tbl_init_lookup:
  assumes "rc_enable cfg \<noteq> 0" "triples_fit v4_ops (map v4_triple (v4_entries cfg))" "saddr \<noteq> 0" "daddr \<noteq> 0"
  shows "\<exists>tbl. ff_rss_tbl_init True st cfg = Some tbl \<and>
    (case List.find (\<lambda>rcc. v4_triple rcc = (saddr, sport, daddr)) (v4_entries cfg) of
       None \<Rightarrow> ff_rss_tbl_get_portrange (Some cfg) tbl saddr daddr sport = Inl (- ENOENT)
     | Some rcc \<Rightarrow> let ports = accepted (v4_check st rcc)
         in sorted_wrt (<) ports \<and> set ports = {p. v4_check st rcc (htons p)} \<and>
            (\<exists>portrange. ff_rss_tbl_get_portrange (Some cfg) tbl saddr daddr sport =
               Inr (1, of_nat (min 65535 (length ports)), portrange) \<and>
             (\<forall>i < length ports. portrange (Suc i) = ports ! i)))"
proof -
  have any: "any_addr v4_ops = 0" by (simp add: v4_ops_def)
  have zero: "dip_num (empty_dip v4_ops) = 0" by (simp add: empty_dip_def)
  note look = v4_lookup[OF assms(2), of saddr daddr st sport, unfolded any, OF assms(3,4)]
  show ?thesis
    using look assms(1) accepted_sorted accepted_set fill_dip_spec[OF zero]
    by (auto simp: v4_tables Let_def split: option.split)
qed

text \<open>The same for the IPv6 table.\<close>

theorem rss_tbl6_init_lookup:
  assumes "rc_enable cfg \<noteq> 0" "triples_fit v6_ops (map v6_triple (v6_entries cfg))"
    "saddr6 \<noteq> replicate 16 0" "daddr6 \<noteq> replicate 16 0"
  shows "\<exists>tbl. ff_rss_tbl6_init True st cfg = Some tbl \<and>
    (case List.find (\<lambda>rcc. v6_triple rcc = (saddr6, sport, daddr6)) (v6_entries cfg) of
       None \<Rightarrow> ff_rss_tbl6_get_portrange (Some cfg) tbl saddr6 daddr6 sport = Inl (- ENOENT)
     | Some rcc \<Rightarrow> let ports = accepted (v6_check st rcc)
         in sorted_wrt (<) ports \<and> set ports = {p. v6_check st rcc (htons p)} \<and>
            (\<exists>portrange. ff_rss_tbl6_get_portrange (Some cfg) tbl saddr6 daddr6 sport =
               Inr (1, of_nat (min 65535 (length ports)), portrange) \<and>
             (\<forall>i < length ports. portrange (Suc i) = ports ! i)))"
proof -
  have any: "any_addr v6_ops = replicate 16 0" by (simp add: v6_ops_def)
  have zero: "dip_num (empty_dip v6_ops) = 0" by (simp add: empty_dip_def)
  note look = v6_lookup[OF assms(2), of saddr6 daddr6 st sport, unfolded any, OF assms(3,4)]
  show ?thesis
    using look assms(1) accepted_sorted accepted_set fill_dip_spec[OF zero]
    by (auto simp: v6_tables Let_def split: option.split)
qed

text \<open>C6. After initialisation, \<open>ff_rss_tbl_set_portrange(first, last)\<close> with \<open>first < last\<close> succeeds when every
  configured IPv4 entry has a port of the range, and then the positions that \<open>ff_rss_tbl_get_portrange\<close> returns
  for an entry hold exactly its accepted ports from \<open>first\<close> to \<open>last\<close>, in increasing order.\<close>

theorem rss_tbl_portrange_window:
  assumes "rc_enable cfg \<noteq> 0" "triples_fit v4_ops (map v4_triple (v4_entries cfg))" "pfirst < plast"
    "\<forall>rcc \<in> set (v4_entries cfg). \<exists>p \<in> set (counted (v4_check st rcc)). pfirst \<le> p \<and> p \<le> plast"
    "List.find (\<lambda>rcc. v4_triple rcc = (saddr, sport, daddr)) (v4_entries cfg) = Some rcc"
  shows "\<exists>tbl tbl' i j portrange. ff_rss_tbl_init True st cfg = Some tbl \<and>
    ff_rss_tbl_set_portrange (Some cfg) pfirst plast tbl = (0, tbl') \<and>
    ff_rss_tbl_get_portrange (Some cfg) tbl' saddr daddr sport = Inr (i, j, portrange) \<and>
    map portrange [unat i..<Suc (unat j)] =
      filter (\<lambda>p. pfirst \<le> p \<and> p \<le> plast) (counted (v4_check st rcc))"
proof -
  let ?cs = "map (\<lambda>rcc. (v4_triple rcc, v4_check st rcc)) (v4_entries cfg)"
  have fit: "triples_fit v4_ops (map fst ?cs)" using assms(2) by (simp add: comp_def)
  have rcc: "rcc \<in> set (v4_entries cfg)" "v4_triple rcc = (saddr, sport, daddr)"
    using assms(5) by (auto simp: find_Some_iff)
  then have sd: "saddr \<noteq> any_addr v4_ops" "daddr \<noteq> any_addr v4_ops"
    using assms(2) by (auto simp: triples_fit_def list_all_iff)
  have zero: "dip_num (empty_dip v4_ops) = 0" by (simp add: empty_dip_def)
  have some: "\<exists>p \<in> set (counted check). pfirst \<le> p \<and> p \<le> plast" if "(t, check) \<in> set ?cs" for t check
    using that assms(4) by auto
  obtain p where p: "p \<in> set (counted (v4_check st rcc))" "pfirst \<le> p" "p \<le> plast" using rcc assms(4) by blast
  have "\<not> pfirst > plast" using assms(3) by simp
  then show ?thesis
    using v4.narrowed[OF fit assms(3) some] sd assms(1,5) filled_window[OF zero assms(3) p]
    by (simp add: v4_tables find_map comp_def)
qed

text \<open>The same for the IPv6 table.\<close>

theorem rss_tbl6_portrange_window:
  assumes "rc_enable cfg \<noteq> 0" "triples_fit v6_ops (map v6_triple (v6_entries cfg))" "pfirst < plast"
    "\<forall>rcc \<in> set (v6_entries cfg). \<exists>p \<in> set (counted (v6_check st rcc)). pfirst \<le> p \<and> p \<le> plast"
    "List.find (\<lambda>rcc. v6_triple rcc = (saddr6, sport, daddr6)) (v6_entries cfg) = Some rcc"
  shows "\<exists>tbl tbl' i j portrange. ff_rss_tbl6_init True st cfg = Some tbl \<and>
    ff_rss_tbl6_set_portrange (Some cfg) pfirst plast tbl = (0, tbl') \<and>
    ff_rss_tbl6_get_portrange (Some cfg) tbl' saddr6 daddr6 sport = Inr (i, j, portrange) \<and>
    map portrange [unat i..<Suc (unat j)] =
      filter (\<lambda>p. pfirst \<le> p \<and> p \<le> plast) (counted (v6_check st rcc))"
proof -
  let ?cs = "map (\<lambda>rcc. (v6_triple rcc, v6_check st rcc)) (v6_entries cfg)"
  have fit: "triples_fit v6_ops (map fst ?cs)" using assms(2) by (simp add: comp_def)
  have rcc: "rcc \<in> set (v6_entries cfg)" "v6_triple rcc = (saddr6, sport, daddr6)"
    using assms(5) by (auto simp: find_Some_iff)
  then have sd: "saddr6 \<noteq> any_addr v6_ops" "daddr6 \<noteq> any_addr v6_ops"
    using assms(2) by (auto simp: triples_fit_def list_all_iff)
  have zero: "dip_num (empty_dip v6_ops) = 0" by (simp add: empty_dip_def)
  have some: "\<exists>p \<in> set (counted check). pfirst \<le> p \<and> p \<le> plast" if "(t, check) \<in> set ?cs" for t check
    using that assms(4) by auto
  obtain p where p: "p \<in> set (counted (v6_check st rcc))" "pfirst \<le> p" "p \<le> plast" using rcc assms(4) by blast
  have "\<not> pfirst > plast" using assms(3) by simp
  then show ?thesis
    using v6.narrowed[OF fit assms(3) some] sd assms(1,5) filled_window[OF zero assms(3) p]
    by (simp add: v6_tables find_map comp_def)
qed

text \<open>C33. A range of a single port that the entry does not hold selects the next greater port of the entry:
  the loop records the first port not below \<open>first\<close> as the last one, too, without comparing it with \<open>last\<close>.\<close>

theorem rss_tbl_single_port_outside:
  assumes "port \<notin> set (counted check)" "q \<in> set (counted check)" "port < q"
  shows "let r = range_dip port port (fill_dip check daddr (empty_dip ops))
    in \<not> range_failed r \<and> dip_first_idx r = dip_last_idx r \<and> port < dip_dport r (unat (dip_first_idx r))"
proof -
  let ?qs = "counted check" and ?e = "fill_dip check daddr (empty_dip ops)"
  let ?a = "length (filter (\<lambda>p. p < port) ?qs)"
  have zero: "dip_num (empty_dip ops) = 0" by (simp add: empty_dip_def)
  note f = fill_dip_counted[OF zero, where check = check and d = daddr]
  note sp = filled_split[OF zero order_refl, of port check daddr]
  obtain i where i: "i < length ?qs" "?qs ! i = q" using assms(2) by (auto simp: in_set_conv_nth)
  then have "dip_dport ?e (Suc i) = q" using f(3)[of "Suc i"] by simp
  then have "\<not> Suc i \<le> ?a" using split_atD(1)[OF sp, of "Suc i"] assms(3) f(1) i by auto
  then have a: "?a < length ?qs" "?a + 1 < 65536" using i counted_length[of check] by linarith+
  then have "\<not> dip_dport ?e (?a + 1) < port" using split_atD(1)[OF sp, of "?a + 1"] f(1) by simp
  moreover have "dip_dport ?e (?a + 1) \<in> set ?qs" using f(3)[of "?a + 1"] a by simp
  ultimately have "port < dip_dport ?e (?a + 1)" using assms(1) by (metis not_less_iff_gr_or_eq)
  moreover have "unat (of_nat (?a + 1) :: u16) = ?a + 1" using a by (simp add: unat_of_nat del: of_nat_Suc of_nat_add)
  ultimately show ?thesis
    using range_dip_single[OF sp] f(1) a(1) by (simp add: range_failed_def word_unat_eq_iff del: of_nat_Suc of_nat_add)
qed

text \<open>C39. A later call with a wider range whose end lies above the entry's greatest port keeps the last position
  of the earlier, narrower call (the comment on that branch takes the last position to be the one of the
  initialisation), so that ports of the wider range stay unselected.\<close>

theorem rss_tbl_stale_last:
  assumes "pfirst < plast" "p \<in> set (counted check)" "pfirst \<le> p" "p \<le> plast"
    and "pfirst' < plast'" "pfirst' \<le> p" "\<forall>q \<in> set (counted check). q < plast'"
    and "q \<in> set (counted check)" "plast < q"
  shows "let r = range_dip pfirst' plast' (range_dip pfirst plast (fill_dip check daddr (empty_dip ops)))
    in \<not> range_failed r \<and> pfirst' \<le> q \<and> q \<le> plast' \<and>
       q \<notin> set (map (dip_dport r) [unat (dip_first_idx r)..<Suc (unat (dip_last_idx r))])"
proof -
  let ?qs = "counted check" and ?e = "fill_dip check daddr (empty_dip ops)"
  define a' where "a' = length (filter (\<lambda>p. p < pfirst') ?qs)"
  define b where "b = length (filter (\<lambda>p. p \<le> plast) ?qs)"
  define r where "r = range_dip pfirst plast ?e"
  have zero: "dip_num (empty_dip ops) = 0" by (simp add: empty_dip_def)
  note f = fill_dip_counted[OF zero, where check = check and d = daddr]
  note pos = filled_positions(1,2,5,6)[OF zero assms(1-4), where d = daddr, folded r_def b_def]
    filled_positions(3,4)[OF zero assms(1-4), folded b_def]
  have N: "unat (dip_num r) = length ?qs" using pos(3) f(1) by simp
  obtain b' where sp: "split_at pfirst' plast' a' b' r"
    using filled_split[OF zero less_imp_le[OF assms(5)], of check daddr] pos(3,4) by (auto simp: split_at_def a'_def)
  have sp1: "split_at pfirst plast (length (filter (\<lambda>p. p < pfirst) ?qs)) b r"
    using filled_split[OF zero less_imp_le[OF assms(1)], of check daddr] pos(3,4) by (simp add: split_at_def b_def)
  obtain i where i: "i < length ?qs" "?qs ! i = p" using assms(2) by (auto simp: in_set_conv_nth)
  then have "dip_dport r (Suc i) = p" using f(3)[of "Suc i"] pos(4) by simp
  then have "\<not> Suc i \<le> a'" "Suc i \<le> b"
    using split_atD[OF sp, of "Suc i"] split_atD[OF sp1, of "Suc i"] assms(4,6) N i by auto
  then have ab: "a' < b" "a' + 1 < 65536" using pos(6) counted_length[of check] by linarith+
  have "\<not> plast' \<le> dip_dport r (length ?qs)" using assms(7) f(3)[of "length ?qs"] pos(4-6) by (simp add: not_le)
  then have r': "range_dip pfirst' plast' r = r\<lparr>dip_first := pfirst', dip_last := plast', dip_first_idx := of_nat (a' + 1)\<rparr>"
    using range_dip_spec[OF sp assms(5)] N ab(1) pos(6) by simp
  have first: "unat (dip_first_idx (range_dip pfirst' plast' r)) = a' + 1"
    using ab(2) by (simp add: r' unat_of_nat del: of_nat_Suc of_nat_add)
  have "dip_dport r k \<le> plast" if "k \<in> {a' + 1..<Suc b}" for k
    using that split_atD(2)[OF sp1, of k] N pos(6) by simp
  then have "q \<notin> set (map (dip_dport r) [a' + 1..<Suc b])" using assms(9) by (fastforce simp del: upt_Suc)
  moreover have "pfirst' \<le> q" "q \<le> plast'" using assms(4,6-9) by (auto intro: order_trans less_imp_le)
  moreover have "\<not> range_failed (range_dip pfirst' plast' r)"
    using first pos(2) ab(1) by (auto simp: range_failed_def word_less_nat_alt r')
  ultimately show ?thesis
    using first pos(2) by (simp add: r_def[symmetric] Let_def r' del: upt_Suc)
qed


section \<open>Witnesses\<close>

definition demo_addr6 :: "u8 \<Rightarrow> u8 list" where
  "demo_addr6 b = [0xfc, 0, 0, 0, 0, 0, 0, 0, 0, 0, 0, 0, 0, 0, 0, b]"

definition demo_tbl_cfg :: ff_rss_check_cfg where
  "demo_tbl_cfg = \<lparr>rc_enable = 1, rc_recheck = 0, rc_thash_adjust = 0, rc_nb_rss_tbl = 2, rc_rss_tbl_str = None,
     rc_rss_tbl_cfgs =
       [\<lparr>rt_port_id = 0, rt_sport = htons 80, rt_daddr = 0x0200000a, rt_saddr = 0x0100000a, rt_family = 2,
         rt_daddr6 = [], rt_saddr6 = []\<rparr>,
        \<lparr>rt_port_id = 0, rt_sport = htons 80, rt_daddr = 0, rt_saddr = 0, rt_family = 10,
         rt_daddr6 = demo_addr6 2, rt_saddr6 = demo_addr6 1\<rparr>]\<rparr>"

definition demo_entry :: ff_rss_tbl_cfg where
  "demo_entry = hd (rc_rss_tbl_cfgs demo_tbl_cfg)"

definition demo_entry6 :: ff_rss_tbl_cfg where
  "demo_entry6 = last (rc_rss_tbl_cfgs demo_tbl_cfg)"

lemma demo_fit: "triples_fit v4_ops (map v4_triple (v4_entries demo_tbl_cfg))"
  "triples_fit v6_ops (map v6_triple (v6_entries demo_tbl_cfg))"
  by code_simp+

lemma demo_entries: "v4_entries demo_tbl_cfg = [demo_entry]" "v6_entries demo_tbl_cfg = [demo_entry6]"
  "v4_triple demo_entry = (0x0100000a, htons 80, 0x0200000a)"
  "v6_triple demo_entry6 = (demo_addr6 1, htons 80, demo_addr6 2)"
  by (simp_all add: v4_entries_def v6_entries_def demo_tbl_cfg_def demo_entry_def demo_entry6_def v4_triple_def
      v6_triple_def AF_INET6_LINUX_def)

lemma demo_ports: "\<not> v4_check demo_rss demo_entry (htons 0x8000)" "v4_check demo_rss demo_entry (htons 0x8001)"
  "\<not> v4_check demo_rss demo_entry (htons 0x8002)" "v4_check demo_rss demo_entry (htons 0x8003)"
  "v6_check demo_rss demo_entry6 (htons 0x8000)"
  by code_simp+

lemma demo_last: "\<not> v4_check demo_rss demo_entry (htons 65535)"
  by code_simp

lemma demo_counted: "0x8001 \<in> set (counted (v4_check demo_rss demo_entry))"
  "0x8003 \<in> set (counted (v4_check demo_rss demo_entry))" "0x8000 \<in> set (counted (v6_check demo_rss demo_entry6))"
  "0x8000 \<notin> set (counted (v4_check demo_rss demo_entry))"
  "\<forall>q \<in> set (counted (v4_check demo_rss demo_entry)). q < 65535"
proof -
  let ?c = "v4_check demo_rss demo_entry"
  show "0x8001 \<in> set (counted ?c)" "0x8003 \<in> set (counted ?c)" "0x8000 \<in> set (counted (v6_check demo_rss demo_entry6))"
    by (rule counted_mem, rule demo_ports, simp)+
  have sub: "set (counted ?c) \<subseteq> {p. ?c (htons p)}" using set_take_subset accepted_set by (metis counted_def)
  then show "0x8000 \<notin> set (counted ?c)" using demo_ports(1) by blast
  have "q < 65535" if "?c (htons q)" for q
  proof -
    have "q \<noteq> 65535" using that demo_last by blast
    then have "unat q \<noteq> 65535" by (simp add: word_unat_eq_iff)
    then show ?thesis using unsigned_less[of q, where ?'a = nat] by (simp add: word_less_nat_alt)
  qed
  then show "\<forall>q \<in> set (counted ?c). q < 65535" using sub by blast
qed

theorem rss_tbl_init_lookup_witness:
  "\<exists>tbl portrange. ff_rss_tbl_init True demo_rss demo_tbl_cfg = Some tbl \<and>
     ff_rss_tbl_get_portrange (Some demo_tbl_cfg) tbl 0x0100000a 0x0200000a (htons 80) =
       Inr (1, of_nat (min 65535 (length (accepted (v4_check demo_rss demo_entry)))), portrange)"
  using rss_tbl_init_lookup[of demo_tbl_cfg "0x0100000a" "0x0200000a" demo_rss "htons 80"] demo_fit(1)
  by (simp add: demo_entries Let_def) (auto simp: demo_tbl_cfg_def)

theorem rss_tbl6_init_lookup_witness:
  "\<exists>tbl portrange. ff_rss_tbl6_init True demo_rss demo_tbl_cfg = Some tbl \<and>
     ff_rss_tbl6_get_portrange (Some demo_tbl_cfg) tbl (demo_addr6 1) (demo_addr6 2) (htons 80) =
       Inr (1, of_nat (min 65535 (length (accepted (v6_check demo_rss demo_entry6)))), portrange)"
proof -
  have "demo_addr6 1 \<noteq> replicate 16 0" "demo_addr6 2 \<noteq> replicate 16 0" "rc_enable demo_tbl_cfg \<noteq> 0"
    by (simp_all add: demo_addr6_def demo_tbl_cfg_def numeral_eq_Suc)
  with rss_tbl6_init_lookup[of demo_tbl_cfg "demo_addr6 1" "demo_addr6 2" demo_rss "htons 80"] demo_fit(2)
  show ?thesis by (auto simp: demo_entries Let_def)
qed

theorem rss_tbl_portrange_window_witness:
  "\<exists>tbl tbl'. ff_rss_tbl_init True demo_rss demo_tbl_cfg = Some tbl \<and>
     ff_rss_tbl_set_portrange (Some demo_tbl_cfg) 0x8000 0x8002 tbl = (0, tbl')"
proof -
  have "rc_enable demo_tbl_cfg \<noteq> 0" by (simp add: demo_tbl_cfg_def)
  from rss_tbl_portrange_window[OF this demo_fit(1), of "0x8000" "0x8002" demo_rss "0x0100000a" "htons 80" "0x0200000a"]
  show ?thesis using demo_counted(1) by (fastforce simp: demo_entries)
qed

theorem rss_tbl6_portrange_window_witness:
  "\<exists>tbl tbl'. ff_rss_tbl6_init True demo_rss demo_tbl_cfg = Some tbl \<and>
     ff_rss_tbl6_set_portrange (Some demo_tbl_cfg) 0x7fff 0x8002 tbl = (0, tbl')"
proof -
  have "rc_enable demo_tbl_cfg \<noteq> 0" by (simp add: demo_tbl_cfg_def)
  from rss_tbl6_portrange_window[OF this demo_fit(2), of "0x7fff" "0x8002" demo_rss "demo_addr6 1" "htons 80" "demo_addr6 2"]
  show ?thesis using demo_counted(3) by (fastforce simp: demo_entries)
qed


theorem rss_tbl_single_port_outside_witness:
  "let r = range_dip 0x8000 0x8000 (fill_dip (v4_check demo_rss demo_entry) 0x0200000a (empty_dip v4_ops))
   in \<not> range_failed r \<and> dip_first_idx r = dip_last_idx r \<and> 0x8000 < dip_dport r (unat (dip_first_idx r))"
  using rss_tbl_single_port_outside[OF demo_counted(4,1), of "0x0200000a" v4_ops] by simp

theorem rss_tbl_stale_last_witness:
  "let r = range_dip 0x8000 0xffff (range_dip 0x8000 0x8002 (fill_dip (v4_check demo_rss demo_entry) 0x0200000a (empty_dip v4_ops)))
   in \<not> range_failed r \<and> 0x8003 \<notin> set (map (dip_dport r) [unat (dip_first_idx r)..<Suc (unat (dip_last_idx r))])"
  using rss_tbl_stale_last[OF _ demo_counted(1) _ _ _ _ demo_counted(5) demo_counted(2), of "0x8000" "0x8002" "0x8000" "0x0200000a" v4_ops]
  by (simp add: Let_def del: upt_Suc)

end
