(* ===== verification/FF_Ini_Parser.thy ===== *)
theory FF_Ini_Parser
  imports FF_Prelude
begin

text \<open>
  The parser of INI files of \<open>lib/ff_ini_parser.c\<close>, with the options of \<open>lib/ff_ini_parser.h\<close>: multi-line
  values, a byte order mark, inline comments after \<open>;\<close>, and a stop at the first error.

  A C string is the list of its characters before the terminating NUL, and a pointer into a string is the
  rest of the list from there. The handler is an argument: it maps a section, a name and a value to a
  step on the user's state that returns whether it succeeded. The file is the list of its characters; \<open>fgets\<close>
  cuts it into the lines that the loop reads.
\<close>

section \<open>Strings\<close>

definition isspace :: "char \<Rightarrow> bool" where
  "isspace c \<longleftrightarrow> c \<in> {CHR '' '', CHR 0x09, CHR 0x0A, CHR 0x0B, CHR 0x0C, CHR 0x0D}"

definition MAX_SECTION :: nat where "MAX_SECTION = 50"
definition MAX_NAME :: nat where "MAX_NAME = 50"
definition INI_MAX_LINE :: nat where "INI_MAX_LINE = 2048"
definition INI_INLINE_COMMENT_PREFIXES :: string where "INI_INLINE_COMMENT_PREFIXES = '';''"

definition rstrip :: "string \<Rightarrow> string" where
  "rstrip s = rev (dropWhile isspace (rev s))"

definition lskip :: "string \<Rightarrow> string" where
  "lskip s = dropWhile isspace s"

text \<open>What stands before the position found, and the rest from it. No \<open>chars\<close> is the empty list.\<close>

fun find_chars_or_comment :: "string \<Rightarrow> bool \<Rightarrow> string \<Rightarrow> string \<times> string" where
  "find_chars_or_comment chars was_space [] = ([], [])"
| "find_chars_or_comment chars was_space (c # s) =
    (if c \<in> set chars \<or> (was_space \<and> c \<in> set INI_INLINE_COMMENT_PREFIXES) then ([], c # s)
     else let (bef, rest) = find_chars_or_comment chars (isspace c) s in (c # bef, rest))"

definition strncpy0 :: "string \<Rightarrow> nat \<Rightarrow> string" where
  "strncpy0 src sz = take (sz - 1) src"

section \<open>The loop\<close>

record 'u ini_state =
  cur_section :: string
  prev_name :: string
  user :: 'u

type_synonym 'u ini_handler = "string \<Rightarrow> string \<Rightarrow> string \<Rightarrow> 'u \<Rightarrow> bool \<times> 'u"

text \<open>A call of the handler; the flag is whether the line is in error.\<close>

definition call_handler :: "'u ini_handler \<Rightarrow> string \<Rightarrow> string \<Rightarrow> 'u ini_state \<Rightarrow> bool \<times> 'u ini_state" where
  "call_handler handler name val st =
    (let (ok, u) = handler (cur_section st) name val (user st) in (\<not> ok, st\<lparr>user := u\<rparr>))"

definition BOM :: string where "BOM = [CHR 0xEF, CHR 0xBB, CHR 0xBF]"

definition ini_section_line :: "string \<Rightarrow> 'u ini_state \<Rightarrow> bool \<times> 'u ini_state" where
  "ini_section_line start st =
    (let (bef, end) = find_chars_or_comment '']'' False (tl start)
     in if end \<noteq> [] \<and> hd end = CHR '']''
        then (False, st\<lparr>cur_section := strncpy0 bef MAX_SECTION, prev_name := []\<rparr>)
        else (True, st))"

definition ini_pair_line :: "'u ini_handler \<Rightarrow> string \<Rightarrow> 'u ini_state \<Rightarrow> bool \<times> 'u ini_state" where
  "ini_pair_line handler start st =
    (let (bef, end) = find_chars_or_comment ''=:'' False start
     in if end \<noteq> [] \<and> (hd end = CHR ''='' \<or> hd end = CHR '':'')
        then let name = rstrip bef;
                 val = fst (find_chars_or_comment [] False (tl end));
                 val = rstrip (lskip val)
             in call_handler handler name val (st\<lparr>prev_name := strncpy0 name MAX_NAME\<rparr>)
        else (True, st))"

text \<open>The body of the loop on one line: the error flag and the new state. The line has leading
  whitespace, or a byte order mark, when \<open>start\<close> is not at its beginning.\<close>

definition ini_line :: "'u ini_handler \<Rightarrow> nat \<Rightarrow> string \<Rightarrow> 'u ini_state \<Rightarrow> bool \<times> 'u ini_state" where
  "ini_line handler lineno line st =
    (let after_bom = (if lineno = 1 \<and> take 3 line = BOM then drop 3 line else line);
         start = lskip (rstrip after_bom);
         moved = (after_bom \<noteq> line \<or> start \<noteq> rstrip after_bom)
     in if start \<noteq> [] \<and> (hd start = CHR '';'' \<or> hd start = CHR ''#'') then (False, st)
        else if prev_name st \<noteq> [] \<and> start \<noteq> [] \<and> moved then call_handler handler (prev_name st) start st
        else if start \<noteq> [] \<and> hd start = CHR ''['' then ini_section_line start st
        else if start \<noteq> [] then ini_pair_line handler start st
        else (False, st))"

fun ini_loop :: "'u ini_handler \<Rightarrow> nat \<Rightarrow> string list \<Rightarrow> 'u ini_state \<Rightarrow> nat \<times> 'u ini_state" where
  "ini_loop handler lineno [] st = (0, st)"
| "ini_loop handler lineno (line # lines) st =
    (let (err, st) = ini_line handler (lineno + 1) line st
     in if err then (lineno + 1, st) else ini_loop handler (lineno + 1) lines st)"

text \<open>The lines are the strings that successive calls of the reader leave in the buffer.\<close>

definition ini_parse_stream :: "string list \<Rightarrow> 'u ini_handler \<Rightarrow> 'u \<Rightarrow> nat \<times> 'u" where
  "ini_parse_stream lines handler u =
    (let (err, st) = ini_loop handler 0 lines \<lparr>cur_section = [], prev_name = [], user = u\<rparr> in (err, user st))"

section \<open>Files\<close>

text \<open>\<open>fgets\<close> on a buffer of \<open>sz\<close> bytes: at most \<open>sz - 1\<close> characters, up to and with the first newline.\<close>

fun fgets :: "nat \<Rightarrow> string \<Rightarrow> string \<times> string" where
  "fgets 0 s = ([], s)"
| "fgets (Suc n) [] = ([], [])"
| "fgets (Suc n) (c # s) =
    (if c = CHR 0x0A then ([c], s) else let (line, rest) = fgets n s in (c # line, rest))"

lemma fgets_rest: "length (snd (fgets n s)) \<le> length s"
  by (induction n s rule: fgets.induct) (auto split: prod.splits)

lemma fgets_less: "0 < n \<Longrightarrow> s \<noteq> [] \<Longrightarrow> length (snd (fgets n s)) < length s"
  using fgets_rest[of "n - 1" "tl s"] by (cases n; cases s) (auto split: prod.splits)

text \<open>The lines of a file; a NUL ends the string in the buffer.\<close>

function file_lines :: "string \<Rightarrow> string list" where
  "file_lines [] = []"
| "file_lines (c # s) =
    (let (line, rest) = fgets (INI_MAX_LINE - 1) (c # s) in takeWhile (\<lambda>c. c \<noteq> CHR 0x00) line # file_lines rest)"
  by pat_completeness auto
termination
proof (relation "measure length")
  fix c s x line rest
  assume "x = fgets (INI_MAX_LINE - 1) (c # s)" "(line, rest) = x"
  then have "rest = snd (fgets (INI_MAX_LINE - 1) (c # s))" by (metis snd_conv)
  then show "(rest, c # s) \<in> measure length" using fgets_less[of "INI_MAX_LINE - 1" "c # s"] by (simp add: INI_MAX_LINE_def)
qed simp

definition ini_parse_file :: "string option \<Rightarrow> 'u ini_handler \<Rightarrow> 'u \<Rightarrow> int \<times> 'u" where
  "ini_parse_file file handler u =
    (case file of None \<Rightarrow> (-1, u)
     | Some content \<Rightarrow> let (err, u) = ini_parse_stream (file_lines content) handler u in (int err, u))"

text \<open>\<open>fs\<close> is what opening and reading a file yields.\<close>

definition ini_parse :: "(string \<Rightarrow> string option) \<Rightarrow> string \<Rightarrow> 'u ini_handler \<Rightarrow> 'u \<Rightarrow> int \<times> 'u" where
  "ini_parse fs filename handler u =
    (case fs filename of None \<Rightarrow> (-1, u) | Some content \<Rightarrow> ini_parse_file (Some content) handler u)"

section \<open>Strings: lemmas\<close>

lemmas ini_consts = MAX_SECTION_def MAX_NAME_def INI_MAX_LINE_def INI_INLINE_COMMENT_PREFIXES_def

definition trimmed :: "string \<Rightarrow> bool" where
  "trimmed s \<longleftrightarrow> s = [] \<or> \<not> isspace (hd s) \<and> \<not> isspace (last s)"

lemma lskip_trimmed: "trimmed s \<Longrightarrow> lskip s = s"
  by (cases s) (auto simp: trimmed_def lskip_def)

lemma rstrip_append: "s = [] \<or> \<not> isspace (last s) \<Longrightarrow> list_all isspace t \<Longrightarrow> rstrip (s @ t) = s"
  by (cases s rule: rev_cases) (auto simp: rstrip_def list_all_iff dropWhile_append)

lemma rstrip_trimmed: "trimmed s \<Longrightarrow> rstrip s = s"
  using rstrip_append[of s "[]"] by (auto simp: trimmed_def)

text \<open>No inline comment begins in the string; \<open>w\<close> is whether it follows a whitespace character.\<close>

fun no_comment :: "bool \<Rightarrow> string \<Rightarrow> bool" where
  "no_comment w [] = True"
| "no_comment w (c # s) = (\<not> (w \<and> c = CHR '';'') \<and> no_comment (isspace c) s)"

lemma find_chars_hit:
  "no_comment w s \<Longrightarrow> set s \<inter> set chars = {} \<Longrightarrow> c \<in> set chars \<Longrightarrow>
    find_chars_or_comment chars w (s @ c # t) = (s, c # t)"
  by (induction s arbitrary: w) (auto simp: INI_INLINE_COMMENT_PREFIXES_def)

lemma find_chars_miss:
  "no_comment w s \<Longrightarrow> set s \<inter> set chars = {} \<Longrightarrow> find_chars_or_comment chars w s = (s, [])"
  by (induction s arbitrary: w) (auto simp: INI_INLINE_COMMENT_PREFIXES_def)

lemma find_chars_split: "fst (find_chars_or_comment chars w s) @ snd (find_chars_or_comment chars w s) = s"
  by (induction chars w s rule: find_chars_or_comment.induct) (auto split: prod.splits)

lemma fgets_line: "CHR 0x0A \<notin> set s \<Longrightarrow> length s < n \<Longrightarrow> fgets n (s @ CHR 0x0A # t) = (s @ [CHR 0x0A], t)"
  by (induction s arbitrary: n) (case_tac n, auto)+

lemma fgets_length: "length (fst (fgets n s)) \<le> n"
  by (induction n s rule: fgets.induct) (auto split: prod.splits)

section \<open>A document\<close>

text \<open>Sections of pairs, the lines that write them, and the calls of the handler they stand for.\<close>

type_synonym ini_doc = "(string \<times> (string \<times> string) list) list"

definition pair_line :: "string \<times> string \<Rightarrow> string" where
  "pair_line = (\<lambda>(name, val). name @ CHR ''='' # val)"

definition section_line :: "string \<Rightarrow> string" where
  "section_line sec = CHR ''['' # sec @ '']''"

definition doc_lines :: "ini_doc \<Rightarrow> string list" where
  "doc_lines doc = concat (map (\<lambda>(sec, pairs). section_line sec # map pair_line pairs) doc)"

definition doc_calls :: "ini_doc \<Rightarrow> (string \<times> string \<times> string) list" where
  "doc_calls doc = concat (map (\<lambda>(sec, pairs). map (\<lambda>(name, val). (sec, name, val)) pairs) doc)"

definition doc_text :: "ini_doc \<Rightarrow> string" where
  "doc_text doc = concat (map (\<lambda>line. line @ [CHR 0x0A]) (doc_lines doc))"

definition plain :: "string \<Rightarrow> bool" where
  "plain s \<longleftrightarrow> no_comment False s \<and> CHR 0x0A \<notin> set s \<and> CHR 0x00 \<notin> set s"

definition wf_name :: "string \<Rightarrow> bool" where
  "wf_name s \<longleftrightarrow> s \<noteq> [] \<and> trimmed s \<and> plain s \<and> CHR ''='' \<notin> set s \<and> CHR '':'' \<notin> set s \<and>
     hd s \<notin> {CHR '';'', CHR ''#'', CHR ''[''}"

definition wf_section :: "string \<Rightarrow> bool" where
  "wf_section s \<longleftrightarrow> plain s \<and> CHR '']'' \<notin> set s \<and> length s < MAX_SECTION"

definition wf_doc :: "ini_doc \<Rightarrow> bool" where
  "wf_doc doc \<longleftrightarrow>
     list_all (\<lambda>(sec, pairs). wf_section sec \<and> list_all (\<lambda>(name, val). wf_name name \<and> trimmed val \<and> plain val) pairs) doc \<and>
     list_all (\<lambda>line. length line + 1 < INI_MAX_LINE) (doc_lines doc)"

fun run_calls :: "'u ini_handler \<Rightarrow> (string \<times> string \<times> string) list \<Rightarrow> 'u \<Rightarrow> 'u option" where
  "run_calls handler [] u = Some u"
| "run_calls handler ((sec, name, val) # calls) u =
    (let (ok, u) = handler sec name val u in if ok then run_calls handler calls u else None)"

lemma run_calls_append:
  "run_calls handler (xs @ ys) u = (case run_calls handler xs u of None \<Rightarrow> None | Some u \<Rightarrow> run_calls handler ys u)"
  by (induction xs arbitrary: u) (auto split: prod.splits)

lemma section_line_step:
  assumes "wf_section sec"
  shows "ini_line handler n (section_line sec @ [CHR 0x0A]) st = (False, st\<lparr>cur_section := sec, prev_name := []\<rparr>)"
proof -
  have strip: "rstrip (section_line sec @ [CHR 0x0A]) = section_line sec"
    by (rule rstrip_append) (auto simp: section_line_def isspace_def)
  have skip: "lskip (section_line sec) = section_line sec" by (simp add: lskip_def section_line_def isspace_def)
  have bom: "take 3 (section_line sec @ [CHR 0x0A]) \<noteq> BOM" by (simp add: section_line_def BOM_def)
  have "find_chars_or_comment '']'' False (sec @ '']'') = (sec, '']'')"
    using assms find_chars_hit[of False sec "'']''" "CHR '']''" "[]"] by (auto simp: wf_section_def plain_def)
  then have "ini_section_line (section_line sec) st = (False, st\<lparr>cur_section := sec, prev_name := []\<rparr>)"
    using assms by (simp add: ini_section_line_def section_line_def strncpy0_def wf_section_def MAX_SECTION_def)
  then show ?thesis using bom by (simp add: ini_line_def Let_def strip skip) (simp add: section_line_def)
qed

lemma pair_line_step:
  assumes "wf_name name" "trimmed val" "plain val" "n \<noteq> 1"
  shows "ini_line handler n (pair_line (name, val) @ [CHR 0x0A]) st =
    call_handler handler name val (st\<lparr>prev_name := strncpy0 name MAX_NAME\<rparr>)"
proof -
  let ?l = "pair_line (name, val)"
  have hd: "?l \<noteq> []" "hd ?l = hd name" "\<not> isspace (hd name)" using assms(1) by (auto simp: pair_line_def wf_name_def trimmed_def)
  have "\<not> isspace (last ?l)" using assms(2) by (auto simp: pair_line_def trimmed_def isspace_def)
  then have strip: "rstrip (?l @ [CHR 0x0A]) = ?l" by (intro rstrip_append) (auto simp: isspace_def)
  have skip: "lskip ?l = ?l" using hd by (cases ?l) (auto simp: lskip_def)
  have "find_chars_or_comment ''=:'' False ?l = (name, CHR ''='' # val)"
    using assms(1) by (auto simp: pair_line_def wf_name_def plain_def intro!: find_chars_hit)
  moreover have "fst (find_chars_or_comment [] False val) = val"
    using assms(3) find_chars_miss[of False val "[]"] by (simp add: plain_def)
  moreover have "rstrip name = name" "rstrip (lskip val) = val"
    using assms(1,2) by (auto simp: wf_name_def rstrip_trimmed lskip_trimmed)
  ultimately have "ini_pair_line handler ?l st = call_handler handler name val (st\<lparr>prev_name := strncpy0 name MAX_NAME\<rparr>)"
    by (simp add: ini_pair_line_def Let_def)
  then show ?thesis using hd assms(1,4) by (simp add: ini_line_def Let_def strip skip wf_name_def)
qed

lemma ini_loop_append:
  "ini_loop handler n (xs @ ys) st =
    (let (err, st) = ini_loop handler n xs st in if err \<noteq> 0 then (err, st) else ini_loop handler (n + length xs) ys st)"
  by (induction xs arbitrary: n st) (auto split: prod.splits)

lemma pairs_loop:
  assumes "list_all (\<lambda>(name, val). wf_name name \<and> trimmed val \<and> plain val) pairs" "0 < n"
    "run_calls handler (map (\<lambda>(name, val). (cur_section st, name, val)) pairs) (user st) = Some u"
  shows "\<exists>st'. ini_loop handler n (map (\<lambda>p. pair_line p @ [CHR 0x0A]) pairs) st = (0, st') \<and> user st' = u"
  using assms
proof (induction pairs arbitrary: n st)
  case (Cons p pairs)
  obtain name val where p: "p = (name, val)" by (cases p)
  have step: "ini_line handler (n + 1) (pair_line p @ [CHR 0x0A]) st =
      call_handler handler name val (st\<lparr>prev_name := strncpy0 name MAX_NAME\<rparr>)"
    unfolding p using Cons.prems by (intro pair_line_step) (auto simp: p)
  obtain u1 where u1: "handler (cur_section st) name val (user st) = (True, u1)"
    "run_calls handler (map (\<lambda>(name, val). (cur_section st, name, val)) pairs) u1 = Some u"
    using Cons.prems(3) by (auto simp: p split: prod.splits if_splits)
  let ?st = "st\<lparr>prev_name := strncpy0 name MAX_NAME, user := u1\<rparr>"
  obtain st' where "ini_loop handler (n + 1) (map (\<lambda>p. pair_line p @ [CHR 0x0A]) pairs) ?st = (0, st')" "user st' = u"
    using Cons.IH[of "n + 1" ?st] Cons.prems u1 by auto
  then show ?case using step u1 by (simp add: call_handler_def)
qed simp

lemma doc_loop:
  assumes "list_all (\<lambda>(sec, pairs). wf_section sec \<and> list_all (\<lambda>(name, val). wf_name name \<and> trimmed val \<and> plain val) pairs) doc"
    "run_calls handler (doc_calls doc) (user st) = Some u"
  shows "\<exists>st'. ini_loop handler n (map (\<lambda>line. line @ [CHR 0x0A]) (doc_lines doc)) st = (0, st') \<and> user st' = u"
  using assms
proof (induction doc arbitrary: n st)
  case (Cons d doc)
  obtain sec pairs where d: "d = (sec, pairs)" by (cases d)
  let ?st = "st\<lparr>cur_section := sec, prev_name := []\<rparr>"
  have wf: "wf_section sec" "list_all (\<lambda>(name, val). wf_name name \<and> trimmed val \<and> plain val) pairs"
    using Cons.prems(1) by (auto simp: d)
  obtain u1 where u1: "run_calls handler (map (\<lambda>(name, val). (sec, name, val)) pairs) (user st) = Some u1"
    "run_calls handler (doc_calls doc) u1 = Some u"
    using Cons.prems(2) by (auto simp: d doc_calls_def run_calls_append split: option.splits)
  obtain st1 where st1: "ini_loop handler (n + 1) (map (\<lambda>p. pair_line p @ [CHR 0x0A]) pairs) ?st = (0, st1)" "user st1 = u1"
    using pairs_loop[OF wf(2), of "n + 1" handler ?st u1] u1(1) by auto
  obtain st' where "ini_loop handler (n + 1 + length pairs) (map (\<lambda>line. line @ [CHR 0x0A]) (doc_lines doc)) st1 = (0, st')"
    "user st' = u" using Cons.IH[of st1 "n + 1 + length pairs"] Cons.prems(1) u1(2) st1(2) by auto
  then show ?case
    using st1(1) section_line_step[OF wf(1), of handler "n + 1" st]
    by (simp add: d doc_lines_def ini_loop_append comp_def)
qed (simp add: doc_lines_def doc_calls_def)

lemma file_lines_concat:
  assumes "\<forall>line \<in> set lines. CHR 0x0A \<notin> set line \<and> CHR 0x00 \<notin> set line \<and> length line + 1 < INI_MAX_LINE"
  shows "file_lines (concat (map (\<lambda>line. line @ [CHR 0x0A]) lines)) = map (\<lambda>line. line @ [CHR 0x0A]) lines"
  using assms
proof (induction lines)
  case (Cons l lines)
  let ?rest = "concat (map (\<lambda>line. line @ [CHR 0x0A]) lines)"
  have "fgets (INI_MAX_LINE - 1) (l @ CHR 0x0A # ?rest) = (l @ [CHR 0x0A], ?rest)"
    using Cons.prems by (intro fgets_line) auto
  moreover have "takeWhile (\<lambda>c. c \<noteq> CHR 0x00) (l @ [CHR 0x0A]) = l @ [CHR 0x0A]"
    using Cons.prems by (auto intro: takeWhile_eq_all_conv[THEN iffD2])
  moreover obtain c s where "l @ CHR 0x0A # ?rest = c # s" by (cases "l @ CHR 0x0A # ?rest") auto
  ultimately show ?case using Cons by simp
qed simp

lemma doc_lines_plain:
  assumes "wf_doc doc" "line \<in> set (doc_lines doc)"
  shows "CHR 0x0A \<notin> set line \<and> CHR 0x00 \<notin> set line \<and> length line + 1 < INI_MAX_LINE"
proof -
  obtain sec pairs where d: "(sec, pairs) \<in> set doc" "line = section_line sec \<or> line \<in> pair_line ` set pairs"
    using assms(2) by (auto simp: doc_lines_def)
  with assms(1) have "wf_section sec" "\<forall>(name, val) \<in> set pairs. wf_name name \<and> plain val"
    by (auto simp: wf_doc_def list_all_iff)
  with d(2) have "CHR 0x0A \<notin> set line \<and> CHR 0x00 \<notin> set line"
    by (auto simp: section_line_def pair_line_def wf_section_def wf_name_def plain_def)
  then show ?thesis using assms by (simp add: wf_doc_def list_all_iff)
qed

section \<open>Clients\<close>

text \<open>What a handler keeps, the parser keeps, whatever the file and wherever it stops.\<close>

locale ini_client =
  fixes handler :: "'u ini_handler" and inv :: "'u \<Rightarrow> bool"
  assumes handler_inv: "inv u \<Longrightarrow> inv (snd (handler sec name val u))"
begin

lemma call_inv: "inv (user st) \<Longrightarrow> inv (user (snd (call_handler handler name val st)))"
  unfolding call_handler_def Let_def split_beta by (simp add: handler_inv)

lemma pair_inv: "inv (user st) \<Longrightarrow> inv (user (snd (ini_pair_line handler start st)))"
  by (cases "find_chars_or_comment ''=:'' False start") (simp add: ini_pair_line_def Let_def call_inv)

lemma section_inv: "inv (user st) \<Longrightarrow> inv (user (snd (ini_section_line start st)))"
  by (cases "find_chars_or_comment '']'' False (tl start)") (simp add: ini_section_line_def)

lemma line_inv: "inv (user st) \<Longrightarrow> inv (user (snd (ini_line handler n line st)))"
  unfolding ini_line_def Let_def by (simp only: call_inv pair_inv section_inv snd_conv split: if_split) simp

lemma loop_inv: "inv (user st) \<Longrightarrow> inv (user (snd (ini_loop handler n lines st)))"
proof (induction lines arbitrary: n st)
  case (Cons line lines)
  then show ?case using line_inv[of st "n + 1" line] by (auto split: prod.splits)
qed simp

lemma parse_inv: "inv u \<Longrightarrow> inv (snd (ini_parse fs filename handler u))"
  by (simp add: ini_parse_def ini_parse_file_def ini_parse_stream_def split_beta loop_inv split: option.split)

end

text \<open>The buffers for the section and the previous name.\<close>

definition buffers_ok :: "'u ini_state \<Rightarrow> bool" where
  "buffers_ok st \<longleftrightarrow> length (cur_section st) < MAX_SECTION \<and> length (prev_name st) < MAX_NAME"

lemma strncpy0_less: "0 < sz \<Longrightarrow> length (strncpy0 s sz) < sz"
  by (simp add: strncpy0_def)

lemma call_keeps [simp]:
  "cur_section (snd (call_handler handler name val st)) = cur_section st"
  "prev_name (snd (call_handler handler name val st)) = prev_name st"
  by (simp_all add: call_handler_def split_beta)

lemma call_buffers: "buffers_ok st \<Longrightarrow> buffers_ok (snd (call_handler handler name val st))"
  by (simp add: buffers_ok_def)

lemma line_buffers: "buffers_ok st \<Longrightarrow> buffers_ok (snd (ini_line handler n line st))"
proof -
  assume st: "buffers_ok st"
  have "buffers_ok (snd (ini_pair_line handler start st))" for start
    using st strncpy0_less[of MAX_NAME]
    by (cases "find_chars_or_comment ''=:'' False start")
      (auto simp: ini_pair_line_def Let_def buffers_ok_def ini_consts)
  moreover have "buffers_ok (snd (ini_section_line start st))" for start
    using st strncpy0_less[of MAX_SECTION]
    by (cases "find_chars_or_comment '']'' False (tl start)") (auto simp: ini_section_line_def buffers_ok_def ini_consts)
  ultimately show ?thesis
    using st unfolding ini_line_def Let_def by (simp only: call_buffers snd_conv split: if_split) simp
qed

lemma loop_buffers: "buffers_ok st \<Longrightarrow> buffers_ok (snd (ini_loop handler n lines st))"
proof (induction lines arbitrary: n st)
  case (Cons line lines)
  then show ?case using line_buffers[OF Cons.prems, of handler "n + 1" line] by (auto split: prod.splits)
qed simp

lemma file_lines_length: "line \<in> set (file_lines s) \<Longrightarrow> length line < INI_MAX_LINE"
proof (induction s rule: file_lines.induct)
  case (2 c s)
  obtain l rest where f: "fgets (INI_MAX_LINE - 1) (c # s) = (l, rest)" by fastforce
  have "length (takeWhile (\<lambda>c. c \<noteq> CHR 0x00) l) \<le> INI_MAX_LINE - 1"
    using fgets_length[of "INI_MAX_LINE - 1" "c # s"] f length_takeWhile_le[of "\<lambda>c. c \<noteq> CHR 0x00" l] by simp
  then show ?case using 2 f by (auto simp: INI_MAX_LINE_def)
qed simp

lemma loop_error:
  assumes "ini_loop handler n lines st = (e, st')" "e \<noteq> 0"
  shows "n < e \<and> e \<le> n + length lines \<and>
    (\<exists>st1. ini_loop handler n (take (e - n - 1) lines) st = (0, st1) \<and>
       ini_line handler e (lines ! (e - n - 1)) st1 = (True, st'))"
  using assms(1)
proof (induction lines arbitrary: n st)
  case Nil
  then show ?case using assms(2) by simp
next
  case (Cons line lines)
  obtain err st1 where step: "ini_line handler (n + 1) line st = (err, st1)" by (cases "ini_line handler (n + 1) line st")
  show ?case
  proof (cases err)
    case True
    then show ?thesis using Cons.prems step by auto
  next
    case False
    then have "ini_loop handler (n + 1) lines st1 = (e, st')" using Cons.prems step by simp
    note IH = Cons.IH[OF this]
    then have "e - n - 1 = Suc (e - (n + 1) - 1)" by linarith
    then show ?thesis using IH False step by simp
  qed
qed

lemma parse_document:
  assumes "wf_doc doc" "fs filename = Some (doc_text doc)" "run_calls handler (doc_calls doc) u = Some u'"
  shows "ini_parse fs filename handler u = (0, u')"
proof -
  have "file_lines (doc_text doc) = map (\<lambda>line. line @ [CHR 0x0A]) (doc_lines doc)"
    unfolding doc_text_def using doc_lines_plain[OF assms(1)] by (intro file_lines_concat) blast
  moreover obtain st where "ini_loop handler 0 (map (\<lambda>line. line @ [CHR 0x0A]) (doc_lines doc))
      \<lparr>cur_section = [], prev_name = [], user = u\<rparr> = (0, st)" "user st = u'"
    using doc_loop[of doc handler "\<lparr>cur_section = [], prev_name = [], user = u\<rparr>" u' 0] assms(1,3)
    by (auto simp: wf_doc_def)
  ultimately show ?thesis using assms(2) by (simp add: ini_parse_def ini_parse_file_def ini_parse_stream_def)
qed

section \<open>Properties\<close>

text \<open>C20. Parsing a written document calls the handler once for every pair, in the order of the document, with its
  section, its name and its value, and returns 0 when the handler accepts them all.\<close>

theorem ini_parse_roundtrip:
  assumes "wf_doc doc" "fs filename = Some (doc_text doc)" "run_calls handler (doc_calls doc) u = Some u'"
  shows "ini_parse fs filename handler u = (0, u')"
  using assms by (rule parse_document)


text \<open>The buffers are never overrun: every line read fits \<open>INI_MAX_LINE\<close> bytes with its NUL, and so do the section
  and the previous name in theirs, at whatever line the parser stops.\<close>

theorem ini_buffers_bounded:
  "list_all (\<lambda>line. length line < INI_MAX_LINE) (file_lines content) \<and>
   (let st = snd (ini_loop handler 0 lines \<lparr>cur_section = [], prev_name = [], user = u\<rparr>)
    in length (cur_section st) < MAX_SECTION \<and> length (prev_name st) < MAX_NAME)"
  using file_lines_length loop_buffers[of "\<lparr>cur_section = [], prev_name = [], user = u\<rparr>" handler 0 lines]
  by (auto simp: list_all_iff buffers_ok_def ini_consts Let_def)

section \<open>Witnesses\<close>

definition demo_doc :: ini_doc where
  "demo_doc = [(''dpdk'', [(''lcore_mask'', ''1''), (''promiscuous'', [])]), (''port0'', [(''addr'', ''192.168.1.2'')])]"

definition record_call :: "(string \<times> string \<times> string) list ini_handler" where
  "record_call = (\<lambda>sec name val calls. (name \<noteq> ''stop'', calls @ [(sec, name, val)]))"

theorem ini_parse_roundtrip_witness:
  "ini_parse (\<lambda>_. Some (doc_text demo_doc)) ''config.ini'' record_call [] = (0, doc_calls demo_doc)"
proof (rule ini_parse_roundtrip)
  show "wf_doc demo_doc" by code_simp
  show "run_calls record_call (doc_calls demo_doc) [] = Some (doc_calls demo_doc)" by code_simp
qed simp


end
