(* ===== verification/FF_Config_Str.thy ===== *)
theory FF_Config_Str
  imports FF_Config_Types FF_Ini_Parser
begin

text \<open>
  The string functions below the configuration of \<open>lib/ff_config.c\<close>: numbers, lists of numbers and
  ranges, the mask of processor cores, and the binary search; with \<open>rte_strsplit\<close> of
  \<open>dpdk/lib/eal/common/eal_common_string_fns.c\<close> and what they use of the C library.

  An array is the list of its elements; None is an access outside of an array or to memory not
  initialised. A write beyond the array is such an access, whatever stands there.
\<close>

section \<open>Numbers\<close>

definition RTE_MAX_LCORE :: nat where "RTE_MAX_LCORE = 128"
definition RTE_MAX_ETHPORTS :: nat where "RTE_MAX_ETHPORTS = 32"
definition BITS_PER_HEX :: nat where "BITS_PER_HEX = 4"

definition code :: "char \<Rightarrow> nat" where
  "code c = of_char c"

definition isdigit :: "char \<Rightarrow> bool" where
  "isdigit c \<longleftrightarrow> 48 \<le> code c \<and> code c \<le> 57"

definition isupper :: "char \<Rightarrow> bool" where
  "isupper c \<longleftrightarrow> 65 \<le> code c \<and> code c \<le> 90"

definition isxdigit :: "char \<Rightarrow> bool" where
  "isxdigit c \<longleftrightarrow> isdigit c \<or> 65 \<le> code c \<and> code c \<le> 70 \<or> 97 \<le> code c \<and> code c \<le> 102"

definition isblank :: "char \<Rightarrow> bool" where
  "isblank c \<longleftrightarrow> c = CHR '' '' \<or> c = CHR 0x09"

definition dec_value :: "string \<Rightarrow> nat" where
  "dec_value s = foldl (\<lambda>v c. v * 10 + (code c - 48)) 0 s"

text \<open>The sign, the magnitude and the rest of a decimal number after whitespace; None without a digit.\<close>

definition scan_num :: "string \<Rightarrow> (bool \<times> nat \<times> string) option" where
  "scan_num s =
    (let s = dropWhile isspace s;
         neg = (s \<noteq> [] \<and> hd s = CHR ''-'');
         s = (if s \<noteq> [] \<and> (hd s = CHR ''-'' \<or> hd s = CHR ''+'') then tl s else s);
         digits = takeWhile isdigit s
     in if digits = [] then None else Some (neg, dec_value digits, dropWhile isdigit s))"

definition LONG_MAX :: int where "LONG_MAX = 2 ^ 63 - 1"

text \<open>The C library functions: the value and what is left of the string; \<open>strtoul\<close> also returns whether it
  set \<open>errno\<close>.\<close>

definition strtol :: "string \<Rightarrow> int \<times> string" where
  "strtol s = (case scan_num s of None \<Rightarrow> (0, s)
    | Some (neg, n, rest) \<Rightarrow> (max (- LONG_MAX - 1) (min LONG_MAX (if neg then - int n else int n)), rest))"

definition strtoul :: "string \<Rightarrow> nat \<times> string \<times> bool" where
  "strtoul s = (case scan_num s of None \<Rightarrow> (0, s, False)
    | Some (neg, n, rest) \<Rightarrow>
        if n \<ge> 2 ^ 64 then (2 ^ 64 - 1, rest, True)
        else (if neg then (2 ^ 64 - n) mod 2 ^ 64 else n, rest, False))"

definition to_int :: "int \<Rightarrow> int" where
  "to_int v = sint (of_int v :: 32 word)"

definition atoi :: "string \<Rightarrow> int" where "atoi s = to_int (fst (strtol s))"
definition atol :: "string \<Rightarrow> int" where "atol s = fst (strtol s)"

text \<open>\<open>sscanf(section, "<prefix>%d", ..)\<close> with one conversion.\<close>

definition sscanf_int :: "string \<Rightarrow> string \<Rightarrow> int option" where
  "sscanf_int prefix s =
    (if take (length prefix) s = prefix
     then (case scan_num (drop (length prefix) s) of None \<Rightarrow> None
           | Some _ \<Rightarrow> Some (atoi (drop (length prefix) s)))
     else None)"

definition is_integer :: "string \<Rightarrow> bool" where
  "is_integer s =
    (let s = (if s \<noteq> [] \<and> (hd s = CHR ''-'' \<or> hd s = CHR ''+'') then tl s else s)
     in if s = [] \<or> \<not> isdigit (hd s) then False else dropWhile isdigit (tl s) = [])"

definition ff_parse_u16 :: "string \<Rightarrow> nat \<Rightarrow> nat \<Rightarrow> u16 option" where
  "ff_parse_u16 val mn mx =
    (if val = [] then None
     else let (v, endptr, erange) = strtoul val
          in if erange \<or> endptr = val \<or> endptr \<noteq> [] \<or> v < mn \<or> v > mx then None else Some (of_nat v))"

definition ff_parse_mbuf_mode :: "string \<Rightarrow> ff_mbuf_mode option" where
  "ff_parse_mbuf_mode val =
    (if val = ''large'' then Some FF_MBUF_MODE_LARGE
     else if val = ''scatter'' then Some FF_MBUF_MODE_SCATTER
     else None)"

section \<open>Lists\<close>

text \<open>The tokens that \<open>rte_strsplit\<close> leaves in the string. The last token allowed keeps the rest of the
  string, unless a delimiter stands right at its start.\<close>

function rte_strsplit :: "string \<Rightarrow> nat \<Rightarrow> char \<Rightarrow> string list" where
  "rte_strsplit s maxtokens delim =
    (if s = [] \<or> maxtokens = 0 then []
     else if maxtokens = 1 then [if hd s = delim then [] else s]
     else takeWhile (\<lambda>c. c \<noteq> delim) s # rte_strsplit (drop 1 (dropWhile (\<lambda>c. c \<noteq> delim) s)) (maxtokens - 1) delim)"
  by pat_completeness auto
termination by (relation "measure (\<lambda>(_, n, _). n)") auto

declare rte_strsplit.simps [simp del]

definition strstrip :: "string \<Rightarrow> string" where
  "strstrip s = rev (dropWhile (\<lambda>c. c = CHR '' '') (rev (dropWhile (\<lambda>c. c = CHR '' '') s)))"

text \<open>The array, the elements counted, and whether parsing goes on. The count is tested against the
  capacity with \<open>>\<close>, so a write right behind the array is not prevented.\<close>

definition list_put :: "nat \<Rightarrow> int \<Rightarrow> u16 list \<times> nat \<Rightarrow> (bool \<times> u16 list \<times> nat) option" where
  "list_put max_ele v = (\<lambda>(arr, nr_ele).
     if nr_ele > max_ele then Some (False, arr, nr_ele)
     else if nr_ele \<ge> length arr then None
     else Some (True, arr[nr_ele := of_int v], nr_ele + 1))"

text \<open>The loop from \<open>j\<close> to \<open>rv\<close>; leaving the range of \<open>int\<close> is an error of the program, too. The first
  argument bounds the iterations: the array is full before it is used up.\<close>

primrec list_range :: "nat \<Rightarrow> nat \<Rightarrow> int \<Rightarrow> int \<Rightarrow> u16 list \<times> nat \<Rightarrow> (bool \<times> u16 list \<times> nat) option" where
  "list_range 0 max_ele j rv st = None"
| "list_range (Suc n) max_ele j rv st =
    (if j > rv then Some (True, st)
     else if j \<ge> 2 ^ 31 then None
     else case list_put max_ele j st of
            None \<Rightarrow> None
          | Some (False, st) \<Rightarrow> Some (False, st)
          | Some (True, st) \<Rightarrow> list_range n max_ele (j + 1) rv st)"

definition list_token :: "nat \<Rightarrow> string \<Rightarrow> u16 list \<times> nat \<Rightarrow> (bool \<times> u16 list \<times> nat) option" where
  "list_token max_ele tok st =
    (if CHR ''-'' \<notin> set tok
     then let (v, endptr) = strtol (strstrip tok)
          in if endptr \<noteq> [] then Some (False, st) else list_put max_ele v st
     else let lbound = strstrip (takeWhile (\<lambda>c. c \<noteq> CHR ''-'') tok);
              rbound = strstrip (drop 1 (dropWhile (\<lambda>c. c \<noteq> CHR ''-'') tok));
              (lv, lend) = strtol lbound;
              (rv, rend) = strtol rbound
          in if lend \<noteq> [] then Some (False, st)
             else if rend \<noteq> [] then Some (False, st)
             else list_range (length (fst st) + 2) max_ele (to_int lv) rv st)"

primrec list_tokens :: "nat \<Rightarrow> string list \<Rightarrow> u16 list \<times> nat \<Rightarrow> (bool \<times> u16 list \<times> nat) option" where
  "list_tokens max_ele [] st = Some (True, st)"
| "list_tokens max_ele (tok # toks) st =
    (case list_token max_ele tok st of
       None \<Rightarrow> None
     | Some (False, st) \<Rightarrow> Some (False, st)
     | Some (True, st) \<Rightarrow> list_tokens max_ele toks st)"

text \<open>The return value, the array and \<open>*sz\<close>.\<close>

definition parse_config_list :: "u16 list \<Rightarrow> nat \<Rightarrow> string \<Rightarrow> (bool \<times> u16 list \<times> nat) option" where
  "parse_config_list arr sz val =
    (case list_tokens sz (rte_strsplit val 128 (CHR '','')) (arr, 0) of
       None \<Rightarrow> None
     | Some (False, arr, _) \<Rightarrow> Some (False, arr, sz)
     | Some (True, arr, nr_ele) \<Rightarrow>
         if nr_ele = 0 then Some (True, arr, sz)
         else Some (True, sort (take nr_ele arr) @ drop nr_ele arr, nr_ele))"

text \<open>The search in \<open>arr[l..r]\<close>; \<open>r < l\<close> is an empty range.\<close>

function uint16_binary_search :: "u16 list \<Rightarrow> int \<Rightarrow> int \<Rightarrow> u16 \<Rightarrow> int" where
  "uint16_binary_search arr l r x =
    (if r \<ge> l then
       let mid = l + (r - l) div 2
       in if arr ! nat mid = x then mid
          else if arr ! nat mid > x then uint16_binary_search arr l (mid - 1) x
          else uint16_binary_search arr (mid + 1) r x
     else -1)"
  by pat_completeness auto
termination by (relation "measure (\<lambda>(_, l, r, _). nat (r - l + 1))") auto

declare uint16_binary_search.simps [simp del]

section \<open>The core mask\<close>

definition xdigit2val :: "char \<Rightarrow> nat" where
  "xdigit2val c = (if isdigit c then code c - 48 else if isupper c then code c - 65 + 10 else code c - 97 + 10)"

text \<open>\<open>(idx, count, proc_lcore, proc_mask)\<close> and one iteration of the loop over the bits of a digit.\<close>

type_synonym mask_state = "nat \<times> nat \<times> u16 list \<times> string option"

definition core_mask :: "nat \<Rightarrow> string" where
  "core_mask idx = ''1248'' ! (idx mod 4) # replicate (idx div 4) (CHR ''0'')"

definition mask_bit :: "int \<Rightarrow> nat \<Rightarrow> nat \<Rightarrow> mask_state \<Rightarrow> mask_state" where
  "mask_bit pid v j = (\<lambda>(idx, count, lcore, pmask).
     if idx \<ge> RTE_MAX_LCORE then (idx, count, lcore, pmask)
     else if bit v j
     then (idx + 1, count + 1, lcore[count := of_nat idx],
           if pid = int count then Some (core_mask idx) else pmask)
     else (idx + 1, count, lcore, pmask))"

text \<open>The loop over the digits from the last one; what is left when the cores are used up.\<close>

fun mask_digits :: "int \<Rightarrow> string \<Rightarrow> mask_state \<Rightarrow> bool \<times> string \<times> mask_state" where
  "mask_digits pid [] st = (True, [], st)"
| "mask_digits pid (c # cs) st =
    (if fst st \<ge> RTE_MAX_LCORE then (True, c # cs, st)
     else if \<not> isxdigit c then (False, c # cs, st)
     else mask_digits pid cs (fold (mask_bit pid (xdigit2val c)) [0..<BITS_PER_HEX] st))"

definition mask_body :: "string \<Rightarrow> string" where
  "mask_body coremask =
    (let s = dropWhile isblank coremask;
         s = (if take 2 s = ''0x'' \<or> take 2 s = ''0X'' then drop 2 s else s)
     in rev (dropWhile isblank (rev s)))"

definition parse_lcore_mask :: "string \<Rightarrow> ff_dpdk_cfg \<Rightarrow> bool \<times> ff_dpdk_cfg" where
  "parse_lcore_mask coremask d =
    (let body = mask_body coremask;
         zeros = replicate RTE_MAX_LCORE 0;
         d = d\<lparr>proc_lcore := Some zeros\<rparr>
     in if body = [] then (False, d)
        else
          let (ok, rest, idx, count, lcore, pmask) = mask_digits (proc_id d) (rev body) (0, 0, zeros, proc_mask d);
              d = d\<lparr>proc_lcore := Some lcore, proc_mask := pmask\<rparr>
          in if \<not> ok then (False, d)
             else if \<exists>c \<in> set rest. c \<noteq> CHR ''0'' then (False, d)
             else if proc_id d \<ge> int count then (False, d)
             else (True, d\<lparr>nb_procs := int count\<rparr>))"

section \<open>The binary search\<close>

lemma binary_search_range:
  assumes "\<And>i j. 0 \<le> i \<Longrightarrow> i \<le> j \<Longrightarrow> j < int n \<Longrightarrow> arr ! nat i \<le> arr ! nat j" "0 \<le> l" "r < int n"
  shows "if uint16_binary_search arr l r x < 0 then \<forall>i. l \<le> i \<and> i \<le> r \<longrightarrow> arr ! nat i \<noteq> x
    else l \<le> uint16_binary_search arr l r x \<and> uint16_binary_search arr l r x \<le> r \<and>
      arr ! nat (uint16_binary_search arr l r x) = x"
  using assms(2,3)
proof (induction "nat (r - l + 1)" arbitrary: l r rule: less_induct)
  case less
  define mid where "mid = l + (r - l) div 2"
  show ?case
  proof (cases "l \<le> r")
    case False
    then have "uint16_binary_search arr l r x = -1" by (subst uint16_binary_search.simps) simp
    then show ?thesis using False by auto
  next
    case True
    then have mid: "l \<le> mid" "mid \<le> r" by (auto simp: mid_def)
    have s: "uint16_binary_search arr l r x =
      (if arr ! nat mid = x then mid else if arr ! nat mid > x then uint16_binary_search arr l (mid - 1) x
       else uint16_binary_search arr (mid + 1) r x)"
      using True by (subst uint16_binary_search.simps) (simp add: mid_def Let_def)
    consider "arr ! nat mid = x" | "arr ! nat mid > x" | "arr ! nat mid < x" by fastforce
    then show ?thesis
    proof cases
      case 1
      then show ?thesis using s mid less.prems by simp
    next
      case 2
      then have e: "uint16_binary_search arr l r x = uint16_binary_search arr l (mid - 1) x" using s by auto
      have up: "arr ! nat i \<noteq> x" if "mid \<le> i" "i \<le> r" for i
        using assms(1)[of mid i] that mid less.prems 2 by fastforce
      note IH = less.hyps[of "mid - 1" l]
      show ?thesis
      proof (cases "uint16_binary_search arr l (mid - 1) x < 0")
        case True
        then have "arr ! nat i \<noteq> x" if "l \<le> i" "i \<le> r" for i
          using IH mid less.prems up[of i] that by (cases "i < mid") auto
        then show ?thesis unfolding e using True by simp
      qed (use IH mid less.prems e in auto)
    next
      case 3
      then have e: "uint16_binary_search arr l r x = uint16_binary_search arr (mid + 1) r x" using s by auto
      have low: "arr ! nat i \<noteq> x" if "l \<le> i" "i \<le> mid" for i
        using assms(1)[of i mid] that mid less.prems 3 by fastforce
      note IH = less.hyps[of r "mid + 1"]
      show ?thesis
      proof (cases "uint16_binary_search arr (mid + 1) r x < 0")
        case True
        then have "arr ! nat i \<noteq> x" if "l \<le> i" "i \<le> r" for i
          using IH mid less.prems low[of i] that by (cases "mid < i") auto
        then show ?thesis unfolding e using True by simp
      qed (use IH mid less.prems e in auto)
    qed
  qed
qed

section \<open>Decimal numbers\<close>

text \<open>The decimal digits of a number.\<close>

fun dec :: "nat \<Rightarrow> string" where
  "dec n = (if n < 10 then [char_of (48 + n)] else dec (n div 10) @ [char_of (48 + n mod 10)])"

declare dec.simps [simp del]

lemma code_digit: "d < 10 \<Longrightarrow> code (char_of (48 + d)) = 48 + d"
  by (simp add: code_def)

lemma dec_value_snoc: "dec_value (s @ [c]) = dec_value s * 10 + (code c - 48)"
  by (simp add: dec_value_def)

lemma dec_value_dec: "dec_value (dec n) = n"
proof (induction n rule: less_induct)
  case (less n)
  show ?case
  proof (cases "n < 10")
    case True
    then show ?thesis by (subst dec.simps) (simp add: dec_value_def code_digit)
  next
    case False
    then show ?thesis using less[of "n div 10"] by (subst dec.simps) (simp add: dec_value_snoc code_digit)
  qed
qed

lemma dec_digits: "list_all isdigit (dec n) \<and> dec n \<noteq> []"
proof (induction n rule: less_induct)
  case (less n)
  show ?case
  proof (cases "n < 10")
    case True
    then show ?thesis by (subst dec.simps, subst dec.simps) (simp add: isdigit_def code_digit)
  next
    case False
    have "isdigit (char_of (48 + n mod 10))" by (simp add: isdigit_def code_digit)
    moreover have "dec n = dec (n div 10) @ [char_of (48 + n mod 10)]" using False by (subst dec.simps) simp
    ultimately show ?thesis using less[of "n div 10"] False by simp
  qed
qed

lemma digit_props: "isdigit c \<Longrightarrow> \<not> isspace c \<and> c \<noteq> CHR ''-'' \<and> c \<noteq> CHR ''+'' \<and> c \<noteq> CHR '','' \<and> c \<noteq> CHR '' ''"
  by (auto simp: isdigit_def isspace_def code_def)

lemma dec_hd: "isdigit (hd (dec n))"
  using dec_digits[of n] by (cases "dec n") auto

lemma scan_dec: "scan_num (dec n) = Some (False, n, [])"
proof -
  have tw: "takeWhile isdigit (dec n) = dec n" "dropWhile isdigit (dec n) = []"
    using dec_digits[of n] by (auto simp: list_all_iff takeWhile_eq_all_conv)
  have "dropWhile isspace xs = xs" if "xs \<noteq> []" "\<not> isspace (hd xs)" for xs using that by (cases xs) auto
  then have sp: "dropWhile isspace (dec n) = dec n" using digit_props[OF dec_hd] dec_digits[of n] by blast
  have "hd (dec n) \<noteq> CHR ''-''" "hd (dec n) \<noteq> CHR ''+''" "dec n \<noteq> []"
    using digit_props[OF dec_hd, of n] dec_digits[of n] by blast+
  then show ?thesis by (simp add: scan_num_def Let_def dec_value_dec tw sp)
qed

lemma strtol_dec: "int n \<le> LONG_MAX \<Longrightarrow> strtol (dec n) = (int n, [])"
  by (simp add: strtol_def scan_dec LONG_MAX_def)

lemma to_int_small: "- (2 ^ 31) \<le> v \<Longrightarrow> v < 2 ^ 31 \<Longrightarrow> to_int v = v"
  by (simp add: to_int_def signed_of_int signed_take_bit_int_eq_self)

lemma atoi_dec: "n < 2 ^ 31 \<Longrightarrow> atoi (dec n) = int n"
  by (simp add: atoi_def strtol_dec LONG_MAX_def to_int_small)

lemma strstrip_dec: "strstrip (dec n) = dec n"
proof -
  have "dropWhile (\<lambda>c. c = CHR '' '') xs = xs" if "list_all isdigit xs" for xs
    using that digit_props by (cases xs) auto
  then show ?thesis using dec_digits[of n] by (simp add: strstrip_def list_all_rev)
qed

section \<open>Lists of numbers\<close>

fun joined :: "char \<Rightarrow> string list \<Rightarrow> string" where
  "joined d [] = []"
| "joined d [tok] = tok"
| "joined d (tok # toks) = tok @ d # joined d toks"

lemma strsplit_joined:
  assumes "list_all (\<lambda>tok. tok \<noteq> [] \<and> d \<notin> set tok) toks" "length toks \<le> n"
  shows "rte_strsplit (joined d toks) n d = toks"
  using assms
proof (induction d toks arbitrary: n rule: joined.induct)
  case (1 d)
  then show ?case by (simp add: rte_strsplit.simps)
next
  case (2 d tok)
  have t: "takeWhile (\<lambda>c. c \<noteq> d) tok = tok" "dropWhile (\<lambda>c. c \<noteq> d) tok = []"
    using 2 by (auto simp: takeWhile_eq_all_conv)
  moreover have "hd tok \<noteq> d" using 2 by (cases tok) auto
  ultimately show ?case using 2 by (subst rte_strsplit.simps) (simp add: rte_strsplit.simps t)
next
  case (3 d tok t toks)
  have "takeWhile (\<lambda>c. c \<noteq> d) (tok @ d # s) = tok" "dropWhile (\<lambda>c. c \<noteq> d) (tok @ d # s) = d # s" for s
    using 3(2) by (auto simp: takeWhile_append dropWhile_append)
  then show ?case using 3 by (subst rte_strsplit.simps) simp
qed

text \<open>A list as a user writes it.\<close>

datatype list_item = Single nat | Range nat nat

primrec item_text :: "list_item \<Rightarrow> string" where
  "item_text (Single n) = dec n"
| "item_text (Range a b) = dec a @ CHR ''-'' # dec b"

primrec item_values :: "list_item \<Rightarrow> nat list" where
  "item_values (Single n) = [n]"
| "item_values (Range a b) = [a..<Suc b]"

definition list_text :: "list_item list \<Rightarrow> string" where
  "list_text items = joined (CHR '','') (map item_text items)"

definition list_values :: "list_item list \<Rightarrow> nat list" where
  "list_values items = concat (map item_values items)"

definition filled :: "u16 list \<Rightarrow> nat \<Rightarrow> nat list \<Rightarrow> u16 list" where
  "filled arr k vs = take k arr @ map of_nat vs @ drop (k + length vs) arr"

lemma filled_Cons: "k < length arr \<Longrightarrow> filled arr k (v # vs) = filled (arr[k := of_nat v]) (k + 1) vs"
  by (simp add: filled_def take_Suc_conv_app_nth)

lemma filled_append: "k + length vs \<le> length arr \<Longrightarrow> filled (filled arr k vs) (k + length vs) ws = filled arr k (vs @ ws)"
  by (simp add: filled_def ac_simps)

lemma filled_length: "k + length vs \<le> length arr \<Longrightarrow> length (filled arr k vs) = length arr"
  by (simp add: filled_def)

text \<open>Values written one after another: they fill the array, or the write behind it is reached.\<close>

lemma list_range_result:
  assumes "b < 2 ^ 31 - 1" "min (Suc b - a) (length arr - k) < n" "k \<le> length arr"
  shows "list_range n (length arr) (int a) (int b) (arr, k) =
    (if k + (Suc b - a) \<le> length arr then Some (True, filled arr k [a..<Suc b], k + (Suc b - a)) else None)"
  using assms(2,3)
proof (induction n arbitrary: a arr k)
  case (Suc n)
  show ?case
  proof (cases "a \<le> b")
    case False
    then show ?thesis using Suc.prems by (simp add: filled_def)
  next
    case True
    show ?thesis
    proof (cases "k < length arr")
      case False
      then show ?thesis using True assms(1) Suc.prems by (simp add: list_put_def)
    next
      case k: True
      have "list_range n (length arr) (int (Suc a)) (int b) (arr[k := of_nat a], k + 1) =
        (if k + 1 + (Suc b - Suc a) \<le> length arr
         then Some (True, filled (arr[k := of_nat a]) (k + 1) [Suc a..<Suc b], k + 1 + (Suc b - Suc a)) else None)"
        using Suc.IH[where a = "Suc a" and k = "k + 1" and arr = "arr[k := of_nat a]"] Suc.prems k True
        by (simp only: length_list_update)
      moreover have "filled arr k [a..<Suc b] = filled (arr[k := of_nat a]) (k + 1) [Suc a..<Suc b]"
        using True k by (simp add: upt_conv_Cons filled_Cons del: upt_Suc)
      moreover have "k + 1 + (Suc b - Suc a) = k + (Suc b - a)" using True by simp
      ultimately show ?thesis using True k assms(1) by (simp add: list_put_def add.commute del: upt_Suc)
    qed
  qed
qed simp

definition item_ok :: "list_item \<Rightarrow> bool" where
  "item_ok item = (case item of Single n \<Rightarrow> n < 2 ^ 31 - 1 | Range a b \<Rightarrow> a < 2 ^ 31 - 1 \<and> b < 2 ^ 31 - 1)"

lemma item_text_props: "item_text item \<noteq> []" "CHR '','' \<notin> set (item_text item)"
  using dec_digits digit_props by (cases item; fastforce simp: list_all_iff)+

lemma list_token_result:
  assumes "item_ok item" "k \<le> length arr"
  shows "list_token (length arr) (item_text item) (arr, k) =
    (if k + length (item_values item) \<le> length arr
     then Some (True, filled arr k (item_values item), k + length (item_values item)) else None)"
proof -
  have no_minus: "CHR ''-'' \<notin> set (dec n)" for n using dec_digits[of n] digit_props by (auto simp: list_all_iff)
  show ?thesis
  proof (cases item)
    case (Single n)
    then have "strtol (dec n) = (int n, [])" using assms(1) by (intro strtol_dec) (simp add: item_ok_def LONG_MAX_def)
    then show ?thesis using Single no_minus[of n] assms(2)
      by (auto simp: list_token_def strstrip_dec list_put_def filled_def upd_conv_take_nth_drop)
  next
    case (Range a b)
    have ab: "a < 2 ^ 31 - 1" "b < 2 ^ 31 - 1" using assms(1) by (simp_all add: Range item_ok_def)
    have cut: "takeWhile (\<lambda>c. c \<noteq> CHR ''-'') (dec a @ CHR ''-'' # dec b) = dec a"
      "dropWhile (\<lambda>c. c \<noteq> CHR ''-'') (dec a @ CHR ''-'' # dec b) = CHR ''-'' # dec b"
      using no_minus[of a] by (auto simp: takeWhile_append dropWhile_append)
    have num: "strtol (dec a) = (int a, [])" "strtol (dec b) = (int b, [])" "to_int (int a) = int a"
      using ab by (auto intro!: strtol_dec to_int_small simp: LONG_MAX_def)
    have "list_token (length arr) (item_text item) (arr, k) = list_range (length arr + 2) (length arr) (int a) (int b) (arr, k)"
      using cut num by (simp add: Range list_token_def strstrip_dec)
    moreover have "min (Suc b - a) (length arr - k) < length arr + 2" by linarith
    ultimately show ?thesis
      using list_range_result[OF ab(2) _ assms(2)] unfolding Range item_values.simps length_upt by (simp only:)
  qed
qed

lemma list_tokens_result:
  assumes "list_all item_ok items" "k \<le> length arr"
  shows "list_tokens (length arr) (map item_text items) (arr, k) =
    (if k + length (list_values items) \<le> length arr
     then Some (True, filled arr k (list_values items), k + length (list_values items)) else None)"
  using assms
proof (induction items arbitrary: arr k)
  case (Cons item items)
  let ?vs = "item_values item" and ?arr = "filled arr k (item_values item)"
  note tok = list_token_result[of item k arr]
  show ?case
  proof (cases "k + length ?vs \<le> length arr")
    case True
    then have "list_tokens (length arr) (map item_text items) (?arr, k + length ?vs) =
      (if k + length ?vs + length (list_values items) \<le> length arr
       then Some (True, filled ?arr (k + length ?vs) (list_values items), k + length ?vs + length (list_values items)) else None)"
      using Cons.IH[of "k + length ?vs" ?arr] Cons.prems(1) filled_length[OF True] by simp
    then show ?thesis using True tok Cons.prems filled_append[OF True] by (auto simp: list_values_def add.assoc)
  next
    case False
    then show ?thesis using tok Cons.prems by (simp add: list_values_def)
  qed
qed (simp add: list_values_def filled_def)

lemma parse_list_items:
  assumes "list_all item_ok items" "length items \<le> 128" "list_values items \<noteq> []"
  shows "parse_config_list arr (length arr) (list_text items) =
    (let vs = list_values items
     in if length vs \<le> length arr then Some (True, sort (map of_nat vs) @ drop (length vs) arr, length vs)
        else None)"
proof -
  have "list_all (\<lambda>tok. tok \<noteq> [] \<and> CHR '','' \<notin> set tok) (map item_text items)"
    using item_text_props by (simp add: list_all_iff)
  then have "rte_strsplit (list_text items) 128 (CHR '','') = map item_text items"
    unfolding list_text_def by (rule strsplit_joined) (use assms(2) in simp)
  then show ?thesis
    using list_tokens_result[OF assms(1), of 0 arr] assms(3)
    by (simp add: parse_config_list_def filled_def Let_def)
qed

lemma binary_search_result:
  assumes "sorted (take n arr)" "n \<le> length arr"
  shows "(uint16_binary_search arr 0 (int n - 1) x < 0 \<longleftrightarrow> x \<notin> set (take n arr)) \<and>
    (0 \<le> uint16_binary_search arr 0 (int n - 1) x \<longrightarrow>
      uint16_binary_search arr 0 (int n - 1) x < int n \<and> arr ! nat (uint16_binary_search arr 0 (int n - 1) x) = x)"
proof -
  have mono: "arr ! nat i \<le> arr ! nat j" if "0 \<le> i" "i \<le> j" "j < int n" for i j
    using sorted_nth_mono[OF assms(1), of "nat i" "nat j"] that assms(2) by simp
  note range = binary_search_range[OF mono, of n 0 "int n - 1" x]
  have mem: "x \<in> set (take n arr) \<longleftrightarrow> (\<exists>i. 0 \<le> i \<and> i \<le> int n - 1 \<and> arr ! nat i = x)"
  proof
    assume "x \<in> set (take n arr)"
    then obtain k where "k < n" "arr ! k = x" using assms(2) by (auto simp: in_set_conv_nth)
    then show "\<exists>i. 0 \<le> i \<and> i \<le> int n - 1 \<and> arr ! nat i = x" by (intro exI[of _ "int k"]) auto
  next
    assume "\<exists>i. 0 \<le> i \<and> i \<le> int n - 1 \<and> arr ! nat i = x"
    then obtain i where i: "0 \<le> i" "i \<le> int n - 1" "arr ! nat i = x" by blast
    then have "nat i < n" by simp
    then show "x \<in> set (take n arr)" using assms(2) i(3) by (auto simp: in_set_conv_nth intro!: exI[of _ "nat i"])
  qed
  show ?thesis using range mem by (auto split: if_splits)
qed

section \<open>Properties of lists and numbers\<close>

text \<open>C21. A list of numbers and ranges is read back as it was written: the array then starts with its values in
  increasing order and the size is their number. With more values than the array has room for, the loop writes
  right behind the array before it tests the count.\<close>

theorem config_list_roundtrip:
  assumes "list_all item_ok items" "length items \<le> 128" "list_values items \<noteq> []"
  shows "parse_config_list arr (length arr) (list_text items) =
    (let vs = list_values items
     in if length vs \<le> length arr then Some (True, sort (map of_nat vs) @ drop (length vs) arr, length vs)
        else None)"
  using assms by (rule parse_list_items)

text \<open>An accepted 16-bit number lies in the range asked for, and every number of the range is accepted as
  written in decimal.\<close>

theorem parse_u16_bounds:
  assumes "mx \<le> 65535"
  shows "(ff_parse_u16 val mn mx = Some v \<longrightarrow> mn \<le> unat v \<and> unat v \<le> mx) \<and>
    ff_parse_u16 (dec n) mn mx = (if mn \<le> n \<and> n \<le> mx then Some (of_nat n) else None)"
proof
  show "ff_parse_u16 val mn mx = Some v \<longrightarrow> mn \<le> unat v \<and> unat v \<le> mx"
    using assms by (auto simp: ff_parse_u16_def unat_of_nat split: if_splits prod.splits)
  have "strtoul (dec n) = (if n \<ge> 2 ^ 64 then (2 ^ 64 - 1, [], True) else (n, [], False))"
    by (simp add: strtoul_def scan_dec)
  then show "ff_parse_u16 (dec n) mn mx = (if mn \<le> n \<and> n \<le> mx then Some (of_nat n) else None)"
    using assms dec_digits[of n] by (auto simp: ff_parse_u16_def)
qed

text \<open>On a sorted array the binary search returns the position of the element if it is there, and a negative
  number otherwise.\<close>

theorem binary_search_correct:
  assumes "sorted (take n arr)" "n \<le> length arr"
  shows "(uint16_binary_search arr 0 (int n - 1) x < 0 \<longleftrightarrow> x \<notin> set (take n arr)) \<and>
    (0 \<le> uint16_binary_search arr 0 (int n - 1) x \<longrightarrow>
      uint16_binary_search arr 0 (int n - 1) x < int n \<and> arr ! nat (uint16_binary_search arr 0 (int n - 1) x) = x)"
  using assms by (rule binary_search_result)

section \<open>The core mask as a number\<close>

definition hex_value :: "string \<Rightarrow> nat" where
  "hex_value s = foldl (\<lambda>v c. v * 16 + xdigit2val c) 0 s"

definition lcores :: "nat \<Rightarrow> nat list" where
  "lcores m = filter (bit m) [0..<RTE_MAX_LCORE]"

text \<open>The digits from the last one on.\<close>

primrec digits_value :: "string \<Rightarrow> nat" where
  "digits_value [] = 0"
| "digits_value (c # cs) = xdigit2val c + 16 * digits_value cs"

definition digits_bits :: "string \<Rightarrow> bool list" where
  "digits_bits cs = concat (map (\<lambda>c. map (bit (xdigit2val c)) [0..<4]) cs)"

lemma hex_value_rev: "hex_value (rev cs) = digits_value cs"
  by (induction cs) (simp_all add: hex_value_def)

lemma xdigit2val_less: "isxdigit c \<Longrightarrow> xdigit2val c < 16"
  by (auto simp: isxdigit_def xdigit2val_def isdigit_def isupper_def)

lemma xdigit2val_zero: "isxdigit c \<Longrightarrow> xdigit2val c = 0 \<longleftrightarrow> c = CHR ''0''"
proof -
  assume "isxdigit c"
  then have "xdigit2val c = 0 \<longleftrightarrow> code c = 48" by (auto simp: isxdigit_def xdigit2val_def isdigit_def isupper_def)
  also have "\<dots> \<longleftrightarrow> c = CHR ''0''" using of_char_eq_iff[of c "CHR ''0''", where ?'a = nat] by (simp add: code_def)
  finally show ?thesis .
qed

lemma digits_bits_length: "length (digits_bits cs) = 4 * length cs"
  by (induction cs) (simp_all add: digits_bits_def)

lemma bit_digit: "x < 16 \<Longrightarrow> bit (x + 16 * y) n = (if n < 4 then bit x n else bit (y :: nat) (n - 4))"
proof -
  assume x: "x < 16"
  have "take_bit 4 x = x" using x by (simp add: take_bit_eq_mod)
  then have hi: "\<not> bit x n" if "4 \<le> n" for n by (metis bit_take_bit_iff that not_less)
  have "x AND push_bit 4 y = 0"
  proof (rule bit_eqI)
    fix n
    show "bit (x AND push_bit 4 y) n = bit 0 n" using hi[of n] by (auto simp: bit_and_iff bit_push_bit_iff)
  qed
  then have "x + push_bit 4 y = x OR push_bit 4 y" by (rule disjunctive_add_eq_or)
  moreover have "push_bit 4 y = 16 * y" by (simp add: push_bit_eq_mult)
  ultimately have "bit (x + 16 * y) n = bit (x OR push_bit 4 y) n" by simp
  then show ?thesis using hi[of n] by (cases "n < 4") (auto simp: bit_or_iff bit_push_bit_iff)
qed

lemma digits_bits_nth:
  "list_all isxdigit cs \<Longrightarrow> i < 4 * length cs \<Longrightarrow> digits_bits cs ! i = bit (digits_value cs) i"
proof (induction cs arbitrary: i)
  case (Cons c cs)
  have "digits_bits (c # cs) = map (bit (xdigit2val c)) [0..<4] @ digits_bits cs" by (simp add: digits_bits_def)
  then show ?case using Cons xdigit2val_less[of c]
    by (cases "i < 4") (auto simp: nth_append bit_digit simp del: upt_rec_numeral)
qed simp

lemma digits_value_append: "digits_value (xs @ ys) = digits_value xs + 16 ^ length xs * digits_value ys"
  by (induction xs) (simp_all add: algebra_simps)

lemma digits_value_less: "list_all isxdigit cs \<Longrightarrow> digits_value cs < 16 ^ length cs"
proof (induction cs)
  case (Cons c cs)
  then show ?case using xdigit2val_less[of c] by (auto intro: less_le_trans)
qed simp

lemma digits_value_zero: "list_all isxdigit cs \<Longrightarrow> digits_value cs = 0 \<longleftrightarrow> (\<forall>c \<in> set cs. c = CHR ''0'')"
  by (induction cs) (auto simp: xdigit2val_zero)

text \<open>One bit at a time.\<close>

definition bit_step :: "int \<Rightarrow> bool \<Rightarrow> mask_state \<Rightarrow> mask_state" where
  "bit_step pid b = (\<lambda>(idx, count, lcore, pmask).
     if idx \<ge> RTE_MAX_LCORE then (idx, count, lcore, pmask)
     else if b
     then (idx + 1, count + 1, lcore[count := of_nat idx],
           if pid = int count then Some (core_mask idx) else pmask)
     else (idx + 1, count, lcore, pmask))"

lemma mask_bit_step: "fold (mask_bit pid v) js = fold (bit_step pid) (map (bit v) js)"
  by (induction js) (simp_all add: mask_bit_def bit_step_def fun_eq_iff)

definition positions :: "bool list \<Rightarrow> nat list" where
  "positions bs = filter (\<lambda>i. bs ! i) [0..<length bs]"

lemma positions_snoc: "positions (bs @ [b]) = positions bs @ (if b then [length bs] else [])"
  by (auto simp: positions_def nth_append intro: filter_cong)

lemma positions_length: "length (positions bs) \<le> length bs"
  unfolding positions_def by (rule order_trans[OF length_filter_le]) simp

lemma filled_snoc: "length vs < length arr \<Longrightarrow> filled arr 0 (vs @ [v]) = (filled arr 0 vs)[length vs := of_nat v]"
  by (auto simp: filled_def list_update_append Cons_nth_drop_Suc[symmetric])

lemma bits_fold:
  assumes "length bs \<le> RTE_MAX_LCORE" "length arr = RTE_MAX_LCORE"
  shows "fold (bit_step pid) bs (0, 0, arr, pmask) =
    (length bs, length (positions bs), filled arr 0 (positions bs),
     if 0 \<le> pid \<and> nat pid < length (positions bs) then Some (core_mask (positions bs ! nat pid)) else pmask)"
  using assms(1)
proof (induction bs rule: rev_induct)
  case Nil
  then show ?case by (simp add: positions_def filled_def)
next
  case (snoc b bs)
  have "length (positions bs) < length arr" using positions_length[of bs] snoc.prems assms(2) by simp
  then show ?case using snoc
    by (auto simp: bit_step_def positions_snoc filled_snoc nth_append)
qed

lemma bits_idx: "fst st + length bs \<le> RTE_MAX_LCORE \<Longrightarrow> fst (fold (bit_step pid) bs st) = fst st + length bs"
proof (induction bs arbitrary: st)
  case (Cons b bs)
  have "fst (bit_step pid b st) = fst st + 1" using Cons.prems by (auto simp: bit_step_def split: prod.split)
  then show ?case using Cons by simp
qed simp

lemma mask_digits_result:
  assumes "list_all isxdigit cs" "k \<le> 32" "fst st = 4 * k"
  shows "mask_digits pid cs st = (True, drop (32 - k) cs, fold (bit_step pid) (digits_bits (take (32 - k) cs)) st)"
  using assms
proof (induction cs arbitrary: k st)
  case (Cons c cs)
  show ?case
  proof (cases "k = 32")
    case False
    let ?st = "fold (bit_step pid) (map (bit (xdigit2val c)) [0..<4]) st"
    have "fst ?st = 4 * (k + 1)" using bits_idx[of st "map (bit (xdigit2val c)) [0..<4]" pid] Cons.prems False
      by (simp add: RTE_MAX_LCORE_def del: upt_rec_numeral)
    then have "mask_digits pid cs ?st =
        (True, drop (32 - (k + 1)) cs, fold (bit_step pid) (digits_bits (take (32 - (k + 1)) cs)) ?st)"
      using Cons.IH[of "k + 1" ?st] Cons.prems False by simp
    moreover have "32 - k = Suc (32 - (k + 1))" using False Cons.prems(2) by simp
    ultimately show ?thesis using Cons.prems False
      by (simp add: RTE_MAX_LCORE_def BITS_PER_HEX_def mask_bit_step digits_bits_def)
  qed (use Cons.prems in \<open>simp add: RTE_MAX_LCORE_def digits_bits_def\<close>)
qed (simp add: digits_bits_def)

lemma positions_lcores:
  assumes "list_all isxdigit cs" "digits_value cs < 2 ^ RTE_MAX_LCORE" "length cs \<le> 32"
  shows "positions (digits_bits cs) = lcores (digits_value cs)"
proof -
  have "\<not> bit (digits_value cs) i" if "4 * length cs \<le> i" for i
  proof -
    have "digits_value cs < 2 ^ (4 * length cs)" using digits_value_less[OF assms(1)] by (simp add: power_mult)
    also have "\<dots> \<le> 2 ^ i" using that by simp
    finally show ?thesis by (simp add: bit_iff_odd)
  qed
  moreover have "[0..<RTE_MAX_LCORE] = [0..<4 * length cs] @ [4 * length cs..<RTE_MAX_LCORE]"
    using assms(3) upt_add_eq_append[of 0 "4 * length cs" "RTE_MAX_LCORE - 4 * length cs"] by (simp add: RTE_MAX_LCORE_def)
  ultimately have "lcores (digits_value cs) = filter (bit (digits_value cs)) [0..<4 * length cs]"
    by (auto simp: lcores_def filter_empty_conv)
  also have "\<dots> = positions (digits_bits cs)"
    using digits_bits_nth[OF assms(1)] by (auto simp: positions_def digits_bits_length intro: filter_cong)
  finally show ?thesis by simp
qed

lemma hex_value_core_mask: "hex_value (core_mask i) = 2 ^ i"
proof -
  have z: "foldl (\<lambda>v c. v * 16 + xdigit2val c) v (replicate n (CHR ''0'')) = v * 16 ^ n" for v n
    by (induction n arbitrary: v) (simp_all add: xdigit2val_def isdigit_def code_def)
  have "i mod 4 \<in> {0, 1, 2, 3}" by auto
  then have "xdigit2val (''1248'' ! (i mod 4)) = 2 ^ (i mod 4)"
    by (auto simp: xdigit2val_def isdigit_def code_def numeral_2_eq_2 numeral_3_eq_3)
  then have "hex_value (core_mask i) = 2 ^ (i mod 4) * 16 ^ (i div 4)" by (simp add: hex_value_def core_mask_def z)
  also have "\<dots> = 2 ^ (i mod 4 + 4 * (i div 4))" unfolding power_add power_mult by simp
  finally show ?thesis by (simp only: mod_mult_div_eq)
qed

lemma lcores_length: "length (lcores m) \<le> RTE_MAX_LCORE"
  unfolding lcores_def by (rule order_trans[OF length_filter_le]) simp

lemma mask_overflow:
  assumes "list_all isxdigit cs"
  shows "(\<exists>c \<in> set (drop 32 cs). c \<noteq> CHR ''0'') \<longleftrightarrow> \<not> digits_value cs < 2 ^ RTE_MAX_LCORE"
    "digits_value cs < 2 ^ RTE_MAX_LCORE \<Longrightarrow> digits_value (take 32 cs) = digits_value cs"
proof -
  have x: "list_all isxdigit (take 32 cs)" "list_all isxdigit (drop 32 cs)"
    using assms by (auto simp: list_all_iff dest: in_set_takeD in_set_dropD)
  have v: "digits_value cs = digits_value (take 32 cs) + 16 ^ length (take 32 cs) * digits_value (drop 32 cs)"
    using digits_value_append[of "take 32 cs" "drop 32 cs"] by simp
  have low: "digits_value (take 32 cs) < 2 ^ 128"
  proof -
    have "(16 :: nat) ^ length (take 32 cs) \<le> 16 ^ 32" by (rule power_increasing) auto
    then show ?thesis using digits_value_less[OF x(1)] by simp
  qed
  have high: "2 ^ 128 \<le> digits_value cs" if "digits_value (drop 32 cs) \<noteq> 0"
  proof -
    have "drop 32 cs \<noteq> []" using that by auto
    then have "length (take 32 cs) = 32" by simp
    then show ?thesis using v that by simp
  qed
  have zero: "digits_value (drop 32 cs) = 0 \<longleftrightarrow> \<not> (\<exists>c \<in> set (drop 32 cs). c \<noteq> CHR ''0'')"
    using digits_value_zero[OF x(2)] by auto
  show "(\<exists>c \<in> set (drop 32 cs). c \<noteq> CHR ''0'') \<longleftrightarrow> \<not> digits_value cs < 2 ^ RTE_MAX_LCORE"
    using zero high low v by (cases "digits_value (drop 32 cs) = 0") (auto simp: RTE_MAX_LCORE_def)
  show "digits_value cs < 2 ^ RTE_MAX_LCORE \<Longrightarrow> digits_value (take 32 cs) = digits_value cs"
    using high v by (cases "digits_value (drop 32 cs) = 0") (auto simp: RTE_MAX_LCORE_def)
qed

lemma parse_lcore_mask_result:
  assumes "mask_body coremask \<noteq> []" "list_all isxdigit (mask_body coremask)"
  defines "m \<equiv> hex_value (mask_body coremask)" and "cores \<equiv> lcores (hex_value (mask_body coremask))"
  shows "m < 2 ^ RTE_MAX_LCORE \<Longrightarrow> parse_lcore_mask coremask d =
      (let d = d\<lparr>proc_lcore := Some (map of_nat cores @ replicate (RTE_MAX_LCORE - length cores) 0),
           proc_mask := (if 0 \<le> proc_id d \<and> nat (proc_id d) < length cores then Some (core_mask (cores ! nat (proc_id d))) else proc_mask d)\<rparr>
       in if proc_id d \<ge> int (length cores) then (False, d) else (True, d\<lparr>nb_procs := int (length cores)\<rparr>))" (is "_ \<Longrightarrow> ?valid")
    "\<not> m < 2 ^ RTE_MAX_LCORE \<Longrightarrow> \<not> fst (parse_lcore_mask coremask d)" (is "_ \<Longrightarrow> ?invalid")
proof -
  define cs where "cs = rev (mask_body coremask)"
  define bs where "bs = digits_bits (take 32 cs)"
  let ?m = "digits_value cs" and ?z = "replicate RTE_MAX_LCORE 0 :: u16 list"
  have x: "list_all isxdigit cs" using assms(2) by (simp add: cs_def)
  have mv: "hex_value (mask_body coremask) = ?m" using hex_value_rev[of cs] by (simp add: cs_def)
  have bs: "length bs \<le> RTE_MAX_LCORE" by (simp add: bs_def digits_bits_length RTE_MAX_LCORE_def)
  have digits: "mask_digits pid cs (0, 0, ?z, pm) = (True, drop 32 cs, length bs, length (positions bs), filled ?z 0 (positions bs),
      if 0 \<le> pid \<and> nat pid < length (positions bs) then Some (core_mask (positions bs ! nat pid)) else pm)" for pid pm
    using mask_digits_result[OF x, of 0 "(0, 0, ?z, pm)" pid] bits_fold[OF bs, of ?z pid pm] by (simp add: bs_def)
  have cores: "positions bs = lcores ?m" if "?m < 2 ^ RTE_MAX_LCORE"
    using positions_lcores[of "take 32 cs"] mask_overflow(2)[OF x that] x that
    by (auto simp: bs_def list_all_iff dest: in_set_takeD)
  have fill: "filled ?z 0 (lcores ?m) = map of_nat (lcores ?m) @ replicate (RTE_MAX_LCORE - length (lcores ?m)) 0"
    by (simp add: filled_def)
  let ?pm = "if 0 \<le> proc_id d \<and> nat (proc_id d) < length (positions bs) then Some (core_mask (positions bs ! nat (proc_id d))) else proc_mask d"
  have parse: "parse_lcore_mask coremask d =
      (let d = d\<lparr>proc_lcore := Some (filled ?z 0 (positions bs)), proc_mask := ?pm\<rparr>
       in if \<not> ?m < 2 ^ RTE_MAX_LCORE then (False, d)
          else if proc_id d \<ge> int (length (positions bs)) then (False, d)
          else (True, d\<lparr>nb_procs := int (length (positions bs))\<rparr>))"
    using assms(1) unfolding mask_overflow(1)[OF x, symmetric]
    by (simp add: parse_lcore_mask_def Let_def cs_def[symmetric] digits)
  show "m < 2 ^ RTE_MAX_LCORE \<Longrightarrow> ?valid"
    unfolding m_def cores_def mv parse Let_def by (simp add: cores fill)
  show "\<not> m < 2 ^ RTE_MAX_LCORE \<Longrightarrow> ?invalid" unfolding m_def mv parse by (simp add: Let_def)
qed

text \<open>C38. A hexadecimal core mask is read as the set of cores it denotes: the list of cores is the increasing list
  of its bits, their number is the number of processes, and the process's own mask, when it has a valid
  number, denotes its core alone. The mask is rejected when it has a bit beyond the supported cores or fewer
  cores than the process number needs.\<close>

theorem lcore_mask_correct:
  assumes "mask_body coremask \<noteq> []" "list_all isxdigit (mask_body coremask)"
  shows "let m = hex_value (mask_body coremask); cores = lcores m; (ok, d') = parse_lcore_mask coremask d
    in ok = (m < 2 ^ RTE_MAX_LCORE \<and> proc_id d < int (length cores)) \<and>
       (ok \<longrightarrow> nb_procs d' = int (length cores) \<and>
          proc_lcore d' = Some (map of_nat cores @ replicate (RTE_MAX_LCORE - length cores) 0) \<and>
          (0 \<le> proc_id d \<longrightarrow> (\<exists>pmask. proc_mask d' = Some pmask \<and> hex_value pmask = 2 ^ (cores ! nat (proc_id d)))))"
proof (cases "hex_value (mask_body coremask) < 2 ^ RTE_MAX_LCORE")
  case True
  then show ?thesis
    unfolding parse_lcore_mask_result(1)[OF assms True] by (auto simp: Let_def hex_value_core_mask)
next
  case False
  then show ?thesis using parse_lcore_mask_result(2)[OF assms, of d] by (auto simp: Let_def split: prod.split)
qed

section \<open>Witnesses\<close>

theorem config_list_roundtrip_witness:
  "parse_config_list [0, 0, 0, 0, 0] 5 (list_text [Range 2 4, Single 1]) = Some (True, [1, 2, 3, 4, 0], 4)"
proof -
  have "list_all item_ok [Range 2 4, Single 1]" by (simp add: item_ok_def)
  moreover have "list_values [Range 2 4, Single 1] = [2, 3, 4, 1]" by code_simp
  moreover have "sort (map of_nat [2, 3, 4, 1]) = [1, 2, 3, 4 :: u16]" by code_simp
  moreover have "length [0, 0, 0, 0, 0 :: u16] = 5" "length [2, 3, 4, 1 :: nat] = 4" by simp_all
  ultimately show ?thesis
    using config_list_roundtrip[of "[Range 2 4, Single 1]" "[0, 0, 0, 0, 0]"] by (simp only: Let_def) simp
qed

theorem parse_u16_bounds_witness:
  "ff_parse_u16 (dec 1500) 68 65535 = Some 1500 \<and> ff_parse_u16 (dec 9) 68 65535 = None"
  using parse_u16_bounds[of 65535 "[]" 68 0 1500] parse_u16_bounds[of 65535 "[]" 68 0 9] by simp

theorem binary_search_correct_witness:
  "uint16_binary_search [1, 4, 7, 0] 0 2 5 < 0 \<and> \<not> uint16_binary_search [1, 4, 7, 0] 0 2 7 < 0"
  using binary_search_correct[of 3 "[1, 4, 7, 0]" 5] binary_search_correct[of 3 "[1, 4, 7, 0]" 7] by simp

definition zero_dpdk :: ff_dpdk_cfg where
  "zero_dpdk = \<lparr>proc_type = None, lcore_mask = None, proc_mask = None, base_virtaddr = None, eal_file_prefix = None,
     dpdk_allow = None, extra_eal_args = None, nb_channel = 0, memory = 0, no_huge = 0, nb_procs = 0, proc_id = 0,
     thread_mode = 0, nb_threads = 0, primary_slim = 0, promiscuous = 0, nb_vdev = 0, nb_bond = 0, numa_on = 0,
     dpdk_tso = 0, dpdk_lro = 0, tx_csum_offoad_skip = 0, tx_csum_ip_skip = 0, tx_csum_l4_skip = 0, vlan_strip = 0,
     nb_vlan_filter = 0, vlan_filter_id = replicate DPDK_MAX_VLAN_FILTER 0, symmetric_rss = 0, idle_sleep = 0,
     primary_slim_idle_sleep = 0, pkt_tx_delay = 0, proc_lcore = None, nb_ports = 0, max_portid = 0,
     portid_list = None, dpdk_log_level = 0, port_cfgs = None, vlan_cfgs = None, vdev_cfgs = None, bond_cfgs = None,
     rss_check_cfgs = None, mtu_enable = 0, max_mtu = 0, mbuf_mode = FF_MBUF_MODE_LARGE, mbuf_low_watermark = 0\<rparr>"

theorem lcore_mask_correct_witness:
  "fst (parse_lcore_mask ''0x01 '' zero_dpdk) \<and> nb_procs (snd (parse_lcore_mask ''0x01 '' zero_dpdk)) = 1"
proof -
  have body: "mask_body ''0x01 '' = ''01''" by code_simp
  have x: "list_all isxdigit ''01''" by code_simp
  have "lcores 1 = [0]" by (auto simp: lcores_def RTE_MAX_LCORE_def bit_1_iff bit_Suc_0_iff upt_conv_Cons filter_empty_conv simp del: upt_rec_numeral)
  moreover have "hex_value ''01'' = 1" by code_simp
  ultimately show ?thesis
    using lcore_mask_correct[of "''0x01 ''" zero_dpdk] body x
    by (simp add: Let_def RTE_MAX_LCORE_def zero_dpdk_def split_beta)
qed

end
