(* ===== verification/FF_Config.thy ===== *)
theory FF_Config
  imports FF_Config_Str
begin

text \<open>
  The configuration of \<open>lib/ff_config.c\<close>: the handlers of the sections of \<open>config.ini\<close>, the handler that
  dispatches to them, the check of the whole configuration, the arguments made for DPDK, loading and
  unloading.

  A handler returns None for an access outside of an array, through a null pointer or to memory not
  initialised; otherwise whether it returned 1 and the new configuration. Memory allocation succeeds. Splitting a
  string in place shortens the string that was split. \<open>inet_pton\<close> is the parameter \<open>pton\<close>, and what
  \<open>getopt_long\<close> returns is the list of its options and arguments.
\<close>

section \<open>Zeroed structures\<close>

definition zero_port :: ff_port_cfg where
  "zero_port = \<lparr>pc_name = None, pc_ifname = None, pc_port_id = 0, pc_mac = replicate 6 0,
     pc_hw_features = \<lparr>hw_rx_csum = 0, hw_rx_lro = 0, hw_tx_csum_ip = 0, hw_tx_csum_l4 = 0, hw_tx_tso = 0, hw_sw_lro = 0\<rparr>,
     pc_addr = None, pc_netmask = None, pc_broadcast = None, pc_gateway = None, pc_vip_ifname = None,
     pc_vip_addr_str = None, pc_vip_addr_array = None, pc_nb_vip = 0, pc_pr_addr_str = None, pc_pr_cfg = None,
     pc_nb_pr = 0, pc_addr6_str = None, pc_gateway6_str = None, pc_prefix_len = 0, pc_vip_addr6_str = None,
     pc_vip_addr6_array = None, pc_nb_vip6 = 0, pc_vip_prefix_len = 0, pc_nb_lcores = 0, pc_nb_slaves = 0,
     pc_lcore_list = replicate DPDK_MAX_LCORE 0, pc_slave_portid_list = None, pc_nb_vlan = 0,
     pc_vlan_cfgs = replicate DPDK_MAX_VLAN_FILTER None, pc_mtu = 0\<rparr>"

definition zero_vlan :: ff_vlan_cfg where
  "zero_vlan = \<lparr>vl_name = None, vl_ifname = None, vl_idx = 0, vl_id = 0, vl_port_id = 0, vl_addr = None,
     vl_netmask = None, vl_broadcast = None, vl_gateway = None, vl_vip_ifname = None, vl_vip_addr_str = None,
     vl_vip_addr_array = None, vl_nb_vip = 0, vl_pr_addr_str = None, vl_pr_cfg = None, vl_nb_pr = 0,
     vl_addr6_str = None, vl_gateway6_str = None, vl_prefix_len = 0, vl_vip_addr6_str = None,
     vl_vip_addr6_array = None, vl_nb_vip6 = 0, vl_vip_prefix_len = 0\<rparr>"

definition zero_vdev :: ff_vdev_cfg where
  "zero_vdev = \<lparr>vd_name = None, vd_iface = None, vd_path = None, vd_mac = None, vd_vdev_id = 0, vd_nb_queues = 0,
     vd_nb_cq = 0, vd_queue_size = 0\<rparr>"

definition zero_bond :: ff_bond_cfg where
  "zero_bond = \<lparr>bd_name = None, bd_slave = None, bd_primary = None, bd_bond_mac = None, bd_xmit_policy = None,
     bd_bond_id = 0, bd_mode = 0, bd_socket_id = 0, bd_lsc_poll_period_ms = 0, bd_up_delay = 0, bd_down_delay = 0\<rparr>"

definition zero_rss_check :: ff_rss_check_cfg where
  "zero_rss_check = \<lparr>rc_enable = 0, rc_recheck = 0, rc_thash_adjust = 0, rc_nb_rss_tbl = 0, rc_rss_tbl_str = None,
     rc_rss_tbl_cfgs = replicate FF_RSS_TBL_MAX_ENTRIES
       \<lparr>rt_port_id = 0, rt_sport = 0, rt_daddr = 0, rt_saddr = 0, rt_family = 0, rt_daddr6 = replicate 16 0,
        rt_saddr6 = replicate 16 0\<rparr>\<rparr>"

definition zero_config :: ff_config where
  "zero_config = \<lparr>cfg_filename = None, dpdk = zero_dpdk,
     kni = \<lparr>kni_enable = 0, console_packets_ratelimit = 0, general_packets_ratelimit = 0, kernel_packets_ratelimit = 0,
            owner_proc_id = 0, kni_action = None, kni_method = None, kni_tcp_port = None, kni_udp_port = None\<rparr>,
     flog = \<lparr>log_level = 0, log_dir = None\<rparr>,
     freebsd = \<lparr>bsd_boot = [], bsd_sysctl = [], physmem = 0, bsd_hz = 0, fd_reserve = 0, mem_size = 0, tcp_ecn = 0\<rparr>,
     pcap = \<lparr>pcap_enable = 0, snap_len = 0, save_len = 0, save_path = None, timestamp_precision = 0\<rparr>\<rparr>"

section \<open>FreeBSD options\<close>

text \<open>The new entry becomes the head of an empty chain, and the second of any other.\<close>

definition chain_insert :: "ff_freebsd_cfg \<Rightarrow> ff_freebsd_cfg list \<Rightarrow> ff_freebsd_cfg list" where
  "chain_insert newconf cur = (case cur of [] \<Rightarrow> [newconf] | h # t \<Rightarrow> h # newconf # t)"

definition freebsd_conf_handler :: "string \<Rightarrow> string \<Rightarrow> string \<Rightarrow> ff_config \<Rightarrow> bool \<times> ff_config" where
  "freebsd_conf_handler sec name val cfg =
    (let str_conf = \<lparr>fb_name = name, fb_str = val, fb_value = Str_value val, fb_vlen = length val\<rparr>;
         b = freebsd cfg
     in if sec = ''boot'' then (True, cfg\<lparr>freebsd := b\<lparr>bsd_boot := chain_insert str_conf (bsd_boot b)\<rparr>\<rparr>)
        else if sec = ''sysctl'' then
          let newconf =
            (if is_integer val
             then if name = ''kern.ipc.maxsockbuf''
                  then str_conf\<lparr>fb_value := Int_value (atol val), fb_vlen := 8\<rparr>
                  else str_conf\<lparr>fb_value := Int_value (atoi val), fb_vlen := 4\<rparr>
             else str_conf)
          in (True, cfg\<lparr>freebsd := b\<lparr>bsd_sysctl := chain_insert newconf (bsd_sysctl b)\<rparr>\<rparr>)
        else (False, cfg))"

section \<open>Lists of a port and of the device\<close>

definition parse_port_lcore_list :: "string \<Rightarrow> ff_port_cfg \<Rightarrow> (bool \<times> ff_port_cfg) option" where
  "parse_port_lcore_list v_str pc =
    (case parse_config_list (pc_lcore_list pc) DPDK_MAX_LCORE v_str of
       None \<Rightarrow> None
     | Some (res, arr, sz) \<Rightarrow> Some (res, pc\<lparr>pc_nb_lcores := int sz, pc_lcore_list := arr\<rparr>))"

text \<open>The local array \<open>ports\<close> is not initialised: without an element in the list its contents are copied.\<close>

definition no_elements :: "string \<Rightarrow> bool" where
  "no_elements v_str =
    (case list_tokens RTE_MAX_ETHPORTS (rte_strsplit v_str 128 (CHR '','')) (replicate RTE_MAX_ETHPORTS 0, 0) of
       Some (True, _, nr_ele) \<Rightarrow> nr_ele = 0 | _ \<Rightarrow> False)"

definition port_ids :: "string \<Rightarrow> (bool \<times> u16 list) option" where
  "port_ids v_str =
    (case parse_config_list (replicate RTE_MAX_ETHPORTS 0) RTE_MAX_ETHPORTS v_str of
       None \<Rightarrow> None
     | Some (False, _, _) \<Rightarrow> Some (False, [])
     | Some (True, arr, sz) \<Rightarrow> if no_elements v_str then None else Some (True, take sz arr))"

definition parse_port_list :: "string \<Rightarrow> ff_dpdk_cfg \<Rightarrow> (bool \<times> ff_dpdk_cfg) option" where
  "parse_port_list v_str d =
    (case port_ids v_str of
       None \<Rightarrow> None
     | Some (False, _) \<Rightarrow> Some (False, d)
     | Some (True, ids) \<Rightarrow>
         Some (True, d\<lparr>portid_list := Some ids, nb_ports := int (length ids), max_portid := last ids\<rparr>))"

definition parse_port_slave_list :: "string \<Rightarrow> ff_port_cfg \<Rightarrow> (bool \<times> ff_port_cfg) option" where
  "parse_port_slave_list v_str pc =
    (case port_ids v_str of
       None \<Rightarrow> None
     | Some (False, _) \<Rightarrow> Some (False, pc)
     | Some (True, ids) \<Rightarrow> Some (True, pc\<lparr>pc_slave_portid_list := Some ids, pc_nb_slaves := int (length ids)\<rparr>))"

definition parse_vlan_filter_list :: "string \<Rightarrow> ff_dpdk_cfg \<Rightarrow> (bool \<times> ff_dpdk_cfg) option" where
  "parse_vlan_filter_list v_str d =
    (case parse_config_list (vlan_filter_id d) DPDK_MAX_VLAN_FILTER v_str of
       None \<Rightarrow> None
     | Some (res, arr, sz) \<Rightarrow> Some (res, d\<lparr>nb_vlan_filter := int sz, vlan_filter_id := arr\<rparr>))"

section \<open>Virtual addresses\<close>

text \<open>What is left of a string split in place.\<close>

definition cut_at :: "char \<Rightarrow> string \<Rightarrow> string" where
  "cut_at delim s = takeWhile (\<lambda>c. c \<noteq> delim) s"

definition vip_tokens :: "string \<Rightarrow> string list" where
  "vip_tokens s = rte_strsplit s VIP_MAX_NUM (CHR '';'')"

definition vip_cfg_handler_port :: "ff_port_cfg \<Rightarrow> ff_port_cfg" where
  "vip_cfg_handler_port pc =
    (let s = the (pc_vip_addr_str pc);
         toks = vip_tokens s;
         pc = pc\<lparr>pc_vip_addr_str := Some (cut_at (CHR '';'') s)\<rparr>
     in if toks = [] then pc
        else pc\<lparr>pc_nb_vip := length toks, pc_vip_addr_array := Some (map Some toks)\<rparr>)"

definition vip_cfg_handler_vlan :: "ff_vlan_cfg \<Rightarrow> ff_vlan_cfg" where
  "vip_cfg_handler_vlan vc =
    (let s = the (vl_vip_addr_str vc);
         toks = vip_tokens s;
         vc = vc\<lparr>vl_vip_addr_str := Some (cut_at (CHR '';'') s)\<rparr>
     in if toks = [] then vc
        else vc\<lparr>vl_nb_vip := length toks, vl_vip_addr_array := Some (map Some toks)\<rparr>)"

definition vip6_cfg_handler_port :: "ff_port_cfg \<Rightarrow> ff_port_cfg" where
  "vip6_cfg_handler_port pc =
    (let s = the (pc_vip_addr6_str pc);
         toks = vip_tokens s;
         pc = pc\<lparr>pc_vip_addr6_str := Some (cut_at (CHR '';'') s)\<rparr>
     in if toks = [] then pc
        else pc\<lparr>pc_nb_vip6 := length toks, pc_vip_addr6_array := Some (map Some toks)\<rparr>)"

definition vip6_cfg_handler_vlan :: "ff_vlan_cfg \<Rightarrow> ff_vlan_cfg" where
  "vip6_cfg_handler_vlan vc =
    (let s = the (vl_vip_addr6_str vc);
         toks = vip_tokens s;
         vc = vc\<lparr>vl_vip_addr6_str := Some (cut_at (CHR '';'') s)\<rparr>
     in if toks = [] then vc
        else vc\<lparr>vl_nb_vip6 := length toks, vl_vip_addr6_array := Some (map Some toks)\<rparr>)"

text \<open>The pairs of address and mask of \<open>ipfw_pr\<close>; None when one of them is malformed.\<close>

fun pr_pairs :: "string list \<Rightarrow> ff_ipfw_pr_cfg list option" where
  "pr_pairs [] = Some []"
| "pr_pairs (tok # toks) =
    (case rte_strsplit tok 2 (CHR '' '') of
       [addr, nm] \<Rightarrow>
         (case pr_pairs toks of None \<Rightarrow> None
          | Some prs \<Rightarrow> Some (\<lparr>pr_addr = Some addr, pr_netmask = Some nm\<rparr> # prs))
     | _ \<Rightarrow> None)"

definition pr_rest :: "string \<Rightarrow> string" where
  "pr_rest s = cut_at (CHR '' '') (cut_at (CHR '';'') s)"

definition ipfw_pr_cfg_handler_port :: "ff_port_cfg \<Rightarrow> ff_port_cfg" where
  "ipfw_pr_cfg_handler_port pc =
    (let s = the (pc_pr_addr_str pc);
         toks = vip_tokens s;
         pc = pc\<lparr>pc_pr_addr_str := Some (pr_rest s)\<rparr>
     in if toks = [] then pc
        else case pr_pairs toks of None \<Rightarrow> pc
             | Some prs \<Rightarrow> pc\<lparr>pc_nb_pr := length toks, pc_pr_cfg := Some prs\<rparr>)"

definition ipfw_pr_cfg_handler_vlan :: "ff_vlan_cfg \<Rightarrow> ff_vlan_cfg" where
  "ipfw_pr_cfg_handler_vlan vc =
    (let s = the (vl_pr_addr_str vc);
         toks = vip_tokens s;
         vc = vc\<lparr>vl_pr_addr_str := Some (pr_rest s)\<rparr>
     in if toks = [] then vc
        else case pr_pairs toks of None \<Rightarrow> vc
             | Some prs \<Rightarrow> vc\<lparr>vl_nb_pr := length toks, vl_pr_cfg := Some prs\<rparr>)"

section \<open>Sections of ports\<close>

definition memcpy16 :: "u16 list \<Rightarrow> u16 list option \<Rightarrow> nat \<Rightarrow> u16 list option" where
  "memcpy16 dst src n =
    (if n = 0 then Some dst
     else case src of None \<Rightarrow> None
          | Some s \<Rightarrow> if n \<le> length s \<and> n \<le> length dst then Some (take n s @ drop n dst) else None)"

text \<open>The table of ports, once the first section of a port is met.\<close>

fun init_ports :: "int \<Rightarrow> u16 list option \<Rightarrow> u16 list \<Rightarrow> ff_port_cfg list \<Rightarrow> ff_port_cfg list option" where
  "init_ports procs lcore [] pcs = Some pcs"
| "init_ports procs lcore (portid # ids) pcs =
    (if unat portid \<ge> length pcs then None
     else let pc = pcs ! unat portid
          in case memcpy16 (pc_lcore_list pc) lcore (nat procs) of
               None \<Rightarrow> None
             | Some cores \<Rightarrow>
                 init_ports procs lcore ids
                   (pcs[unat portid := pc\<lparr>pc_port_id := portid, pc_nb_lcores := procs, pc_lcore_list := cores,
                                          pc_mtu := of_nat FF_MTU_DEFAULT\<rparr>]))"

definition new_port_cfgs :: "ff_dpdk_cfg \<Rightarrow> ff_port_cfg list option" where
  "new_port_cfgs d =
    (case portid_list d of
       None \<Rightarrow> None
     | Some ids \<Rightarrow>
         if nat (nb_ports d) > length ids then None
         else init_ports (nb_procs d) (proc_lcore d) (take (nat (nb_ports d)) ids) (replicate RTE_MAX_ETHPORTS zero_port))"

definition port_option :: "string \<Rightarrow> string \<Rightarrow> ff_port_cfg \<Rightarrow> (bool \<times> ff_port_cfg) option" where
  "port_option name val cur =
    (if name = ''if_name'' then Some (True, cur\<lparr>pc_ifname := Some val\<rparr>)
     else if name = ''addr'' then Some (True, cur\<lparr>pc_addr := Some val\<rparr>)
     else if name = ''netmask'' then Some (True, cur\<lparr>pc_netmask := Some val\<rparr>)
     else if name = ''broadcast'' then Some (True, cur\<lparr>pc_broadcast := Some val\<rparr>)
     else if name = ''gateway'' then Some (True, cur\<lparr>pc_gateway := Some val\<rparr>)
     else if name = ''lcore_list'' then parse_port_lcore_list val cur
     else if name = ''slave_port_list'' then parse_port_slave_list val cur
     else if name = ''vip_addr'' then Some (True, vip_cfg_handler_port (cur\<lparr>pc_vip_addr_str := Some val\<rparr>))
     else if name = ''vip_ifname'' then Some (True, cur\<lparr>pc_vip_ifname := Some val\<rparr>)
     else if name = ''mtu'' then
       (case ff_parse_u16 val 68 65535 of None \<Rightarrow> Some (False, cur) | Some v \<Rightarrow> Some (True, cur\<lparr>pc_mtu := v\<rparr>))
     else if name = ''ipfw_pr'' then Some (True, ipfw_pr_cfg_handler_port (cur\<lparr>pc_pr_addr_str := Some val\<rparr>))
     else if name = ''addr6'' then Some (True, cur\<lparr>pc_addr6_str := Some val\<rparr>)
     else if name = ''prefix_len'' then Some (True, cur\<lparr>pc_prefix_len := of_int (atoi val)\<rparr>)
     else if name = ''gateway6'' then Some (True, cur\<lparr>pc_gateway6_str := Some val\<rparr>)
     else if name = ''vip_addr6'' then Some (True, vip6_cfg_handler_port (cur\<lparr>pc_vip_addr6_str := Some val\<rparr>))
     else if name = ''vip_prefix_len'' then Some (True, cur\<lparr>pc_vip_prefix_len := of_int (atoi val)\<rparr>)
     else Some (True, cur))"

text \<open>An element of a table by its number in the section's name.\<close>

definition table_at :: "'a list \<Rightarrow> int \<Rightarrow> 'a option" where
  "table_at xs i = (if 0 \<le> i \<and> i < int (length xs) then Some (xs ! nat i) else None)"

definition port_cfg_handler :: "string \<Rightarrow> string \<Rightarrow> string \<Rightarrow> ff_config \<Rightarrow> (bool \<times> ff_config) option" where
  "port_cfg_handler sec name val cfg =
    (if nb_ports (dpdk cfg) = 0 then Some (False, cfg)
     else
       case (case port_cfgs (dpdk cfg) of Some pcs \<Rightarrow> Some pcs | None \<Rightarrow> new_port_cfgs (dpdk cfg)) of
         None \<Rightarrow> None
       | Some pcs \<Rightarrow>
           let cfg = cfg\<lparr>dpdk := (dpdk cfg)\<lparr>port_cfgs := Some pcs\<rparr>\<rparr>
           in case sscanf_int ''port'' sec of
                None \<Rightarrow> Some (False, cfg)
              | Some portid \<Rightarrow>
                  if portid > uint (max_portid (dpdk cfg)) then Some (True, cfg)
                  else case table_at pcs portid of
                         None \<Rightarrow> None
                       | Some cur \<Rightarrow>
                           let cur = (if pc_name cur = None
                                      then cur\<lparr>pc_name := Some sec, pc_port_id := of_int portid\<rparr> else cur)
                           in case port_option name val cur of
                                None \<Rightarrow> None
                              | Some (ok, cur) \<Rightarrow>
                                  Some (ok, cfg\<lparr>dpdk := (dpdk cfg)\<lparr>port_cfgs := Some (pcs[nat portid := cur])\<rparr>\<rparr>))"

section \<open>Sections of VLANs\<close>

definition vlan_index :: "ff_dpdk_cfg \<Rightarrow> int \<Rightarrow> nat option" where
  "vlan_index d vlanid = List.find (\<lambda>i. uint (vlan_filter_id d ! i) = vlanid) [0..<nat (nb_vlan_filter d)]"

definition vlan_option :: "string \<Rightarrow> string \<Rightarrow> ff_vlan_cfg \<Rightarrow> ff_vlan_cfg" where
  "vlan_option name val cur =
    (if name = ''addr'' then cur\<lparr>vl_addr := Some val\<rparr>
     else if name = ''netmask'' then cur\<lparr>vl_netmask := Some val\<rparr>
     else if name = ''broadcast'' then cur\<lparr>vl_broadcast := Some val\<rparr>
     else if name = ''gateway'' then cur\<lparr>vl_gateway := Some val\<rparr>
     else if name = ''vip_addr'' then vip_cfg_handler_vlan (cur\<lparr>vl_vip_addr_str := Some val\<rparr>)
     else if name = ''ipfw_pr'' then ipfw_pr_cfg_handler_vlan (cur\<lparr>vl_pr_addr_str := Some val\<rparr>)
     else if name = ''addr6'' then cur\<lparr>vl_addr6_str := Some val\<rparr>
     else if name = ''prefix_len'' then cur\<lparr>vl_prefix_len := of_int (atoi val)\<rparr>
     else if name = ''gateway6'' then cur\<lparr>vl_gateway6_str := Some val\<rparr>
     else if name = ''vip_addr6'' then vip6_cfg_handler_vlan (cur\<lparr>vl_vip_addr6_str := Some val\<rparr>)
     else if name = ''vip_prefix_len'' then cur\<lparr>vl_vip_prefix_len := of_int (atoi val)\<rparr>
     else cur)"

text \<open>Binding a VLAN, by its position \<open>i\<close> in the table, to its port.\<close>

definition bind_vlan :: "nat \<Rightarrow> int \<Rightarrow> ff_vlan_cfg \<Rightarrow> ff_dpdk_cfg \<Rightarrow> (ff_vlan_cfg \<times> ff_dpdk_cfg) option" where
  "bind_vlan i portid cur d =
    (case port_cfgs d of
       None \<Rightarrow> None
     | Some pcs \<Rightarrow>
         (case table_at pcs portid of
            None \<Rightarrow> None
          | Some pc \<Rightarrow>
              if pc_nb_vlan pc \<ge> length (pc_vlan_cfgs pc) then None
              else Some (cur\<lparr>vl_port_id := of_int portid\<rparr>,
                     d\<lparr>port_cfgs := Some (pcs[nat portid :=
                         pc\<lparr>pc_vlan_cfgs := (pc_vlan_cfgs pc)[pc_nb_vlan pc := Some i], pc_nb_vlan := pc_nb_vlan pc + 1\<rparr>])\<rparr>)))"

definition vlan_cfg_handler :: "string \<Rightarrow> string \<Rightarrow> string \<Rightarrow> ff_config \<Rightarrow> (bool \<times> ff_config) option" where
  "vlan_cfg_handler sec name val cfg =
    (if nb_vlan_filter (dpdk cfg) = 0 then Some (False, cfg)
     else
       let vcs = (case vlan_cfgs (dpdk cfg) of Some vcs \<Rightarrow> vcs | None \<Rightarrow> replicate DPDK_MAX_VLAN_FILTER zero_vlan);
           d = (dpdk cfg)\<lparr>vlan_cfgs := Some vcs\<rparr>
       in case sscanf_int ''vlan'' sec of
            None \<Rightarrow> Some (False, cfg\<lparr>dpdk := d\<rparr>)
          | Some vlanid \<Rightarrow>
              (case vlan_index d vlanid of
                 None \<Rightarrow> Some (True, cfg\<lparr>dpdk := d\<rparr>)
               | Some i \<Rightarrow>
                   if i \<ge> length vcs then None
                   else
                     let cur = vcs ! i;
                         cur = (if vl_name cur = None
                                then cur\<lparr>vl_name := Some sec, vl_id := of_int vlanid, vl_idx := int i\<rparr> else cur)
                     in if name = ''portid'' then
                          (if atoi val > uint (max_portid d)
                           then Some (True, cfg\<lparr>dpdk := d\<lparr>vlan_cfgs := Some (vcs[i := cur])\<rparr>\<rparr>)
                           else case bind_vlan i (atoi val) cur d of
                                  None \<Rightarrow> None
                                | Some (cur, d) \<Rightarrow> Some (True, cfg\<lparr>dpdk := d\<lparr>vlan_cfgs := Some (vcs[i := cur])\<rparr>\<rparr>))
                        else Some (True, cfg\<lparr>dpdk := d\<lparr>vlan_cfgs := Some (vcs[i := vlan_option name val cur])\<rparr>\<rparr>)))"

section \<open>Sections of virtual and bonded devices\<close>

definition vdev_option :: "string \<Rightarrow> string \<Rightarrow> ff_vdev_cfg \<Rightarrow> ff_vdev_cfg" where
  "vdev_option name val cur =
    (if name = ''iface'' then cur\<lparr>vd_iface := Some val\<rparr>
     else if name = ''path'' then cur\<lparr>vd_path := Some val\<rparr>
     else if name = ''queues'' then cur\<lparr>vd_nb_queues := of_int (atoi val)\<rparr>
     else if name = ''queue_size'' then cur\<lparr>vd_queue_size := of_int (atoi val)\<rparr>
     else if name = ''mac'' then cur\<lparr>vd_mac := Some val\<rparr>
     else if name = ''cq'' then cur\<lparr>vd_nb_cq := of_int (atoi val)\<rparr>
     else cur)"

definition vdev_cfg_handler :: "string \<Rightarrow> string \<Rightarrow> string \<Rightarrow> ff_config \<Rightarrow> (bool \<times> ff_config) option" where
  "vdev_cfg_handler sec name val cfg =
    (if nb_vdev (dpdk cfg) = 0 then Some (False, cfg)
     else
       let vcs = (case vdev_cfgs (dpdk cfg) of Some vcs \<Rightarrow> vcs | None \<Rightarrow> replicate RTE_MAX_ETHPORTS zero_vdev);
           d = (dpdk cfg)\<lparr>vdev_cfgs := Some vcs\<rparr>
       in case sscanf_int ''vdev'' sec of
            None \<Rightarrow> Some (False, cfg\<lparr>dpdk := d\<rparr>)
          | Some vdevid \<Rightarrow>
              if vdevid > nb_vdev d then Some (True, cfg\<lparr>dpdk := d\<rparr>)
              else case table_at vcs vdevid of
                     None \<Rightarrow> None
                   | Some cur \<Rightarrow>
                       let cur = (if vd_name cur = None
                                  then cur\<lparr>vd_name := Some sec, vd_vdev_id := of_int vdevid\<rparr> else cur)
                       in Some (True, cfg\<lparr>dpdk := d\<lparr>vdev_cfgs := Some (vcs[nat vdevid := vdev_option name val cur])\<rparr>\<rparr>))"

definition bond_option :: "string \<Rightarrow> string \<Rightarrow> ff_bond_cfg \<Rightarrow> ff_bond_cfg" where
  "bond_option name val cur =
    (if name = ''mode'' then cur\<lparr>bd_mode := of_int (atoi val)\<rparr>
     else if name = ''slave'' then cur\<lparr>bd_slave := Some val\<rparr>
     else if name = ''primary'' then cur\<lparr>bd_primary := Some val\<rparr>
     else if name = ''socket_id'' then cur\<lparr>bd_socket_id := of_int (atoi val)\<rparr>
     else if name = ''mac'' then cur\<lparr>bd_bond_mac := Some val\<rparr>
     else if name = ''xmit_policy'' then cur\<lparr>bd_xmit_policy := Some val\<rparr>
     else if name = ''lsc_poll_period_ms'' then cur\<lparr>bd_lsc_poll_period_ms := of_int (atoi val)\<rparr>
     else if name = ''up_delay'' then cur\<lparr>bd_up_delay := of_int (atoi val)\<rparr>
     else if name = ''down_delay'' then cur\<lparr>bd_down_delay := of_int (atoi val)\<rparr>
     else cur)"

definition bond_cfg_handler :: "string \<Rightarrow> string \<Rightarrow> string \<Rightarrow> ff_config \<Rightarrow> (bool \<times> ff_config) option" where
  "bond_cfg_handler sec name val cfg =
    (if nb_bond (dpdk cfg) = 0 then Some (False, cfg)
     else
       let bcs = (case bond_cfgs (dpdk cfg) of Some bcs \<Rightarrow> bcs | None \<Rightarrow> replicate RTE_MAX_ETHPORTS zero_bond);
           d = (dpdk cfg)\<lparr>bond_cfgs := Some bcs\<rparr>
       in case sscanf_int ''bond'' sec of
            None \<Rightarrow> Some (False, cfg\<lparr>dpdk := d\<rparr>)
          | Some bondid \<Rightarrow>
              if bondid > nb_bond d then Some (True, cfg\<lparr>dpdk := d\<rparr>)
              else case table_at bcs bondid of
                     None \<Rightarrow> None
                   | Some cur \<Rightarrow>
                       let cur = (if bd_name cur = None
                                  then cur\<lparr>bd_name := Some sec, bd_bond_id := of_int bondid\<rparr> else cur)
                       in Some (True, cfg\<lparr>dpdk := d\<lparr>bond_cfgs := Some (bcs[nat bondid := bond_option name val cur])\<rparr>\<rparr>))"

section \<open>The section of the RSS check\<close>

text \<open>\<open>inet_pton\<close> on the two address families; on None the destination stays as it is.\<close>

record pton_api =
  pton4 :: "string \<Rightarrow> u32 option"
  pton6 :: "string \<Rightarrow> u8 list option"

definition rss_entry :: "pton_api \<Rightarrow> string \<Rightarrow> string \<Rightarrow> string \<Rightarrow> string \<Rightarrow> ff_rss_tbl_cfg \<Rightarrow> ff_rss_tbl_cfg" where
  "rss_entry pton port daddr saddr sport e =
    (let e = e\<lparr>rt_port_id := of_int (atoi port)\<rparr>;
         e = (if CHR '':'' \<in> set daddr
              then e\<lparr>rt_family := 10,
                     rt_daddr6 := (case pton6 pton daddr of Some a \<Rightarrow> a | None \<Rightarrow> rt_daddr6 e),
                     rt_saddr6 := (case pton6 pton saddr of Some a \<Rightarrow> a | None \<Rightarrow> rt_saddr6 e)\<rparr>
              else e\<lparr>rt_family := 2,
                     rt_daddr := (case pton4 pton daddr of Some a \<Rightarrow> a | None \<Rightarrow> rt_daddr e),
                     rt_saddr := (case pton4 pton saddr of Some a \<Rightarrow> a | None \<Rightarrow> rt_saddr e)\<rparr>)
     in e\<lparr>rt_sport := htons (of_int (atoi sport))\<rparr>)"

text \<open>The loop over the entries from position \<open>i\<close>; whether all of them are well formed.\<close>

fun rss_entries :: "pton_api \<Rightarrow> nat \<Rightarrow> string list \<Rightarrow> ff_rss_tbl_cfg list \<Rightarrow> bool \<times> ff_rss_tbl_cfg list" where
  "rss_entries pton i [] es = (True, es)"
| "rss_entries pton i (tok # toks) es =
    (case rte_strsplit tok 4 (CHR '' '') of
       [port, daddr, saddr, sport] \<Rightarrow>
         rss_entries pton (i + 1) toks (es[i := rss_entry pton port daddr saddr sport (es ! i)])
     | _ \<Rightarrow> (False, es))"

definition rss_tbl_cfg_handler :: "pton_api \<Rightarrow> ff_rss_check_cfg \<Rightarrow> ff_rss_check_cfg" where
  "rss_tbl_cfg_handler pton cur =
    (let s = the (rc_rss_tbl_str cur);
         toks = rte_strsplit s FF_RSS_TBL_MAX_ENTRIES (CHR '';'');
         cur = cur\<lparr>rc_rss_tbl_str := Some (pr_rest s)\<rparr>
     in if toks = [] then cur
        else let (ok, es) = rss_entries pton 0 toks (rc_rss_tbl_cfgs cur);
                 cur = cur\<lparr>rc_rss_tbl_cfgs := es\<rparr>
             in if ok then cur\<lparr>rc_nb_rss_tbl := length toks\<rparr> else cur)"

definition rss_check_cfg_handler :: "pton_api \<Rightarrow> string \<Rightarrow> string \<Rightarrow> ff_config \<Rightarrow> (bool \<times> ff_config) option" where
  "rss_check_cfg_handler pton name val cfg =
    (if port_cfgs (dpdk cfg) = None \<and> vlan_cfgs (dpdk cfg) = None then Some (False, cfg)
     else
       let cur = (case rss_check_cfgs (dpdk cfg) of Some c \<Rightarrow> c | None \<Rightarrow> zero_rss_check\<lparr>rc_thash_adjust := 1\<rparr>);
           cur = (if name = ''enable'' then cur\<lparr>rc_enable := atoi val\<rparr>
                  else if name = ''recheck'' then cur\<lparr>rc_recheck := atoi val\<rparr>
                  else if name = ''thash_adjust'' then cur\<lparr>rc_thash_adjust := atoi val\<rparr>
                  else if name = ''rss_tbl'' then rss_tbl_cfg_handler pton (cur\<lparr>rc_rss_tbl_str := Some val\<rparr>)
                  else cur)
       in Some (True, cfg\<lparr>dpdk := (dpdk cfg)\<lparr>rss_check_cfgs := Some cur\<rparr>\<rparr>))"

section \<open>The handler of the file\<close>

definition dpdk_option :: "string \<Rightarrow> string \<Rightarrow> ff_config \<Rightarrow> (bool \<times> ff_config) option" where
  "dpdk_option name val cfg =
    (let d = dpdk cfg;
         set_d = (\<lambda>d. Some (True, cfg\<lparr>dpdk := d\<rparr>));
         ret_d = map_option (\<lambda>(ok, d). (ok, cfg\<lparr>dpdk := d\<rparr>))
     in if name = ''log_level'' then set_d (d\<lparr>dpdk_log_level := of_int (atoi val)\<rparr>)
     else if name = ''fstack_log_level'' then Some (True, cfg\<lparr>flog := (flog cfg)\<lparr>log_level := atoi val\<rparr>\<rparr>)
     else if name = ''fstack_log_file_prefix'' then Some (True, cfg\<lparr>flog := (flog cfg)\<lparr>log_dir := Some val\<rparr>\<rparr>)
     else if name = ''channel'' then set_d (d\<lparr>nb_channel := atoi val\<rparr>)
     else if name = ''memory'' then set_d (d\<lparr>memory := atoi val\<rparr>)
     else if name = ''no_huge'' then set_d (d\<lparr>no_huge := atoi val\<rparr>)
     else if name = ''thread_mode'' then set_d (d\<lparr>thread_mode := atoi val\<rparr>)
     else if name = ''primary_slim'' then set_d (d\<lparr>primary_slim := atoi val\<rparr>)
     else if name = ''lcore_mask'' then ret_d (Some (parse_lcore_mask val (d\<lparr>lcore_mask := Some val\<rparr>)))
     else if name = ''base_virtaddr'' then set_d (d\<lparr>base_virtaddr := Some val\<rparr>)
     else if name = ''file_prefix'' then set_d (d\<lparr>eal_file_prefix := Some val\<rparr>)
     else if name = ''allow'' then set_d (d\<lparr>dpdk_allow := Some val\<rparr>)
     else if name = ''extra_eal_args'' then set_d (d\<lparr>extra_eal_args := Some val\<rparr>)
     else if name = ''port_list'' then ret_d (parse_port_list val d)
     else if name = ''nb_vdev'' then set_d (d\<lparr>nb_vdev := atoi val\<rparr>)
     else if name = ''nb_bond'' then set_d (d\<lparr>nb_bond := atoi val\<rparr>)
     else if name = ''promiscuous'' then set_d (d\<lparr>promiscuous := atoi val\<rparr>)
     else if name = ''numa_on'' then set_d (d\<lparr>numa_on := atoi val\<rparr>)
     else if name = ''tso'' then set_d (d\<lparr>dpdk_tso := atoi val\<rparr>)
     else if name = ''lro'' then set_d (d\<lparr>dpdk_lro := atoi val\<rparr>)
     else if name = ''tx_csum_offoad_skip'' then set_d (d\<lparr>tx_csum_offoad_skip := atoi val\<rparr>)
     else if name = ''tx_csum_ip_skip'' then set_d (d\<lparr>tx_csum_ip_skip := atoi val\<rparr>)
     else if name = ''tx_csum_l4_skip'' then set_d (d\<lparr>tx_csum_l4_skip := atoi val\<rparr>)
     else if name = ''vlan_strip'' then set_d (d\<lparr>vlan_strip := atoi val\<rparr>)
     else if name = ''vlan_filter'' then ret_d (parse_vlan_filter_list val d)
     else if name = ''idle_sleep'' then set_d (d\<lparr>idle_sleep := of_int (atoi val)\<rparr>)
     else if name = ''primary_slim_idle_sleep'' then set_d (d\<lparr>primary_slim_idle_sleep := of_int (atoi val)\<rparr>)
     else if name = ''pkt_tx_delay'' then set_d (d\<lparr>pkt_tx_delay := of_int (atoi val)\<rparr>)
     else if name = ''symmetric_rss'' then set_d (d\<lparr>symmetric_rss := atoi val\<rparr>)
     else if name = ''mtu_enable'' then set_d (d\<lparr>mtu_enable := atoi val\<rparr>)
     else if name = ''max_mtu'' then
       (case ff_parse_u16 val FF_MTU_DEFAULT 65535 of
          None \<Rightarrow> Some (False, cfg) | Some v \<Rightarrow> set_d (d\<lparr>max_mtu := v\<rparr>))
     else if name = ''mbuf_mode'' then
       (case ff_parse_mbuf_mode val of None \<Rightarrow> Some (False, cfg) | Some m \<Rightarrow> set_d (d\<lparr>mbuf_mode := m\<rparr>))
     else if name = ''mbuf_low_watermark'' then set_d (d\<lparr>mbuf_low_watermark := of_int (atoi val)\<rparr>)
     else Some (True, cfg))"

definition kni_option :: "string \<Rightarrow> string \<Rightarrow> ff_kni_cfg \<Rightarrow> ff_kni_cfg" where
  "kni_option name val k =
    (if name = ''enable'' then k\<lparr>kni_enable := atoi val\<rparr>
     else if name = ''owner_proc_id'' then k\<lparr>owner_proc_id := atoi val\<rparr>
     else if name = ''console_packets_ratelimit'' then k\<lparr>console_packets_ratelimit := atoi val\<rparr>
     else if name = ''general_packets_ratelimit'' then k\<lparr>general_packets_ratelimit := atoi val\<rparr>
     else if name = ''kernel_packets_ratelimit'' then k\<lparr>kernel_packets_ratelimit := atoi val\<rparr>
     else if name = ''kni_action'' then k\<lparr>kni_action := Some val\<rparr>
     else if name = ''method'' then k\<lparr>kni_method := Some val\<rparr>
     else if name = ''tcp_port'' then k\<lparr>kni_tcp_port := Some val\<rparr>
     else if name = ''udp_port'' then k\<lparr>kni_udp_port := Some val\<rparr>
     else k)"

definition boot_option :: "string \<Rightarrow> string \<Rightarrow> ff_config \<Rightarrow> bool \<times> ff_config" where
  "boot_option name val cfg =
    (let b = freebsd cfg
     in if name = ''hz'' then (True, cfg\<lparr>freebsd := b\<lparr>bsd_hz := atoi val\<rparr>\<rparr>)
        else if name = ''physmem'' then (True, cfg\<lparr>freebsd := b\<lparr>physmem := atol val\<rparr>\<rparr>)
        else if name = ''fd_reserve'' then (True, cfg\<lparr>freebsd := b\<lparr>fd_reserve := atoi val\<rparr>\<rparr>)
        else if name = ''memsz_MB'' then (True, cfg\<lparr>freebsd := b\<lparr>mem_size := atoi val\<rparr>\<rparr>)
        else if name = ''tcp_ecn'' then (True, cfg\<lparr>freebsd := b\<lparr>tcp_ecn := atoi val\<rparr>\<rparr>)
        else freebsd_conf_handler ''boot'' name val cfg)"

definition pcap_option :: "string \<Rightarrow> string \<Rightarrow> ff_pcap_cfg \<Rightarrow> ff_pcap_cfg" where
  "pcap_option name val p =
    (if name = ''snaplen'' then p\<lparr>snap_len := of_int (atoi val)\<rparr>
     else if name = ''savelen'' then p\<lparr>save_len := of_int (atoi val)\<rparr>
     else if name = ''enable'' then p\<lparr>pcap_enable := of_int (atoi val)\<rparr>
     else if name = ''savepath'' then p\<lparr>save_path := Some val\<rparr>
     else if name = ''timestamp_precision'' then p\<lparr>timestamp_precision := of_int (atoi val)\<rparr>
     else p)"

definition ini_parse_step :: "pton_api \<Rightarrow> string \<Rightarrow> string \<Rightarrow> string \<Rightarrow> ff_config \<Rightarrow> (bool \<times> ff_config) option" where
  "ini_parse_step pton sec name val cfg =
    (if sec = ''dpdk'' then dpdk_option name val cfg
     else if sec = ''kni'' then Some (True, cfg\<lparr>kni := kni_option name val (kni cfg)\<rparr>)
     else if sec = ''freebsd.boot'' then Some (boot_option name val cfg)
     else if sec = ''freebsd.sysctl'' then Some (freebsd_conf_handler ''sysctl'' name val cfg)
     else if take 4 sec = ''port'' then port_cfg_handler sec name val cfg
     else if take 4 sec = ''vlan'' then vlan_cfg_handler sec name val cfg
     else if take 4 sec = ''vdev'' then vdev_cfg_handler sec name val cfg
     else if take 4 sec = ''bond'' then bond_cfg_handler sec name val cfg
     else if sec = ''pcap'' then Some (True, cfg\<lparr>pcap := pcap_option name val (pcap cfg)\<rparr>)
     else if sec = ''rss_check'' then rss_check_cfg_handler pton name val cfg
     else Some (True, cfg))"

text \<open>As the parser calls it: the user's state is the configuration, or None after an access out of bounds.\<close>

definition ini_parse_handler :: "pton_api \<Rightarrow> ff_config option ini_handler" where
  "ini_parse_handler pton sec name val u =
    (case u of None \<Rightarrow> (False, None)
     | Some cfg \<Rightarrow>
         (case ini_parse_step pton sec name val cfg of
            None \<Rightarrow> (False, None) | Some (ok, cfg) \<Rightarrow> (ok, Some cfg)))"

section \<open>The arguments for DPDK\<close>

definition show_int :: "int \<Rightarrow> string" where
  "show_int v = (if v < 0 then CHR ''-'' # dec (nat (- v)) else dec (nat v))"

definition DPDK_CONFIG_MAXLEN :: nat where "DPDK_CONFIG_MAXLEN = 256"

text \<open>\<open>sprintf\<close> and \<open>strcat\<close> into \<open>temp\<close>, then a slot of \<open>dpdk_argv\<close>: None when either is too small.\<close>

definition push_arg :: "string \<Rightarrow> string list \<Rightarrow> string list option" where
  "push_arg arg argv =
    (if length arg \<ge> DPDK_CONFIG_MAXLEN \<or> length argv \<ge> DPDK_CONFIG_NUM + 1 then None else Some (argv @ [arg]))"

definition push_if :: "bool \<Rightarrow> string \<Rightarrow> string list option \<Rightarrow> string list option" where
  "push_if c arg argv = (case argv of None \<Rightarrow> None | Some a \<Rightarrow> if c then push_arg arg a else Some a)"

definition push_str :: "string \<Rightarrow> string option \<Rightarrow> string list option \<Rightarrow> string list option" where
  "push_str prefix s argv = push_if (s \<noteq> None) (prefix @ the s) argv"

text \<open>The tokens that \<open>strtok_r\<close> finds, and what it leaves of the string.\<close>

function strtok_tokens :: "char \<Rightarrow> string \<Rightarrow> string list" where
  "strtok_tokens delim s =
    (let s = dropWhile (\<lambda>c. c = delim) s
     in if s = [] then [] else takeWhile (\<lambda>c. c \<noteq> delim) s # strtok_tokens delim (dropWhile (\<lambda>c. c \<noteq> delim) s))"
  by pat_completeness auto
termination
proof (relation "measure (\<lambda>(_, s). length s)")
  fix delim s x
  assume "x = dropWhile (\<lambda>c. c = delim) s" "x \<noteq> []"
  then have "hd x \<noteq> delim" "length x \<le> length s"
    using hd_dropWhile[of "\<lambda>c. c = delim" s] length_dropWhile_le[of "\<lambda>c. c = delim" s] by auto
  moreover have "length (dropWhile (\<lambda>c. c \<noteq> delim) x) < length x"
    using \<open>x \<noteq> []\<close> calculation(1) length_dropWhile_le[of "\<lambda>c. c \<noteq> delim" "tl x"] by (cases x) auto
  ultimately show "((delim, dropWhile (\<lambda>c. c \<noteq> delim) x), (delim, s)) \<in> measure (\<lambda>(_, s). length s)" by simp
qed simp

declare strtok_tokens.simps [simp del]

definition strtok_rest :: "char \<Rightarrow> string \<Rightarrow> string" where
  "strtok_rest delim s =
    takeWhile (\<lambda>c. c = delim) s @ takeWhile (\<lambda>c. c \<noteq> delim) (dropWhile (\<lambda>c. c = delim) s)"

definition push_allow :: "string option \<Rightarrow> string list option \<Rightarrow> string list option" where
  "push_allow s argv =
    (case s of None \<Rightarrow> argv
     | Some s \<Rightarrow> fold (\<lambda>tok. push_if True (''--allow='' @ tok)) (strtok_tokens (CHR '','') s) argv)"

definition opt_part :: "bool \<Rightarrow> string \<Rightarrow> string" where
  "opt_part c s = (if c then s else [])"

text \<open>A null \<open>path\<close> or \<open>slave\<close> is printed with \<open>%s\<close>.\<close>

definition vdev_arg :: "ff_vdev_cfg \<Rightarrow> string option" where
  "vdev_arg v =
    (case vd_path v of None \<Rightarrow> None
     | Some path \<Rightarrow> Some (''--vdev=virtio_user'' @ show_int (uint (vd_vdev_id v)) @ '',path='' @ path
         @ opt_part (vd_nb_queues v \<noteq> 0) ('',queues='' @ show_int (uint (vd_nb_queues v)))
         @ opt_part (vd_nb_cq v \<noteq> 0) ('',cq='' @ show_int (uint (vd_nb_cq v)))
         @ opt_part (vd_queue_size v \<noteq> 0) ('',queue_size='' @ show_int (uint (vd_queue_size v)))
         @ opt_part (vd_mac v \<noteq> None) ('',mac='' @ the (vd_mac v))))"

definition bond_arg :: "ff_bond_cfg \<Rightarrow> string option" where
  "bond_arg b =
    (case bd_slave b of None \<Rightarrow> None
     | Some slave \<Rightarrow> Some (''net_bonding'' @ show_int (uint (bd_bond_id b)) @ '',mode='' @ show_int (uint (bd_mode b))
         @ '',slave='' @ slave
         @ opt_part (bd_primary b \<noteq> None) ('',primary='' @ the (bd_primary b))
         @ opt_part (bd_socket_id b \<noteq> 0) ('',socket_id='' @ show_int (uint (bd_socket_id b)))
         @ opt_part (bd_bond_mac b \<noteq> None) ('',mac='' @ the (bd_bond_mac b))
         @ opt_part (bd_xmit_policy b \<noteq> None) ('',xmit_policy='' @ the (bd_xmit_policy b))
         @ opt_part (bd_lsc_poll_period_ms b \<noteq> 0) ('',lsc_poll_period_ms='' @ show_int (uint (bd_lsc_poll_period_ms b)))
         @ opt_part (bd_up_delay b \<noteq> 0) ('',up_delay='' @ show_int (uint (bd_up_delay b)))
         @ opt_part (bd_down_delay b \<noteq> 0) ('',down_delay='' @ show_int (uint (bd_down_delay b)))))"

definition push_vdev :: "ff_dpdk_cfg \<Rightarrow> nat \<Rightarrow> string list option \<Rightarrow> string list option" where
  "push_vdev d i argv =
    (case vdev_cfgs d of None \<Rightarrow> None
     | Some vcs \<Rightarrow> if i \<ge> length vcs then None
                   else case vdev_arg (vcs ! i) of None \<Rightarrow> None | Some arg \<Rightarrow> push_if True arg argv)"

definition push_bond :: "ff_dpdk_cfg \<Rightarrow> nat \<Rightarrow> string list option \<Rightarrow> string list option" where
  "push_bond d i argv =
    (case bond_cfgs d of None \<Rightarrow> None
     | Some bcs \<Rightarrow> if i \<ge> length bcs then None
                   else case bond_arg (bcs ! i) of None \<Rightarrow> None
                        | Some arg \<Rightarrow> push_if True arg (push_if True ''--vdev'' argv))"

primrec push_extra :: "string list \<Rightarrow> string list \<Rightarrow> string list" where
  "push_extra [] argv = argv"
| "push_extra (tok # toks) argv = (if length argv \<ge> DPDK_CONFIG_NUM then argv else push_extra toks (argv @ [tok]))"

text \<open>The arguments before those of \<open>extra_eal_args\<close>.\<close>

definition own_args :: "ff_dpdk_cfg \<Rightarrow> string list option" where
  "own_args d =
    (let argv = Some [''f-stack''];
         argv = push_if (no_huge d \<noteq> 0) ''--no-huge'' argv;
         argv = push_str ''-c'' (proc_mask d) argv;
         argv = push_if (nb_channel d \<noteq> 0) (''-n'' @ show_int (nb_channel d)) argv;
         argv = push_if (memory d \<noteq> 0) (''-m'' @ show_int (memory d)) argv;
         argv = push_if (dpdk_log_level d \<noteq> 0) (''--log-level='' @ show_int (uint (dpdk_log_level d))) argv;
         argv = push_str ''--proc-type='' (proc_type d) argv;
         argv = push_str ''--base-virtaddr='' (base_virtaddr d) argv;
         argv = push_str ''--file-prefix=container-'' (eal_file_prefix d) argv;
         argv = push_allow (dpdk_allow d) argv;
         argv = (if nb_vdev d = 0 then argv
                 else let argv = fold (push_vdev d) [0..<nat (nb_vdev d)] argv;
                          argv = push_if True ''--no-pci'' argv
                      in push_if (eal_file_prefix d = None) ''--file-prefix=container'' argv)
     in if nb_bond d = 0 then argv else fold (push_bond d) [0..<nat (nb_bond d)] argv)"

definition dpdk_args_setup :: "ff_config \<Rightarrow> (string list \<times> ff_config) option" where
  "dpdk_args_setup cfg =
    (let d = dpdk cfg
     in case own_args d of None \<Rightarrow> None
        | Some a \<Rightarrow>
            Some (case extra_eal_args d of None \<Rightarrow> a | Some s \<Rightarrow> push_extra (strtok_tokens (CHR '' '') s) a,
              cfg\<lparr>dpdk := d\<lparr>dpdk_allow := map_option (strtok_rest (CHR '','')) (dpdk_allow d),
                            extra_eal_args := map_option (strtok_rest (CHR '' '')) (extra_eal_args d)\<rparr>\<rparr>))"

section \<open>Command line and defaults\<close>

text \<open>\<open>opts\<close> is what successive calls of \<open>getopt_long\<close> return, with their arguments.\<close>

fun parse_opts :: "(char \<times> string) list \<Rightarrow> ff_config \<Rightarrow> bool \<times> ff_config" where
  "parse_opts [] cfg = (True, cfg)"
| "parse_opts ((c, optarg) # opts) cfg =
    (if c = CHR ''c'' then parse_opts opts (cfg\<lparr>cfg_filename := Some optarg\<rparr>)
     else if c = CHR ''p'' then parse_opts opts (cfg\<lparr>dpdk := (dpdk cfg)\<lparr>proc_id := atoi optarg\<rparr>\<rparr>)
     else if c = CHR ''t'' then parse_opts opts (cfg\<lparr>dpdk := (dpdk cfg)\<lparr>proc_type := Some optarg\<rparr>\<rparr>)
     else (False, cfg))"

definition ff_parse_args :: "(char \<times> string) list \<Rightarrow> ff_config \<Rightarrow> int \<times> ff_config" where
  "ff_parse_args opts cfg =
    (let (ok, cfg) = parse_opts opts cfg
     in if \<not> ok then (-1, cfg)
        else
          let d = dpdk cfg;
              d = (if proc_type d = None then d\<lparr>proc_type := Some ''auto''\<rparr> else d)
          in if the (proc_type d) \<notin> {''primary'', ''secondary'', ''auto''} then (-1, cfg\<lparr>dpdk := d\<rparr>)
             else let d = (if unat (of_int (proc_id d) :: u16) > RTE_MAX_LCORE then d\<lparr>proc_id := 0\<rparr> else d)
                  in (0, cfg\<lparr>dpdk := d\<rparr>))"

definition DEFAULT_CONFIG_FILE :: string where "DEFAULT_CONFIG_FILE = ''config.ini''"
definition FF_LOG_FILENAME_PREFIX :: string where "FF_LOG_FILENAME_PREFIX = ''./f-stack-''"
definition FF_LOG_DISABLE :: int where "FF_LOG_DISABLE = 0"

definition ff_default_config :: ff_config where
  "ff_default_config =
    zero_config\<lparr>cfg_filename := Some DEFAULT_CONFIG_FILE,
      dpdk := zero_dpdk\<lparr>proc_id := -1, numa_on := 1, promiscuous := 1, pkt_tx_delay := of_nat BURST_TX_DRAIN_US,
        primary_slim := 0, primary_slim_idle_sleep := 1000, mtu_enable := 0, max_mtu := of_nat FF_MTU_JUMBO_DEFAULT,
        mbuf_mode := FF_MBUF_MODE_LARGE, mbuf_low_watermark := 0\<rparr>,
      freebsd := (freebsd zero_config)\<lparr>bsd_hz := 100, physmem := 1048576 * 256, fd_reserve := 0, mem_size := 256, tcp_ecn := 0\<rparr>,
      flog := \<lparr>log_level = FF_LOG_DISABLE, log_dir = Some FF_LOG_FILENAME_PREFIX\<rparr>\<rparr>"

section \<open>The check of the configuration\<close>

definition tolower :: "char \<Rightarrow> char" where
  "tolower c = (if isupper c then char_of (code c + 32) else c)"

definition same_word :: "string \<Rightarrow> string \<Rightarrow> bool" where
  "same_word a b \<longleftrightarrow> map tolower a = map tolower b"

definition check_kni :: "ff_kni_cfg \<Rightarrow> bool" where
  "check_kni k \<longleftrightarrow> \<not> (kni_enable k \<noteq> 0 \<and> kni_method k = None) \<and>
     (case kni_method k of None \<Rightarrow> True | Some m \<Rightarrow> same_word m ''accept'' \<or> same_word m ''reject'') \<and>
     (case kni_action k of None \<Rightarrow> True
      | Some a \<Rightarrow> same_word a ''alltokni'' \<or> same_word a ''alltoff'' \<or> same_word a ''default'')"

definition check_pcap :: "ff_pcap_cfg \<Rightarrow> ff_pcap_cfg" where
  "check_pcap p =
    (let p = (if unat (save_len p) < PCAP_SAVE_MINLEN then p\<lparr>save_len := of_nat PCAP_SAVE_MINLEN\<rparr> else p);
         p = (if unat (snap_len p) < PCAP_SNAP_MINLEN then p\<lparr>snap_len := of_nat PCAP_SNAP_MINLEN\<rparr> else p)
     in if save_path p = None \<or> save_path p = Some [] then p\<lparr>save_path := Some ''.''\<rparr> else p)"

text \<open>The cores of a port; None when the count exceeds the array.\<close>

definition port_cores :: "ff_port_cfg \<Rightarrow> u16 list option" where
  "port_cores pc = (if nat (pc_nb_lcores pc) > length (pc_lcore_list pc) then None
     else Some (take (nat (pc_nb_lcores pc)) (pc_lcore_list pc)))"

definition lcore_enabled :: "ff_dpdk_cfg \<Rightarrow> u16 \<Rightarrow> bool" where
  "lcore_enabled d lcore_id \<longleftrightarrow>
     uint16_binary_search (case proc_lcore d of None \<Rightarrow> [] | Some l \<Rightarrow> l) 0 (nb_procs d - 1) lcore_id \<ge> 0"

text \<open>The core of a process number, as \<open>cfg->dpdk.proc_lcore[i]\<close>.\<close>

definition lcore_of :: "ff_dpdk_cfg \<Rightarrow> int \<Rightarrow> u16 option" where
  "lcore_of d i = (case proc_lcore d of None \<Rightarrow> None | Some l \<Rightarrow> table_at l i)"

definition is_primary :: "ff_dpdk_cfg \<Rightarrow> bool" where
  "is_primary d \<longleftrightarrow> proc_type d = Some ''primary''"

text \<open>One of the three tests on the cores of a port: none of it when \<open>c\<close> fails, otherwise whether the core of a
  process is in the list as wanted.\<close>

definition core_test :: "bool \<Rightarrow> ff_dpdk_cfg \<Rightarrow> int \<Rightarrow> bool \<Rightarrow> u16 list \<Rightarrow> bool option" where
  "core_test c d i wanted cores =
    (if \<not> c then Some True
     else case lcore_of d i of None \<Rightarrow> None | Some core \<Rightarrow> Some ((core \<in> set cores) = wanted))"

definition check_port :: "ff_config \<Rightarrow> u16 \<Rightarrow> bool option" where
  "check_port cfg portid =
    (let d = dpdk cfg; k = kni cfg
     in case port_cfgs d of
          None \<Rightarrow> None
        | Some pcs \<Rightarrow>
            if unat portid \<ge> length pcs then None
            else
              let pc = pcs ! unat portid
              in if pc_addr pc = None \<or> pc_netmask pc = None \<or> pc_broadcast pc = None \<or> pc_gateway pc = None
                 then Some False
                 else case port_cores pc of
                   None \<Rightarrow> None
                 | Some cores \<Rightarrow>
                     if \<not> list_all (lcore_enabled d) cores then Some False
                     else case core_test (primary_slim d \<noteq> 0 \<and> is_primary d) d (proc_id d) False cores of
                            None \<Rightarrow> None | Some False \<Rightarrow> Some False
                          | Some True \<Rightarrow>
                     (case core_test (primary_slim d \<noteq> 0 \<and> kni_enable k \<noteq> 0) d (owner_proc_id k) True cores of
                            None \<Rightarrow> None | Some False \<Rightarrow> Some False
                          | Some True \<Rightarrow>
                     core_test (kni_enable k \<noteq> 0 \<and> primary_slim d = 0 \<and> is_primary d) d (proc_id d) True cores))"

text \<open>A loop over the ports that stops at the first port rejected.\<close>

fun all_ports :: "(u16 \<Rightarrow> bool option) \<Rightarrow> u16 list \<Rightarrow> bool option" where
  "all_ports test [] = Some True"
| "all_ports test (portid # ids) =
    (case test portid of None \<Rightarrow> None | Some False \<Rightarrow> Some False | Some True \<Rightarrow> all_ports test ids)"

definition port_mtu_test :: "ff_dpdk_cfg \<Rightarrow> (nat \<Rightarrow> bool) \<Rightarrow> u16 \<Rightarrow> bool option" where
  "port_mtu_test d test portid =
    (case port_cfgs d of None \<Rightarrow> None
     | Some pcs \<Rightarrow> if unat portid \<ge> length pcs then None else Some (test (unat (pc_mtu (pcs ! unat portid)))))"

definition mbuf_room :: "u16 \<Rightarrow> nat" where
  "mbuf_room mtu = (128 + unat mtu + 26 + 63) div 64 * 64"

definition check_mtu :: "ff_dpdk_cfg \<Rightarrow> u16 list \<Rightarrow> bool option" where
  "check_mtu d ids =
    (if mtu_enable d \<noteq> 0 then
       if unat (max_mtu d) < FF_MTU_DEFAULT then Some False
       else if mbuf_mode d = FF_MBUF_MODE_LARGE \<and> mbuf_room (max_mtu d) > 65535 then Some False
       else all_ports (port_mtu_test d (\<lambda>mtu. FF_MTU_MIN \<le> mtu \<and> mtu \<le> unat (max_mtu d))) ids
     else all_ports (port_mtu_test d (\<lambda>mtu. mtu \<le> FF_MTU_DEFAULT)) ids)"

definition check_ids :: "ff_dpdk_cfg \<Rightarrow> u16 list option" where
  "check_ids d =
    (if nat (nb_ports d) = 0 then Some []
     else case portid_list d of None \<Rightarrow> None
          | Some ids \<Rightarrow> if nat (nb_ports d) > length ids then None else Some (take (nat (nb_ports d)) ids))"

definition ff_check_config :: "ff_config \<Rightarrow> (bool \<times> ff_config) option" where
  "ff_check_config cfg =
    (if \<not> check_kni (kni cfg) then Some (False, cfg)
     else
       let cfg = cfg\<lparr>pcap := check_pcap (pcap cfg)\<rparr>; d = dpdk cfg
       in case check_ids d of
            None \<Rightarrow> None
          | Some ids \<Rightarrow>
              (case all_ports (check_port cfg) ids of
                 None \<Rightarrow> None
               | Some False \<Rightarrow> Some (False, cfg)
               | Some True \<Rightarrow>
                   (case check_mtu d ids of
                      None \<Rightarrow> None
                    | Some False \<Rightarrow> Some (False, cfg)
                    | Some True \<Rightarrow>
                        if primary_slim d \<noteq> 0 \<and> thread_mode d \<noteq> 0 then Some (False, cfg)
                        else if primary_slim d \<noteq> 0 \<and> nb_procs d < 2 then Some (False, cfg)
                        else if thread_mode d = 0 then Some (True, cfg)
                        else if proc_type d = Some ''secondary'' then Some (False, cfg)
                        else Some (True, cfg\<lparr>dpdk := d\<lparr>proc_type := Some ''primary'', nb_threads := nb_procs d, nb_procs := 1,
                               proc_id := 0, proc_mask := (case lcore_mask d of Some m \<Rightarrow> Some m | None \<Rightarrow> proc_mask d)\<rparr>\<rparr>))))"

section \<open>Unloading\<close>

definition ff_cfg_free_port_one :: "ff_port_cfg \<Rightarrow> ff_port_cfg" where
  "ff_cfg_free_port_one p = p\<lparr>pc_name := None, pc_ifname := None, pc_addr := None, pc_netmask := None,
     pc_broadcast := None, pc_gateway := None, pc_vip_ifname := None, pc_vip_addr_str := None,
     pc_vip_addr_array := None, pc_nb_vip := 0, pc_pr_addr_str := None, pc_pr_cfg := None, pc_nb_pr := 0,
     pc_addr6_str := None, pc_gateway6_str := None, pc_vip_addr6_str := None, pc_vip_addr6_array := None,
     pc_nb_vip6 := 0, pc_slave_portid_list := None\<rparr>"

text \<open>For a VLAN the pairs of \<open>pr_cfg\<close> and the array of IPv6 addresses keep their pointers.\<close>

definition ff_cfg_free_vlan_one :: "ff_vlan_cfg \<Rightarrow> ff_vlan_cfg" where
  "ff_cfg_free_vlan_one v = v\<lparr>vl_name := None, vl_ifname := None, vl_addr := None, vl_netmask := None,
     vl_broadcast := None, vl_gateway := None, vl_vip_ifname := None, vl_vip_addr_str := None,
     vl_vip_addr_array := None, vl_nb_vip := 0, vl_pr_addr_str := None, vl_addr6_str := None,
     vl_gateway6_str := None, vl_vip_addr6_str := None\<rparr>"

definition ff_cfg_free_vdev_one :: "ff_vdev_cfg \<Rightarrow> ff_vdev_cfg" where
  "ff_cfg_free_vdev_one v = v\<lparr>vd_name := None, vd_iface := None, vd_path := None, vd_mac := None\<rparr>"

definition ff_cfg_free_bond_one :: "ff_bond_cfg \<Rightarrow> ff_bond_cfg" where
  "ff_cfg_free_bond_one b = b\<lparr>bd_name := None, bd_slave := None, bd_primary := None, bd_bond_mac := None,
     bd_xmit_policy := None\<rparr>"

text \<open>The chain is freed entry by entry.\<close>

fun ff_cfg_free_freebsd_chain :: "ff_freebsd_cfg list \<Rightarrow> ff_freebsd_cfg list" where
  "ff_cfg_free_freebsd_chain [] = []"
| "ff_cfg_free_freebsd_chain (cur # next) = ff_cfg_free_freebsd_chain next"

text \<open>The structures of the arrays at the time the arrays are freed.\<close>

record freed_arrays =
  freed_ports :: "ff_port_cfg list"
  freed_vlans :: "ff_vlan_cfg list"
  freed_vdevs :: "ff_vdev_cfg list"
  freed_bonds :: "ff_bond_cfg list"

definition ff_unload_config :: "ff_config \<times> string list \<Rightarrow> (ff_config \<times> string list) \<times> freed_arrays" where
  "ff_unload_config = (\<lambda>(cfg, argv).
    let d = dpdk cfg;
        freed = \<lparr>freed_ports = map ff_cfg_free_port_one (case port_cfgs d of None \<Rightarrow> [] | Some xs \<Rightarrow> xs),
                 freed_vlans = map ff_cfg_free_vlan_one (case vlan_cfgs d of None \<Rightarrow> [] | Some xs \<Rightarrow> xs),
                 freed_vdevs = map ff_cfg_free_vdev_one (case vdev_cfgs d of None \<Rightarrow> [] | Some xs \<Rightarrow> xs),
                 freed_bonds = map ff_cfg_free_bond_one (case bond_cfgs d of None \<Rightarrow> [] | Some xs \<Rightarrow> xs)\<rparr>;
        d = d\<lparr>proc_type := None, lcore_mask := None, proc_mask := None, base_virtaddr := None,
              eal_file_prefix := None, dpdk_allow := None, extra_eal_args := None, proc_lcore := None,
              portid_list := None, port_cfgs := None, vlan_cfgs := None, vdev_cfgs := None, bond_cfgs := None,
              rss_check_cfgs := None\<rparr>;
        k = (kni cfg)\<lparr>kni_action := None, kni_method := None, kni_tcp_port := None, kni_udp_port := None\<rparr>;
        b = freebsd cfg;
        cfg = cfg\<lparr>cfg_filename := None, dpdk := d, kni := k,
                  pcap := (pcap cfg)\<lparr>save_path := None\<rparr>, flog := (flog cfg)\<lparr>log_dir := None\<rparr>,
                  freebsd := b\<lparr>bsd_boot := ff_cfg_free_freebsd_chain (bsd_boot b),
                               bsd_sysctl := ff_cfg_free_freebsd_chain (bsd_sysctl b)\<rparr>\<rparr>
    in ((cfg, []), freed))"

section \<open>Loading\<close>

text \<open>The state is the configuration and \<open>dpdk_argv\<close>. None is an access out of bounds on the way; \<open>fs\<close> are the
  files.\<close>

definition ff_load_config :: "pton_api \<Rightarrow> (string \<Rightarrow> string option) \<Rightarrow> (char \<times> string) list \<Rightarrow> ff_config \<times> string list
    \<Rightarrow> (int \<times> ff_config \<times> string list) option" where
  "ff_load_config pton fs opts st =
    (let d = dpdk (fst st);
         st = (if proc_lcore d \<noteq> None \<or> port_cfgs d \<noteq> None \<or> vlan_cfgs d \<noteq> None \<or> bond_cfgs d \<noteq> None
               then fst (ff_unload_config st) else st);
         (ret, cfg) = ff_parse_args opts ff_default_config
     in if ret < 0 then Some (ret, cfg, snd st)
        else
          case ini_parse fs (the (cfg_filename cfg)) (ini_parse_handler pton) (Some cfg) of
            (_, None) \<Rightarrow> None
          | (ret, Some cfg) \<Rightarrow>
              if ret \<noteq> 0 then Some (-1, cfg, snd st)
              else case ff_check_config cfg of
                     None \<Rightarrow> None
                   | Some (False, cfg) \<Rightarrow> Some (-1, cfg, snd st)
                   | Some (True, cfg) \<Rightarrow>
                       (case dpdk_args_setup cfg of
                          None \<Rightarrow> None
                        | Some (argv, cfg) \<Rightarrow> if length argv \<le> 0 then Some (-1, cfg, argv) else Some (0, cfg, argv)))"

end
