(* ===== verification/FF_Config_Inv.thy ===== *)
theory FF_Config_Inv
  imports FF_Config
begin

text \<open>
  What the configuration of \<open>lib/ff_config.c\<close> keeps: the sizes of its arrays and the counts of their
  elements, whatever the file; what a checked configuration guarantees; the arguments for DPDK; loading
  again; and the accesses out of bounds that a file can lead to.
\<close>

section \<open>The invariant\<close>

definition counted_array :: "'a list option \<Rightarrow> nat \<Rightarrow> bool" where
  "counted_array xs n \<longleftrightarrow> (case xs of None \<Rightarrow> n = 0 | Some xs \<Rightarrow> n = length xs)"

definition port_ok :: "ff_port_cfg \<Rightarrow> bool" where
  "port_ok pc \<longleftrightarrow> length (pc_lcore_list pc) = DPDK_MAX_LCORE \<and> 0 \<le> pc_nb_lcores pc \<and>
     pc_nb_lcores pc \<le> int DPDK_MAX_LCORE \<and> length (pc_vlan_cfgs pc) = DPDK_MAX_VLAN_FILTER \<and>
     pc_nb_vlan pc \<le> DPDK_MAX_VLAN_FILTER \<and> counted_array (pc_vip_addr_array pc) (pc_nb_vip pc) \<and>
     counted_array (pc_vip_addr6_array pc) (pc_nb_vip6 pc) \<and> counted_array (pc_pr_cfg pc) (pc_nb_pr pc)"

definition vlan_ok :: "ff_vlan_cfg \<Rightarrow> bool" where
  "vlan_ok vc \<longleftrightarrow> counted_array (vl_vip_addr_array vc) (vl_nb_vip vc) \<and>
     counted_array (vl_vip_addr6_array vc) (vl_nb_vip6 vc) \<and> counted_array (vl_pr_cfg vc) (vl_nb_pr vc)"

definition cores_ok :: "u16 list option \<Rightarrow> int \<Rightarrow> bool" where
  "cores_ok cores n \<longleftrightarrow> 0 \<le> n \<and> n \<le> int RTE_MAX_LCORE \<and>
     (case cores of None \<Rightarrow> n = 0 | Some l \<Rightarrow> length l = RTE_MAX_LCORE)"

definition ids_ok :: "u16 list option \<Rightarrow> int \<Rightarrow> u16 \<Rightarrow> bool" where
  "ids_ok ids n m \<longleftrightarrow>
     (case ids of None \<Rightarrow> n = 0
      | Some ids \<Rightarrow> ids \<noteq> [] \<and> n = int (length ids) \<and> length ids \<le> RTE_MAX_ETHPORTS \<and> m = last ids)"

definition table_ok :: "nat \<Rightarrow> ('a \<Rightarrow> bool) \<Rightarrow> 'a list option \<Rightarrow> bool" where
  "table_ok n P xs \<longleftrightarrow> (case xs of None \<Rightarrow> True | Some xs \<Rightarrow> length xs = n \<and> list_all P xs)"

definition rss_ok :: "ff_rss_check_cfg \<Rightarrow> bool" where
  "rss_ok rcc \<longleftrightarrow> length (rc_rss_tbl_cfgs rcc) = FF_RSS_TBL_MAX_ENTRIES \<and> rc_nb_rss_tbl rcc \<le> FF_RSS_TBL_MAX_ENTRIES"

definition dpdk_ok :: "ff_dpdk_cfg \<Rightarrow> bool" where
  "dpdk_ok d \<longleftrightarrow> length (vlan_filter_id d) = DPDK_MAX_VLAN_FILTER \<and> 0 \<le> nb_vlan_filter d \<and>
     nb_vlan_filter d \<le> int DPDK_MAX_VLAN_FILTER \<and> cores_ok (proc_lcore d) (nb_procs d) \<and>
     ids_ok (portid_list d) (nb_ports d) (max_portid d) \<and>
     table_ok RTE_MAX_ETHPORTS port_ok (port_cfgs d) \<and> table_ok DPDK_MAX_VLAN_FILTER vlan_ok (vlan_cfgs d) \<and>
     table_ok RTE_MAX_ETHPORTS (\<lambda>_. True) (vdev_cfgs d) \<and> table_ok RTE_MAX_ETHPORTS (\<lambda>_. True) (bond_cfgs d) \<and>
     pred_option rss_ok (rss_check_cfgs d)"

definition cfg_ok :: "ff_config \<Rightarrow> bool" where
  "cfg_ok cfg = dpdk_ok (dpdk cfg)"

section \<open>Lists keep their arrays\<close>

lemma strsplit_length: "length (rte_strsplit s n d) \<le> n"
proof (induction n arbitrary: s)
  case 0
  then show ?case by (simp add: rte_strsplit.simps)
next
  case (Suc n)
  show ?case using Suc[of "drop 1 (dropWhile (\<lambda>c. c \<noteq> d) s)"] by (subst rte_strsplit.simps) simp
qed

definition list_inv :: "nat \<Rightarrow> (bool \<times> u16 list \<times> nat) option \<Rightarrow> bool" where
  "list_inv n r \<longleftrightarrow> (case r of None \<Rightarrow> True | Some (_, arr, k) \<Rightarrow> length arr = n \<and> k \<le> n)"

lemma list_put_inv: "length arr = n \<Longrightarrow> k \<le> n \<Longrightarrow> list_inv n (list_put m v (arr, k))"
  by (simp add: list_inv_def list_put_def)

lemma list_range_inv: "length arr = n \<Longrightarrow> k \<le> n \<Longrightarrow> list_inv n (list_range f m j rv (arr, k))"
proof (induction f arbitrary: j arr k)
  case (Suc f)
  have put: "list_inv n (list_put m j (arr, k))" using Suc.prems by (rule list_put_inv)
  show ?case
  proof (cases "list_put m j (arr, k)")
    case (Some r)
    obtain ok arr' k' where r: "r = (ok, arr', k')" by (cases r)
    then have "list_inv n (list_range f m (j + 1) rv (arr', k'))"
      using put Some by (intro Suc.IH) (auto simp: list_inv_def)
    then show ?thesis using put Some r Suc.prems by (cases ok) (auto simp: list_inv_def)
  qed (use Suc.prems in \<open>simp add: list_inv_def\<close>)
qed (simp add: list_inv_def)

lemma list_token_inv: "length arr = n \<Longrightarrow> k \<le> n \<Longrightarrow> list_inv n (list_token m tok (arr, k))"
  unfolding list_token_def Let_def
  by (simp add: list_put_inv list_range_inv del: list_range.simps add_2_eq_Suc add_2_eq_Suc' split: prod.splits)
     (auto simp: list_inv_def)

lemma list_tokens_inv: "length arr = n \<Longrightarrow> k \<le> n \<Longrightarrow> list_inv n (list_tokens m toks (arr, k))"
proof (induction toks arbitrary: arr k)
  case (Cons tok toks)
  have tk: "list_inv n (list_token m tok (arr, k))" using Cons.prems by (rule list_token_inv)
  show ?case
  proof (cases "list_token m tok (arr, k)")
    case (Some r)
    obtain ok arr' k' where r: "r = (ok, arr', k')" by (cases r)
    then have "list_inv n (list_tokens m toks (arr', k'))" using tk Some by (intro Cons.IH) (auto simp: list_inv_def)
    then show ?thesis using tk Some r by (cases ok) (auto simp: list_inv_def)
  qed (simp add: list_inv_def)
qed (simp add: list_inv_def)

lemma parse_config_list_inv:
  assumes "parse_config_list arr (length arr) v = Some (ok, arr', sz)"
  shows "length arr' = length arr" "sz \<le> length arr"
  using assms list_tokens_inv[of arr "length arr" 0 "length arr" "rte_strsplit v 128 (CHR '','')"]
  by (auto simp: parse_config_list_def list_inv_def split: option.splits bool.splits if_splits prod.splits)

section \<open>The handlers keep the invariant\<close>

definition keeps :: "('a \<Rightarrow> bool) \<Rightarrow> ('b \<times> 'a) option \<Rightarrow> bool" where
  "keeps P r \<longleftrightarrow> (case r of None \<Rightarrow> True | Some (_, x) \<Rightarrow> P x)"

lemma keeps_if: "keeps P a \<Longrightarrow> keeps P b \<Longrightarrow> keeps P (if c then a else b)"
  by simp

lemma keeps_simps [simp]: "keeps P None" "keeps P (Some (ok, x)) = P x"
  by (simp_all add: keeps_def)

lemma keeps_map: "keeps P r \<Longrightarrow> (\<And>x. P x \<Longrightarrow> Q (f x)) \<Longrightarrow> keeps Q (map_option (\<lambda>(ok, x). (ok, f x)) r)"
  by (cases r) (auto simp: keeps_def)

lemma pred_if: "P a \<Longrightarrow> P b \<Longrightarrow> P (if c then a else b)"
  by simp

lemma parse_port_lcore_list_keeps: "port_ok pc \<Longrightarrow> keeps port_ok (parse_port_lcore_list v pc)"
  using parse_config_list_inv[of "pc_lcore_list pc" v]
  by (fastforce simp: parse_port_lcore_list_def port_ok_def keeps_def split: option.splits prod.splits)

lemma parse_port_slave_list_keeps: "port_ok pc \<Longrightarrow> keeps port_ok (parse_port_slave_list v pc)"
  by (auto simp: parse_port_slave_list_def port_ok_def keeps_def split: option.splits prod.splits bool.splits)

lemma parse_vlan_filter_list_keeps: "dpdk_ok d \<Longrightarrow> keeps dpdk_ok (parse_vlan_filter_list v d)"
  using parse_config_list_inv[of "vlan_filter_id d" v]
  by (fastforce simp: parse_vlan_filter_list_def dpdk_ok_def keeps_def split: option.splits prod.splits)

lemma pr_pairs_length: "pr_pairs toks = Some prs \<Longrightarrow> length prs = length toks"
  by (induction toks arbitrary: prs) (auto split: list.splits option.splits)

lemma vip_keeps: "port_ok pc \<Longrightarrow> port_ok (vip_cfg_handler_port pc)" "port_ok pc \<Longrightarrow> port_ok (vip6_cfg_handler_port pc)"
  "port_ok pc \<Longrightarrow> port_ok (ipfw_pr_cfg_handler_port pc)"
  by (auto simp: vip_cfg_handler_port_def vip6_cfg_handler_port_def ipfw_pr_cfg_handler_port_def Let_def port_ok_def
    counted_array_def pr_pairs_length split: option.splits)

lemma vip_vlan_keeps: "vlan_ok vc \<Longrightarrow> vlan_ok (vip_cfg_handler_vlan vc)" "vlan_ok vc \<Longrightarrow> vlan_ok (vip6_cfg_handler_vlan vc)"
  "vlan_ok vc \<Longrightarrow> vlan_ok (ipfw_pr_cfg_handler_vlan vc)"
  by (auto simp: vip_cfg_handler_vlan_def vip6_cfg_handler_vlan_def ipfw_pr_cfg_handler_vlan_def Let_def vlan_ok_def
    counted_array_def pr_pairs_length split: option.splits)

lemma port_update_ok:
  assumes "port_ok pc"
  shows "port_ok (pc\<lparr>pc_ifname := a\<rparr>)" "port_ok (pc\<lparr>pc_addr := a\<rparr>)" "port_ok (pc\<lparr>pc_netmask := a\<rparr>)"
    "port_ok (pc\<lparr>pc_broadcast := a\<rparr>)" "port_ok (pc\<lparr>pc_gateway := a\<rparr>)" "port_ok (pc\<lparr>pc_vip_addr_str := a\<rparr>)"
    "port_ok (pc\<lparr>pc_vip_ifname := a\<rparr>)" "port_ok (pc\<lparr>pc_mtu := m\<rparr>)" "port_ok (pc\<lparr>pc_pr_addr_str := a\<rparr>)"
    "port_ok (pc\<lparr>pc_addr6_str := a\<rparr>)" "port_ok (pc\<lparr>pc_prefix_len := l\<rparr>)" "port_ok (pc\<lparr>pc_gateway6_str := a\<rparr>)"
    "port_ok (pc\<lparr>pc_vip_addr6_str := a\<rparr>)" "port_ok (pc\<lparr>pc_vip_prefix_len := l\<rparr>)"
    "port_ok (pc\<lparr>pc_name := a, pc_port_id := p\<rparr>)"
  using assms by (simp_all add: port_ok_def)

lemma port_option_keeps: "port_ok pc \<Longrightarrow> keeps port_ok (port_option name val pc)"
  unfolding port_option_def
  by (intro keeps_if)
     (simp_all add: port_update_ok vip_keeps parse_port_lcore_list_keeps parse_port_slave_list_keeps split: option.split)

lemma vlan_option_ok: "vlan_ok vc \<Longrightarrow> vlan_ok (vlan_option name val vc)"
proof -
  assume ok: "vlan_ok vc"
  have upd: "vlan_ok (vc\<lparr>vl_addr := a\<rparr>)" "vlan_ok (vc\<lparr>vl_netmask := a\<rparr>)" "vlan_ok (vc\<lparr>vl_broadcast := a\<rparr>)"
    "vlan_ok (vc\<lparr>vl_gateway := a\<rparr>)" "vlan_ok (vc\<lparr>vl_vip_addr_str := a\<rparr>)" "vlan_ok (vc\<lparr>vl_pr_addr_str := a\<rparr>)"
    "vlan_ok (vc\<lparr>vl_addr6_str := a\<rparr>)" "vlan_ok (vc\<lparr>vl_prefix_len := l\<rparr>)" "vlan_ok (vc\<lparr>vl_gateway6_str := a\<rparr>)"
    "vlan_ok (vc\<lparr>vl_vip_addr6_str := a\<rparr>)" "vlan_ok (vc\<lparr>vl_vip_prefix_len := l\<rparr>)" for a l
    using ok by (simp_all add: vlan_ok_def)
  show ?thesis
    unfolding vlan_option_def by (intro pred_if[of vlan_ok]) (simp_all add: ok upd vip_vlan_keeps)
qed

lemma zero_port_ok: "port_ok zero_port" and zero_vlan_ok: "vlan_ok zero_vlan"
  by (simp_all add: port_ok_def vlan_ok_def zero_port_def zero_vlan_def counted_array_def)

lemma memcpy16_length: "memcpy16 dst src n = Some r \<Longrightarrow> length r = length dst"
  by (auto simp: memcpy16_def split: if_splits option.splits)

lemma init_ports_ok:
  assumes "init_ports procs lcore ids pcs = Some pcs'" "list_all port_ok pcs" "0 \<le> procs" "procs \<le> int DPDK_MAX_LCORE"
  shows "length pcs' = length pcs \<and> list_all port_ok pcs'"
  using assms
proof (induction procs lcore ids pcs rule: init_ports.induct)
  case (2 procs lcore portid ids pcs)
  then have i: "unat portid < length pcs" by (auto split: if_splits)
  then obtain cores where c: "memcpy16 (pc_lcore_list (pcs ! unat portid)) lcore (nat procs) = Some cores"
    using 2(2) by (auto simp: Let_def split: option.splits)
  let ?pc = "(pcs ! unat portid)\<lparr>pc_port_id := portid, pc_nb_lcores := procs, pc_lcore_list := cores,
    pc_mtu := of_nat FF_MTU_DEFAULT\<rparr>"
  have "port_ok (pcs ! unat portid)" using 2(3) i by (simp add: list_all_length)
  then have "port_ok ?pc" using 2(4,5) memcpy16_length[OF c] by (simp add: port_ok_def)
  then have "list_all port_ok (pcs[unat portid := ?pc])" using 2(3) by (simp add: list_all_update)
  moreover have "init_ports procs lcore ids (pcs[unat portid := ?pc]) = Some pcs'"
    using 2(2) i c by (simp add: Let_def)
  ultimately show ?case using 2(1)[OF _ refl c _ _ 2(4,5)] i by simp
qed simp

lemma new_port_cfgs_ok:
  assumes "dpdk_ok d" "new_port_cfgs d = Some pcs"
  shows "length pcs = RTE_MAX_ETHPORTS \<and> list_all port_ok pcs"
proof -
  have "0 \<le> nb_procs d" "nb_procs d \<le> int DPDK_MAX_LCORE" using assms(1) by (simp_all add: dpdk_ok_def cores_ok_def RTE_MAX_LCORE_def)
  moreover have "list_all port_ok (replicate RTE_MAX_ETHPORTS zero_port)"
    using zero_port_ok by (simp add: list_all_iff)
  ultimately show ?thesis
    using assms(2) init_ports_ok[of "nb_procs d" "proc_lcore d" _ "replicate RTE_MAX_ETHPORTS zero_port" pcs]
    by (auto simp: new_port_cfgs_def split: option.splits if_splits)
qed

lemma ports_ok_iff:
  "dpdk_ok (d\<lparr>port_cfgs := Some pcs\<rparr>) \<longleftrightarrow> dpdk_ok (d\<lparr>port_cfgs := None\<rparr>) \<and> length pcs = RTE_MAX_ETHPORTS \<and> list_all port_ok pcs"
  "dpdk_ok d \<Longrightarrow> dpdk_ok (d\<lparr>port_cfgs := None\<rparr>)"
  "dpdk_ok d \<Longrightarrow> port_cfgs d = Some pcs \<Longrightarrow> length pcs = RTE_MAX_ETHPORTS \<and> list_all port_ok pcs"
  by (auto simp: dpdk_ok_def table_ok_def)

lemma vlans_ok_iff:
  "dpdk_ok (d\<lparr>vlan_cfgs := Some vcs\<rparr>) \<longleftrightarrow> dpdk_ok (d\<lparr>vlan_cfgs := None\<rparr>) \<and> length vcs = DPDK_MAX_VLAN_FILTER \<and> list_all vlan_ok vcs"
  "dpdk_ok d \<Longrightarrow> dpdk_ok (d\<lparr>vlan_cfgs := None\<rparr>)"
  "dpdk_ok d \<Longrightarrow> vlan_cfgs d = Some vcs \<Longrightarrow> length vcs = DPDK_MAX_VLAN_FILTER \<and> list_all vlan_ok vcs"
  by (auto simp: dpdk_ok_def table_ok_def)

lemma table_at_ok: "table_at xs i = Some x \<Longrightarrow> list_all P xs \<Longrightarrow> P x"
  by (auto simp: table_at_def list_all_length split: if_splits)

lemma keeps_caseI:
  "(\<And>x. r = Some x \<Longrightarrow> keeps P (f x)) \<Longrightarrow> keeps P (case r of None \<Rightarrow> None | Some x \<Rightarrow> f x)"
  by (cases r) simp_all

lemma keeps_bind:
  "keeps Q r \<Longrightarrow> (\<And>ok x. Q x \<Longrightarrow> keeps P (f ok x)) \<Longrightarrow> keeps P (case r of None \<Rightarrow> None | Some (ok, x) \<Rightarrow> f ok x)"
  by (cases r) (auto simp: keeps_def)

lemma port_cfg_handler_keeps:
  assumes "cfg_ok cfg"
  shows "keeps cfg_ok (port_cfg_handler sec name val cfg)"
proof -
  have base: "dpdk_ok ((dpdk cfg)\<lparr>port_cfgs := None\<rparr>)" using assms ports_ok_iff(2) by (simp add: cfg_ok_def)
  have pcs: "length pcs = RTE_MAX_ETHPORTS \<and> list_all port_ok pcs"
    if "(case port_cfgs (dpdk cfg) of Some pcs \<Rightarrow> Some pcs | None \<Rightarrow> new_port_cfgs (dpdk cfg)) = Some pcs" for pcs
    using that assms new_port_cfgs_ok[of "dpdk cfg" pcs] ports_ok_iff(3)[of "dpdk cfg" pcs]
    by (auto simp: cfg_ok_def split: option.splits)
  have cur: "keeps (\<lambda>pc. list_all port_ok (pcs[i := pc])) (port_option name val (if pc_name pc = None then pc\<lparr>pc_name := Some sec, pc_port_id := p\<rparr> else pc))"
    if "list_all port_ok pcs" "port_ok pc" for pcs pc i p
    using port_option_keeps[of "if pc_name pc = None then pc\<lparr>pc_name := Some sec, pc_port_id := p\<rparr> else pc" name val] that
    by (auto simp: keeps_def port_update_ok list_all_update split: option.splits)
  show ?thesis
    unfolding port_cfg_handler_def Let_def
    apply (intro keeps_if keeps_caseI)
     apply (simp add: assms)
    subgoal for pcs
      apply (cases "sscanf_int ''port'' sec")
       apply (simp add: cfg_ok_def ports_ok_iff(1) base pcs)
      apply (simp only: option.case)
      apply (rule keeps_if)
       apply (simp add: cfg_ok_def ports_ok_iff(1) base pcs)
      apply (rule keeps_caseI)
      apply (rule keeps_bind[OF cur])
      using pcs[of pcs] by (auto simp: cfg_ok_def ports_ok_iff(1) base dest: table_at_ok)
    done
qed

lemma bind_vlan_ok:
  assumes "bind_vlan i portid cur d = Some (cur', d')" "dpdk_ok d" "vlan_ok cur"
  shows "dpdk_ok d' \<and> vlan_ok cur' \<and> vlan_cfgs d' = vlan_cfgs d"
proof -
  obtain pcs pc where p: "port_cfgs d = Some pcs" "table_at pcs portid = Some pc" "pc_nb_vlan pc < length (pc_vlan_cfgs pc)"
    using assms(1) by (auto simp: bind_vlan_def split: option.splits if_splits)
  let ?pc = "pc\<lparr>pc_vlan_cfgs := (pc_vlan_cfgs pc)[pc_nb_vlan pc := Some i], pc_nb_vlan := pc_nb_vlan pc + 1\<rparr>"
  have eq: "cur' = cur\<lparr>vl_port_id := of_int portid\<rparr>" "d' = d\<lparr>port_cfgs := Some (pcs[nat portid := ?pc])\<rparr>"
    using assms(1) p by (auto simp: bind_vlan_def)
  have pcs: "length pcs = RTE_MAX_ETHPORTS" "list_all port_ok pcs" using ports_ok_iff(3)[OF assms(2) p(1)] by auto
  have "port_ok ?pc" using p(3) table_at_ok[OF p(2) pcs(2)] by (simp add: port_ok_def)
  then show ?thesis
    using pcs assms(3) ports_ok_iff(2)[OF assms(2)] by (simp add: eq vlan_ok_def ports_ok_iff(1) list_all_update)
qed

lemma vlan_cfg_handler_keeps:
  assumes "cfg_ok cfg"
  shows "keeps cfg_ok (vlan_cfg_handler sec name val cfg)"
proof -
  define vcs where "vcs = (case vlan_cfgs (dpdk cfg) of Some vcs \<Rightarrow> vcs | None \<Rightarrow> replicate DPDK_MAX_VLAN_FILTER zero_vlan)"
  define d where "d = (dpdk cfg)\<lparr>vlan_cfgs := Some vcs\<rparr>"
  have vcs: "length vcs = DPDK_MAX_VLAN_FILTER" "list_all vlan_ok vcs"
    using assms vlans_ok_iff(3)[of "dpdk cfg"] zero_vlan_ok
    by (auto simp: vcs_def cfg_ok_def list_all_iff split: option.splits)
  then have d: "dpdk_ok d" using assms vlans_ok_iff(2) by (simp add: d_def vlans_ok_iff(1) cfg_ok_def)
  have set_vcs: "dpdk_ok (d'\<lparr>vlan_cfgs := Some (vcs[i := vc])\<rparr>)" if "vlan_ok vc" "dpdk_ok d'" for i vc d'
    using that vcs vlans_ok_iff(2) by (simp add: vlans_ok_iff(1) list_all_update)
  have named: "vlan_ok (if vl_name vc = None then vc\<lparr>vl_name := Some sec, vl_id := v, vl_idx := j\<rparr> else vc)" if "vlan_ok vc" for vc v j
    using that by (simp add: vlan_ok_def)
  have at: "vlan_ok (vcs ! i)" if "\<not> i \<ge> length vcs" for i using vcs that by (simp add: list_all_length)
  show ?thesis
    unfolding vlan_cfg_handler_def Let_def vcs_def[symmetric] d_def[symmetric]
    apply (rule keeps_if, simp add: assms)
    apply (cases "sscanf_int ''vlan'' sec", simp add: cfg_ok_def d)
    apply (simp only: option.case)
    subgoal for vlanid
      apply (cases "vlan_index d vlanid", simp add: cfg_ok_def d)
      apply (simp only: option.case)
      apply (rule if_split[THEN iffD2], intro conjI impI, simp)
      apply (intro keeps_if keeps_caseI)
        apply (simp add: cfg_ok_def set_vcs d named at)
      using bind_vlan_ok[OF _ d named[OF at]]
       apply (fastforce simp: cfg_ok_def set_vcs)
      by (simp add: cfg_ok_def set_vcs d named at vlan_option_ok)
    done
qed

lemma vdev_cfg_handler_keeps: "cfg_ok cfg \<Longrightarrow> keeps cfg_ok (vdev_cfg_handler sec name val cfg)"
  by (auto simp: vdev_cfg_handler_def Let_def keeps_def cfg_ok_def dpdk_ok_def table_ok_def list_all_iff split: option.splits)

lemma bond_cfg_handler_keeps: "cfg_ok cfg \<Longrightarrow> keeps cfg_ok (bond_cfg_handler sec name val cfg)"
  by (auto simp: bond_cfg_handler_def Let_def keeps_def cfg_ok_def dpdk_ok_def table_ok_def list_all_iff split: option.splits)

lemma rss_entries_length: "length (snd (rss_entries pton i toks es)) = length es"
  by (induction pton i toks es rule: rss_entries.induct) (auto split: list.splits)

lemma rss_tbl_cfg_handler_ok: "rss_ok rcc \<Longrightarrow> rss_ok (rss_tbl_cfg_handler pton rcc)"
  using strsplit_length[of "the (rc_rss_tbl_str rcc)" FF_RSS_TBL_MAX_ENTRIES "CHR '';''"]
  by (auto simp: rss_tbl_cfg_handler_def rss_ok_def Let_def split_beta rss_entries_length simp del: config_consts)

lemma rss_check_cfg_handler_keeps:
  assumes "cfg_ok cfg"
  shows "keeps cfg_ok (rss_check_cfg_handler pton name val cfg)"
proof -
  have z: "rss_ok (zero_rss_check\<lparr>rc_thash_adjust := 1\<rparr>)" by (simp add: rss_ok_def zero_rss_check_def)
  have upd: "rss_ok (r\<lparr>rc_enable := v\<rparr>)" "rss_ok (r\<lparr>rc_recheck := v\<rparr>)" "rss_ok (r\<lparr>rc_thash_adjust := v\<rparr>)"
    "rss_ok (r\<lparr>rc_rss_tbl_str := s\<rparr>)" if "rss_ok r" for r v s using that by (simp_all add: rss_ok_def)
  have cur: "rss_ok (case rss_check_cfgs (dpdk cfg) of Some c \<Rightarrow> c | None \<Rightarrow> zero_rss_check\<lparr>rc_thash_adjust := 1\<rparr>)"
    using assms z by (auto simp: cfg_ok_def dpdk_ok_def split: option.splits)
  show ?thesis
    unfolding rss_check_cfg_handler_def Let_def
    using assms cur by (auto simp: cfg_ok_def dpdk_ok_def upd rss_tbl_cfg_handler_ok)
qed

definition mask_inv :: "mask_state \<Rightarrow> bool" where
  "mask_inv = (\<lambda>(idx, count, lcore, pmask). count \<le> idx \<and> idx \<le> RTE_MAX_LCORE \<and> length lcore = RTE_MAX_LCORE)"

lemma mask_bits_inv: "mask_inv st \<Longrightarrow> mask_inv (fold (mask_bit pid v) js st)"
proof (induction js arbitrary: st)
  case (Cons j js)
  then have "mask_inv (mask_bit pid v j st)" by (cases st) (simp add: mask_inv_def mask_bit_def)
  then show ?case by (simp add: Cons.IH)
qed simp

lemma mask_digits_inv: "mask_inv st \<Longrightarrow> mask_inv (snd (snd (mask_digits pid cs st)))"
  by (induction pid cs st rule: mask_digits.induct) (simp_all add: mask_bits_inv)

lemma parse_lcore_mask_ok:
  assumes "dpdk_ok d"
  shows "dpdk_ok (snd (parse_lcore_mask coremask d))"
proof -
  have z: "mask_inv (0, 0, replicate RTE_MAX_LCORE 0, pm)" for pm by (simp add: mask_inv_def)
  obtain ok rest idx count lcore pmask where
    m: "mask_digits (proc_id d) (rev (mask_body coremask)) (0, 0, replicate RTE_MAX_LCORE 0, proc_mask d) = (ok, rest, idx, count, lcore, pmask)"
    by (metis prod_cases6)
  have "count \<le> RTE_MAX_LCORE" "length lcore = RTE_MAX_LCORE"
    using mask_digits_inv[OF z, of "proc_id d" "rev (mask_body coremask)" "proc_mask d"] m by (auto simp: mask_inv_def)
  then show ?thesis
    using assms by (auto simp: parse_lcore_mask_def Let_def m dpdk_ok_def cores_ok_def)
qed

lemma parse_config_list_pos:
  "parse_config_list arr sz v = Some (ok, arr', n) \<Longrightarrow> 0 < sz \<Longrightarrow> 0 < n"
  by (auto simp: parse_config_list_def split: option.splits prod.splits bool.splits if_splits)

lemma port_ids_result:
  assumes "port_ids v = Some (True, ids)"
  shows "length ids \<le> RTE_MAX_ETHPORTS \<and> ids \<noteq> []"
proof -
  obtain arr sz where p: "parse_config_list (replicate RTE_MAX_ETHPORTS 0) RTE_MAX_ETHPORTS v = Some (True, arr, sz)"
    and ids: "ids = take sz arr"
    using assms by (auto simp: port_ids_def split: option.splits prod.splits bool.splits if_splits)
  have "length arr = RTE_MAX_ETHPORTS" "sz \<le> RTE_MAX_ETHPORTS"
    using parse_config_list_inv[of "replicate RTE_MAX_ETHPORTS 0" v] p by auto
  moreover have "0 < sz" by (rule parse_config_list_pos[OF p]) (simp add: RTE_MAX_ETHPORTS_def)
  ultimately show ?thesis by (auto simp: ids RTE_MAX_ETHPORTS_def)
qed

lemma parse_port_list_keeps:
  assumes "dpdk_ok d"
  shows "keeps dpdk_ok (parse_port_list v d)"
proof (cases "port_ids v")
  case (Some r)
  obtain ok ids where r: "r = (ok, ids)" by (cases r)
  show ?thesis using assms port_ids_result[of v ids] Some
    by (cases ok) (simp_all add: r parse_port_list_def dpdk_ok_def ids_ok_def)
qed (simp add: parse_port_list_def)

lemma dpdk_update_ok:
  assumes "dpdk_ok d"
  shows "dpdk_ok (d\<lparr>dpdk_log_level := a\<rparr>)" "dpdk_ok (d\<lparr>nb_channel := i\<rparr>)" "dpdk_ok (d\<lparr>memory := i\<rparr>)"
    "dpdk_ok (d\<lparr>no_huge := i\<rparr>)" "dpdk_ok (d\<lparr>thread_mode := i\<rparr>)" "dpdk_ok (d\<lparr>primary_slim := i\<rparr>)"
    "dpdk_ok (d\<lparr>lcore_mask := s\<rparr>)" "dpdk_ok (d\<lparr>base_virtaddr := s\<rparr>)" "dpdk_ok (d\<lparr>eal_file_prefix := s\<rparr>)"
    "dpdk_ok (d\<lparr>dpdk_allow := s\<rparr>)" "dpdk_ok (d\<lparr>extra_eal_args := s\<rparr>)" "dpdk_ok (d\<lparr>nb_vdev := i\<rparr>)"
    "dpdk_ok (d\<lparr>nb_bond := i\<rparr>)" "dpdk_ok (d\<lparr>promiscuous := i\<rparr>)" "dpdk_ok (d\<lparr>numa_on := i\<rparr>)"
    "dpdk_ok (d\<lparr>dpdk_tso := i\<rparr>)" "dpdk_ok (d\<lparr>dpdk_lro := i\<rparr>)" "dpdk_ok (d\<lparr>tx_csum_offoad_skip := i\<rparr>)"
    "dpdk_ok (d\<lparr>tx_csum_ip_skip := i\<rparr>)" "dpdk_ok (d\<lparr>tx_csum_l4_skip := i\<rparr>)" "dpdk_ok (d\<lparr>vlan_strip := i\<rparr>)"
    "dpdk_ok (d\<lparr>idle_sleep := u\<rparr>)" "dpdk_ok (d\<lparr>primary_slim_idle_sleep := u\<rparr>)" "dpdk_ok (d\<lparr>pkt_tx_delay := u\<rparr>)"
    "dpdk_ok (d\<lparr>symmetric_rss := i\<rparr>)" "dpdk_ok (d\<lparr>mtu_enable := i\<rparr>)" "dpdk_ok (d\<lparr>max_mtu := m\<rparr>)"
    "dpdk_ok (d\<lparr>mbuf_mode := b\<rparr>)" "dpdk_ok (d\<lparr>mbuf_low_watermark := w\<rparr>)" "dpdk_ok (d\<lparr>proc_id := i\<rparr>)"
    "dpdk_ok (d\<lparr>proc_type := s\<rparr>)"
  using assms by (simp_all add: dpdk_ok_def)

lemma dpdk_option_keeps:
  assumes "cfg_ok cfg"
  shows "keeps cfg_ok (dpdk_option name val cfg)"
proof -
  have ok: "dpdk_ok (dpdk cfg)" using assms by (simp add: cfg_ok_def)
  have wrap: "keeps cfg_ok (map_option (\<lambda>(ok, d). (ok, cfg\<lparr>dpdk := d\<rparr>)) r)" if "keeps dpdk_ok r" for r :: "(bool \<times> ff_dpdk_cfg) option"
    using that by (rule keeps_map) (simp add: cfg_ok_def)
  have mask: "keeps dpdk_ok (Some (parse_lcore_mask val ((dpdk cfg)\<lparr>lcore_mask := Some val\<rparr>)))"
    using parse_lcore_mask_ok[of "(dpdk cfg)\<lparr>lcore_mask := Some val\<rparr>" val] ok
    by (simp add: keeps_def split_beta dpdk_update_ok)
  show ?thesis
    unfolding dpdk_option_def Let_def
    by (intro keeps_if wrap mask parse_port_list_keeps[OF ok] parse_vlan_filter_list_keeps[OF ok])
       (simp_all add: cfg_ok_def ok dpdk_update_ok split: option.split)
qed

lemma ini_parse_step_keeps:
  assumes "cfg_ok cfg"
  shows "keeps cfg_ok (ini_parse_step pton sec name val cfg)"
proof -
  have fb: "keeps cfg_ok (Some (freebsd_conf_handler s name val cfg))" for s
    using assms by (simp add: freebsd_conf_handler_def Let_def cfg_ok_def)
  moreover have "keeps cfg_ok (Some (boot_option name val cfg))"
    using assms fb by (simp add: boot_option_def Let_def cfg_ok_def)
  ultimately show ?thesis
    unfolding ini_parse_step_def using assms
    by (intro keeps_if)
       (simp_all add: dpdk_option_keeps port_cfg_handler_keeps vlan_cfg_handler_keeps vdev_cfg_handler_keeps
          bond_cfg_handler_keeps rss_check_cfg_handler_keeps, simp_all add: cfg_ok_def)
qed

interpretation config_client: ini_client "ini_parse_handler pton" "pred_option cfg_ok" for pton
proof
  fix u sec name val
  assume "pred_option cfg_ok u"
  then show "pred_option cfg_ok (snd (ini_parse_handler pton sec name val u))"
    using ini_parse_step_keeps[of "the u" pton sec name val]
    by (cases u) (auto simp: ini_parse_handler_def keeps_def split: option.splits)
qed

section \<open>A loaded configuration\<close>

lemma default_config_ok: "cfg_ok ff_default_config"
  by (simp add: cfg_ok_def dpdk_ok_def ff_default_config_def zero_config_def zero_dpdk_def cores_ok_def ids_ok_def table_ok_def)

lemma parse_opts_ok: "cfg_ok cfg \<Longrightarrow> cfg_ok (snd (parse_opts opts cfg))"
  by (induction opts cfg rule: parse_opts.induct) (simp_all add: cfg_ok_def dpdk_update_ok)

lemma parse_args_ok: "cfg_ok cfg \<Longrightarrow> cfg_ok (snd (ff_parse_args opts cfg))"
  using parse_opts_ok[of cfg opts] by (auto simp: ff_parse_args_def Let_def split_beta cfg_ok_def dpdk_update_ok)

text \<open>What a successful check leaves as it was.\<close>

lemma check_config_result:
  assumes "ff_check_config cfg = Some (ok, cfg')"
  shows "dpdk cfg' = dpdk cfg \<or> ok \<and> thread_mode (dpdk cfg) \<noteq> 0 \<and>
    dpdk cfg' = (dpdk cfg)\<lparr>proc_type := Some ''primary'', nb_threads := nb_procs (dpdk cfg), nb_procs := 1, proc_id := 0,
      proc_mask := (case lcore_mask (dpdk cfg) of Some m \<Rightarrow> Some m | None \<Rightarrow> proc_mask (dpdk cfg))\<rparr>"
  using assms by (auto simp: ff_check_config_def Let_def split: if_splits option.splits bool.splits)

lemma args_setup_result:
  assumes "dpdk_args_setup cfg = Some (argv, cfg')"
  shows "cfg' = cfg\<lparr>dpdk := (dpdk cfg)\<lparr>dpdk_allow := map_option (strtok_rest (CHR '','')) (dpdk_allow (dpdk cfg)),
    extra_eal_args := map_option (strtok_rest (CHR '' '')) (extra_eal_args (dpdk cfg))\<rparr>\<rparr>"
  using assms by (simp add: dpdk_args_setup_def Let_def split: option.splits)

definition parsed_config :: "pton_api \<Rightarrow> (string \<Rightarrow> string option) \<Rightarrow> (char \<times> string) list \<Rightarrow> int \<times> ff_config option" where
  "parsed_config pton fs opts =
    (let (ret, cfg) = ff_parse_args opts ff_default_config
     in if ret < 0 then (ret, Some cfg) else ini_parse fs (the (cfg_filename cfg)) (ini_parse_handler pton) (Some cfg))"

lemma parsed_config_ok: "parsed_config pton fs opts = (ret, Some cfg) \<Longrightarrow> cfg_ok cfg"
  using parse_args_ok[OF default_config_ok, of opts]
    config_client.parse_inv[of "Some (snd (ff_parse_args opts ff_default_config))" fs _ pton]
  by (auto simp: parsed_config_def Let_def split_beta split: if_splits)
     (metis option.pred_inject(2) snd_conv)

lemma load_config_cases:
  assumes "ff_load_config pton fs opts st = Some (ret, cfg, argv)"
  obtains (parse) r where "parsed_config pton fs opts = (r, Some cfg)" "r \<noteq> 0" "ret < 0"
    | (check) c where "parsed_config pton fs opts = (0, Some c)" "ff_check_config c = Some (False, cfg)" "ret = -1"
    | (loaded) c c' where "parsed_config pton fs opts = (0, Some c)" "ff_check_config c = Some (True, c')"
        "dpdk_args_setup c' = Some (argv, cfg)" "ret = (if argv = [] then -1 else 0)"
  using assms
  by (auto simp: ff_load_config_def parsed_config_def Let_def split: prod.splits option.splits if_splits bool.splits)


end
