(* ===== verification/FF_Config_Load.thy ===== *)
theory FF_Config_Load
  imports FF_Config_Inv
begin

text \<open>
  Loading as a whole: what a configuration that passed the check guarantees, the arguments it makes for DPDK,
  a document that is loaded as written, and the documents on which loading leaves an array.
\<close>

section \<open>The check\<close>

lemma search_found:
  assumes "0 \<le> l" "0 \<le> uint16_binary_search arr l r x"
  shows "l \<le> uint16_binary_search arr l r x \<and> uint16_binary_search arr l r x \<le> r \<and> arr ! nat (uint16_binary_search arr l r x) = x"
  using assms
proof (induction arr l r x rule: uint16_binary_search.induct)
  case (1 arr l r x)
  show ?case
  proof (cases "l \<le> r")
    case True
    let ?m = "l + (r - l) div 2"
    have m: "l \<le> ?m" "?m \<le> r" using True by linarith+
    consider "arr ! nat ?m = x" | "arr ! nat ?m \<noteq> x" "arr ! nat ?m > x" | "arr ! nat ?m \<noteq> x" "\<not> arr ! nat ?m > x" by blast
    then show ?thesis
    proof cases
      case 1
      then show ?thesis using True m by (subst (1 2 3) uint16_binary_search.simps) (simp add: Let_def)
    next
      case 2
      then have e: "uint16_binary_search arr l r x = uint16_binary_search arr l (?m - 1) x"
        using True by (subst uint16_binary_search.simps) (simp add: Let_def)
      show ?thesis unfolding e using "1.IH"(1)[OF True refl] 2 1(3,4) m by (simp add: e)
    next
      case 3
      then have e: "uint16_binary_search arr l r x = uint16_binary_search arr (?m + 1) r x"
        using True by (subst uint16_binary_search.simps) (simp add: Let_def)
      have "?m + 1 \<le> uint16_binary_search arr l r x \<and> uint16_binary_search arr l r x \<le> r \<and> arr ! nat (uint16_binary_search arr l r x) = x"
        unfolding e using "1.IH"(2)[OF True refl] 3 1(3,4) m by (simp add: e)
      then show ?thesis using m by linarith
    qed
  next
    case False
    then show ?thesis using 1(4) by (subst (asm) uint16_binary_search.simps) simp
  qed
qed

definition enabled_cores :: "ff_dpdk_cfg \<Rightarrow> u16 list" where
  "enabled_cores d = take (nat (if thread_mode d \<noteq> 0 then nb_threads d else nb_procs d)) (case proc_lcore d of None \<Rightarrow> [] | Some l \<Rightarrow> l)"

lemma lcore_enabled_member:
  assumes "lcore_enabled d c" "dpdk_ok d"
  shows "c \<in> set (take (nat (nb_procs d)) (case proc_lcore d of None \<Rightarrow> [] | Some l \<Rightarrow> l))"
proof -
  let ?l = "case proc_lcore d of None \<Rightarrow> [] | Some l \<Rightarrow> l"
  let ?i = "uint16_binary_search ?l 0 (nb_procs d - 1) c"
  have i: "0 \<le> ?i" "?i < nb_procs d" "?l ! nat ?i = c"
    using search_found[of 0 ?l "nb_procs d - 1" c] assms(1) by (auto simp: lcore_enabled_def)
  moreover have "nb_procs d \<le> int (length ?l)" using assms(2) by (auto simp: dpdk_ok_def cores_ok_def split: option.splits)
  ultimately show ?thesis by (auto simp: in_set_conv_nth intro!: exI[of _ "nat ?i"])
qed

lemma all_ports_True: "all_ports test ids = Some True \<longleftrightarrow> list_all (\<lambda>i. test i = Some True) ids"
  by (induction test ids rule: all_ports.induct) (auto split: option.splits bool.splits)

text \<open>A port that the check let pass.\<close>

definition port_configured :: "ff_dpdk_cfg \<Rightarrow> u16 \<Rightarrow> bool" where
  "port_configured d portid \<longleftrightarrow>
     (\<exists>pcs. port_cfgs d = Some pcs \<and> unat portid < length pcs \<and>
        (let pc = pcs ! unat portid
         in pc_addr pc \<noteq> None \<and> pc_netmask pc \<noteq> None \<and> pc_broadcast pc \<noteq> None \<and> pc_gateway pc \<noteq> None \<and>
            set (take (nat (pc_nb_lcores pc)) (pc_lcore_list pc)) \<subseteq> set (enabled_cores d) \<and>
            unat (pc_mtu pc) \<le> (if mtu_enable d \<noteq> 0 then unat (max_mtu d) else FF_MTU_DEFAULT)))"

lemma check_port_configured:
  assumes "check_port cfg portid = Some True" "port_mtu_test (dpdk cfg) test portid = Some True" "dpdk_ok (dpdk cfg)"
    "\<And>m. test m \<Longrightarrow> m \<le> (if mtu_enable (dpdk cfg) \<noteq> 0 then unat (max_mtu (dpdk cfg)) else FF_MTU_DEFAULT)"
    "set (take (nat (nb_procs (dpdk cfg))) (case proc_lcore (dpdk cfg) of None \<Rightarrow> [] | Some l \<Rightarrow> l)) \<subseteq> set (enabled_cores d')"
    "port_cfgs d' = port_cfgs (dpdk cfg)" "mtu_enable d' = mtu_enable (dpdk cfg)" "max_mtu d' = max_mtu (dpdk cfg)"
  shows "port_configured d' portid"
proof -
  obtain pcs where pcs: "port_cfgs (dpdk cfg) = Some pcs" "unat portid < length pcs"
    using assms(1) by (auto simp: check_port_def Let_def split: option.splits if_splits)
  let ?pc = "pcs ! unat portid"
  have f: "pc_addr ?pc \<noteq> None" "pc_netmask ?pc \<noteq> None" "pc_broadcast ?pc \<noteq> None" "pc_gateway ?pc \<noteq> None"
    using assms(1) pcs by (auto simp: check_port_def Let_def split: if_splits)
  obtain cores where c: "port_cores ?pc = Some cores" "list_all (lcore_enabled (dpdk cfg)) cores"
    using assms(1) pcs f by (auto simp: check_port_def Let_def split: if_splits option.splits)
  have "cores = take (nat (pc_nb_lcores ?pc)) (pc_lcore_list ?pc)" using c(1) by (auto simp: port_cores_def split: if_splits)
  then have "set (take (nat (pc_nb_lcores ?pc)) (pc_lcore_list ?pc)) \<subseteq> set (enabled_cores d')"
    using c(2) lcore_enabled_member[OF _ assms(3)] assms(5) by (auto simp: list_all_iff)
  moreover have "test (unat (pc_mtu ?pc))" using assms(2) pcs by (simp add: port_mtu_test_def)
  ultimately show ?thesis using pcs f assms(4,6,7,8) by (auto simp: port_configured_def Let_def)
qed

lemma check_config_passed:
  assumes "ff_check_config c = Some (True, c')" "dpdk_ok (dpdk c)"
  defines "ids \<equiv> (case portid_list (dpdk c) of None \<Rightarrow> [] | Some ids \<Rightarrow> ids)"
  shows "list_all (\<lambda>i. check_port (c\<lparr>pcap := check_pcap (pcap c)\<rparr>) i = Some True) ids"
    "check_mtu (dpdk c) ids = Some True" "check_kni (kni c)" "pcap c' = check_pcap (pcap c)" "kni c' = kni c"
    "primary_slim (dpdk c) \<noteq> 0 \<Longrightarrow> thread_mode (dpdk c) = 0 \<and> 2 \<le> nb_procs (dpdk c)"
    "thread_mode (dpdk c) \<noteq> 0 \<Longrightarrow> proc_type (dpdk c) \<noteq> Some ''secondary''"
    "thread_mode (dpdk c) \<noteq> 0 \<Longrightarrow> nb_threads (dpdk c') = nb_procs (dpdk c)"
proof -
  have ids: "check_ids (dpdk c) = Some ids"
    using assms(2) by (auto simp: check_ids_def ids_def dpdk_ok_def ids_ok_def split: option.splits)
  note chk = assms(1)[unfolded ff_check_config_def Let_def]
  show "list_all (\<lambda>i. check_port (c\<lparr>pcap := check_pcap (pcap c)\<rparr>) i = Some True) ids"
    unfolding all_ports_True[symmetric] using chk ids by (auto split: if_splits option.splits bool.splits)
  show "check_mtu (dpdk c) ids = Some True" using chk ids by (auto split: if_splits option.splits bool.splits)
  show "check_kni (kni c)" "pcap c' = check_pcap (pcap c)" "kni c' = kni c"
    "primary_slim (dpdk c) \<noteq> 0 \<Longrightarrow> thread_mode (dpdk c) = 0 \<and> 2 \<le> nb_procs (dpdk c)"
    "thread_mode (dpdk c) \<noteq> 0 \<Longrightarrow> proc_type (dpdk c) \<noteq> Some ''secondary''"
    "thread_mode (dpdk c) \<noteq> 0 \<Longrightarrow> nb_threads (dpdk c') = nb_procs (dpdk c)"
    using chk ids by (auto split: if_splits option.splits bool.splits)
qed

lemma check_mtu_passed:
  assumes "check_mtu d ids = Some True"
  obtains test where "list_all (\<lambda>i. port_mtu_test d test i = Some True) ids"
    "\<And>m. test m \<Longrightarrow> m \<le> (if mtu_enable d \<noteq> 0 then unat (max_mtu d) else FF_MTU_DEFAULT)"
    "mtu_enable d \<noteq> 0 \<Longrightarrow> mbuf_mode d = FF_MBUF_MODE_LARGE \<Longrightarrow> mbuf_room (max_mtu d) \<le> 65535"
proof (cases "mtu_enable d = 0")
  case True
  then show ?thesis using assms that[of "\<lambda>mtu. mtu \<le> FF_MTU_DEFAULT"] by (simp add: check_mtu_def all_ports_True)
next
  case False
  then show ?thesis
    using assms that[of "\<lambda>mtu. FF_MTU_MIN \<le> mtu \<and> mtu \<le> unat (max_mtu d)"]
    by (auto simp: check_mtu_def all_ports_True split: if_splits)
qed

text \<open>C10. After \<open>ff_load_config\<close> returned 0 every port of the port list is configured: its addresses are set, its
  cores are among the enabled ones, its MTU is within the limit in force. A buffer for the largest packet fits the
  16-bit data room in the mode with one buffer per packet, KNI has a valid method when it is enabled, the capture
  lengths have their minimum, and a slim primary process excludes threads.\<close>

theorem load_config_checked:
  assumes "ff_load_config pton fs opts st = Some (0, cfg, argv)"
  shows "list_all (port_configured (dpdk cfg)) (case portid_list (dpdk cfg) of None \<Rightarrow> [] | Some ids \<Rightarrow> ids) \<and>
    (mtu_enable (dpdk cfg) \<noteq> 0 \<and> mbuf_mode (dpdk cfg) = FF_MBUF_MODE_LARGE \<longrightarrow> mbuf_room (max_mtu (dpdk cfg)) \<le> 65535) \<and>
    check_kni (kni cfg) \<and> PCAP_SAVE_MINLEN \<le> unat (save_len (pcap cfg)) \<and> PCAP_SNAP_MINLEN \<le> unat (snap_len (pcap cfg)) \<and>
    (primary_slim (dpdk cfg) \<noteq> 0 \<longrightarrow> thread_mode (dpdk cfg) = 0 \<and> 2 \<le> nb_procs (dpdk cfg))"
  using assms
proof (cases rule: load_config_cases)
  case (loaded c c')
  have d: "dpdk_ok (dpdk c)" using parsed_config_ok[OF loaded(1)] by (simp add: cfg_ok_def)
  note chk = check_config_passed[OF loaded(2) d]
  note res = check_config_result[OF loaded(2)] args_setup_result[OF loaded(3)]
  obtain test where test: "list_all (\<lambda>i. port_mtu_test (dpdk c) test i = Some True) (case portid_list (dpdk c) of None \<Rightarrow> [] | Some ids \<Rightarrow> ids)"
    "\<And>m. test m \<Longrightarrow> m \<le> (if mtu_enable (dpdk c) \<noteq> 0 then unat (max_mtu (dpdk c)) else FF_MTU_DEFAULT)"
    "mtu_enable (dpdk c) \<noteq> 0 \<Longrightarrow> mbuf_mode (dpdk c) = FF_MBUF_MODE_LARGE \<Longrightarrow> mbuf_room (max_mtu (dpdk c)) \<le> 65535"
    using check_mtu_passed[OF chk(2)] by blast
  have same: "port_cfgs (dpdk cfg) = port_cfgs (dpdk c)" "mtu_enable (dpdk cfg) = mtu_enable (dpdk c)"
    "max_mtu (dpdk cfg) = max_mtu (dpdk c)" "mbuf_mode (dpdk cfg) = mbuf_mode (dpdk c)"
    "portid_list (dpdk cfg) = portid_list (dpdk c)" "thread_mode (dpdk cfg) = thread_mode (dpdk c)"
    "primary_slim (dpdk cfg) = primary_slim (dpdk c)" "kni cfg = kni c" "pcap cfg = check_pcap (pcap c)"
    using res chk(4,5) by auto
  have cores: "set (take (nat (nb_procs (dpdk c))) (case proc_lcore (dpdk c) of None \<Rightarrow> [] | Some l \<Rightarrow> l)) \<subseteq> set (enabled_cores (dpdk cfg))"
    using res chk(8) by (cases "thread_mode (dpdk c) = 0") (auto simp: enabled_cores_def)
  have "port_configured (dpdk cfg) i" if "i \<in> set (case portid_list (dpdk c) of None \<Rightarrow> [] | Some ids \<Rightarrow> ids)" for i
    using that chk(1) test(1) d test(2) cores same
    by (intro check_port_configured[of "c\<lparr>pcap := check_pcap (pcap c)\<rparr>" i test]) (auto simp: list_all_iff)
  moreover have "PCAP_SAVE_MINLEN \<le> unat (save_len (pcap cfg))" "PCAP_SNAP_MINLEN \<le> unat (snap_len (pcap cfg))"
    by (auto simp: same check_pcap_def Let_def)
  moreover have "nb_procs (dpdk cfg) = nb_procs (dpdk c)" if "thread_mode (dpdk c) = 0" using res that by auto
  ultimately show ?thesis using test(3) chk(3,6) same by (simp add: list_all_iff)
qed simp_all

section \<open>A document loaded as written\<close>

type_synonym port_spec = "nat \<times> string \<times> string \<times> string \<times> string"

definition port_section :: "port_spec \<Rightarrow> string \<times> (string \<times> string) list" where
  "port_section = (\<lambda>(n, addr, netmask, broadcast, gateway).
     (''port'' @ dec n, [(''addr'', addr), (''netmask'', netmask), (''broadcast'', broadcast), (''gateway'', gateway)]))"

definition basic_doc :: "string \<Rightarrow> port_spec list \<Rightarrow> ini_doc" where
  "basic_doc cmask ports =
    (''dpdk'', [(''lcore_mask'', cmask), (''port_list'', list_text (map (\<lambda>p. Single (fst p)) ports))]) # map port_section ports"

definition ports_wf :: "port_spec list \<Rightarrow> bool" where
  "ports_wf ports \<longleftrightarrow> ports \<noteq> [] \<and> distinct (map fst ports) \<and> list_all (\<lambda>p. fst p < RTE_MAX_ETHPORTS) ports"

definition port_ids_of :: "port_spec list \<Rightarrow> u16 list" where
  "port_ids_of ports = sort (map (\<lambda>p. of_nat (fst p)) ports)"

lemma ports_wf_length:
  assumes "ports_wf ports"
  shows "length ports \<le> RTE_MAX_ETHPORTS"
proof -
  have "length ports = card (set (map fst ports))" using assms distinct_card[of "map fst ports"] by (simp add: ports_wf_def)
  also have "\<dots> \<le> card {..<RTE_MAX_ETHPORTS}" using assms by (intro card_mono) (auto simp: ports_wf_def list_all_iff)
  finally show ?thesis by simp
qed

lemma single_values: "list_values (map (\<lambda>p. Single (fst p)) ports) = map fst ports"
  by (induction ports) (simp_all add: list_values_def)

lemma parse_port_list_ports:
  assumes "ports_wf ports"
  shows "parse_port_list (list_text (map (\<lambda>p. Single (fst p)) ports)) d =
    Some (True, d\<lparr>portid_list := Some (port_ids_of ports), nb_ports := int (length ports), max_portid := last (port_ids_of ports)\<rparr>)"
proof -
  let ?items = "map (\<lambda>p. Single (fst p)) ports"
  have ok: "list_all item_ok ?items" using assms by (auto simp: ports_wf_def list_all_iff item_ok_def RTE_MAX_ETHPORTS_def)
  have len: "length ports \<le> 32" using ports_wf_length[OF assms] by (simp add: RTE_MAX_ETHPORTS_def)
  have ne: "list_values ?items \<noteq> []" using assms by (simp add: single_values ports_wf_def)
  have p: "parse_config_list (replicate RTE_MAX_ETHPORTS 0) RTE_MAX_ETHPORTS (list_text ?items) =
      Some (True, port_ids_of ports @ replicate (RTE_MAX_ETHPORTS - length ports) 0, length ports)"
    using parse_list_items[OF ok _ ne, of "replicate RTE_MAX_ETHPORTS 0"] len
    by (simp add: single_values Let_def port_ids_of_def comp_def RTE_MAX_ETHPORTS_def)
  have split: "rte_strsplit (list_text ?items) 128 (CHR '','') = map item_text ?items"
    unfolding list_text_def by (rule strsplit_joined) (use len in \<open>auto simp: list_all_iff item_text_props simp del: item_text.simps\<close>)
  have "\<not> no_elements (list_text ?items)"
    using list_tokens_result[OF ok, of 0 "replicate RTE_MAX_ETHPORTS 0"] ne len
    by (simp add: no_elements_def split single_values RTE_MAX_ETHPORTS_def)
  then show ?thesis by (simp add: parse_port_list_def port_ids_def p port_ids_of_def)
qed

text \<open>The configuration after the section of the device.\<close>

definition cores_of :: "string \<Rightarrow> nat list" where
  "cores_of cmask = lcores (hex_value (mask_body cmask))"

definition mask_wf :: "string \<Rightarrow> bool" where
  "mask_wf cmask \<longleftrightarrow> mask_body cmask \<noteq> [] \<and> list_all isxdigit (mask_body cmask) \<and>
     hex_value (mask_body cmask) < 2 ^ RTE_MAX_LCORE \<and> cores_of cmask \<noteq> []"

definition core_array :: "string \<Rightarrow> u16 list" where
  "core_array cmask = map of_nat (cores_of cmask) @ replicate (RTE_MAX_LCORE - length (cores_of cmask)) 0"

definition start_config :: ff_config where
  "start_config = ff_default_config\<lparr>dpdk := (dpdk ff_default_config)\<lparr>proc_type := Some ''auto'', proc_id := 0\<rparr>\<rparr>"

definition device_config :: "string \<Rightarrow> port_spec list \<Rightarrow> ff_dpdk_cfg" where
  "device_config cmask ports = (dpdk start_config)\<lparr>lcore_mask := Some cmask, proc_lcore := Some (core_array cmask),
     proc_mask := Some (core_mask (hd (cores_of cmask))), nb_procs := int (length (cores_of cmask)),
     portid_list := Some (port_ids_of ports), nb_ports := int (length ports), max_portid := last (port_ids_of ports)\<rparr>"

lemma start_config: "ff_parse_args [] ff_default_config = (0, start_config)"
proof -
  have "unat (- 1 :: u16) = 65535" by (simp add: unsigned_minus_1_eq_mask mask_eq_exp_minus_1)
  then show ?thesis
    by (simp add: ff_parse_args_def start_config_def ff_default_config_def zero_config_def zero_dpdk_def Let_def RTE_MAX_LCORE_def)
qed

lemma device_section:
  assumes "mask_wf cmask" "ports_wf ports"
  shows "run_calls (ini_parse_handler pton)
      [(''dpdk'', ''lcore_mask'', cmask), (''dpdk'', ''port_list'', list_text (map (\<lambda>p. Single (fst p)) ports))] (Some start_config) =
    Some (Some (start_config\<lparr>dpdk := device_config cmask ports\<rparr>))"
proof -
  have pid: "proc_id (dpdk start_config) = 0" by (simp add: start_config_def)
  have m: "parse_lcore_mask cmask ((dpdk start_config)\<lparr>lcore_mask := Some cmask\<rparr>) =
    (True, (dpdk start_config)\<lparr>lcore_mask := Some cmask, proc_lcore := Some (core_array cmask),
     proc_mask := Some (core_mask (hd (cores_of cmask))), nb_procs := int (length (cores_of cmask))\<rparr>)"
    using parse_lcore_mask_result(1)[of cmask "(dpdk start_config)\<lparr>lcore_mask := Some cmask\<rparr>"] assms(1) pid
    by (auto simp: mask_wf_def cores_of_def core_array_def Let_def hd_conv_nth)
  show ?thesis
    by (simp add: ini_parse_handler_def ini_parse_step_def dpdk_option_def Let_def m parse_port_list_ports[OF assms(2)] device_config_def)
qed

lemma fold_update_length: "length (fold (\<lambda>p xs. xs[f p := g p (xs ! f p)]) ps xs) = length xs"
  by (induction ps arbitrary: xs) simp_all

lemma fold_update_nth:
  assumes "distinct (map f ps)" "list_all (\<lambda>p. f p < length xs) ps"
  shows "fold (\<lambda>p xs. xs[f p := g p (xs ! f p)]) ps xs ! i =
    (case List.find (\<lambda>p. f p = i) ps of None \<Rightarrow> xs ! i | Some p \<Rightarrow> g p (xs ! i))"
  using assms
proof (induction ps arbitrary: xs)
  case (Cons p ps)
  have none: "List.find (\<lambda>q. f q = f p) ps = None" using Cons.prems(1) by (auto simp: find_None_iff image_iff)
  show ?case
    using Cons.IH[of "xs[f p := g p (xs ! f p)]"] Cons.prems none by (auto split: option.splits)
qed simp

lemma find_distinct: "distinct (map f ps) \<Longrightarrow> p \<in> set ps \<Longrightarrow> List.find (\<lambda>q. f q = f p) ps = Some p"
  by (induction ps) (auto simp: image_iff)

definition base_port :: "string \<Rightarrow> u16 \<Rightarrow> ff_port_cfg" where
  "base_port cmask portid = zero_port\<lparr>pc_port_id := portid, pc_nb_lcores := int (length (cores_of cmask)),
     pc_lcore_list := core_array cmask, pc_mtu := of_nat FF_MTU_DEFAULT\<rparr>"

lemma cores_of_length: "length (cores_of cmask) \<le> RTE_MAX_LCORE"
  unfolding cores_of_def by (rule lcores_length)

lemma core_array_length: "length (core_array cmask) = RTE_MAX_LCORE"
  using cores_of_length[of cmask] by (simp add: core_array_def)

lemma core_array_take: "take (length (cores_of cmask)) (core_array cmask) = map of_nat (cores_of cmask)"
  by (simp add: core_array_def)

lemma core_array_copy:
  "memcpy16 (replicate DPDK_MAX_LCORE 0) (Some (core_array cmask)) (length (cores_of cmask)) = Some (core_array cmask)"
proof (cases "cores_of cmask = []")
  case True
  then show ?thesis by (simp add: memcpy16_def core_array_def RTE_MAX_LCORE_def)
next
  case False
  then show ?thesis using cores_of_length[of cmask]
    by (simp add: memcpy16_def core_array_length core_array_take) (simp add: core_array_def RTE_MAX_LCORE_def)
qed

lemma init_ports_result:
  assumes "distinct ids" "list_all (\<lambda>i. unat i < length pcs \<and> pcs ! unat i = zero_port) ids"
  shows "init_ports (int (length (cores_of cmask))) (Some (core_array cmask)) ids pcs =
    Some (fold (\<lambda>i pcs. pcs[unat i := base_port cmask i]) ids pcs)"
  using assms
proof (induction ids arbitrary: pcs)
  case (Cons i ids)
  have lc: "pc_lcore_list zero_port = replicate DPDK_MAX_LCORE 0" by (simp add: zero_port_def)
  have "list_all (\<lambda>j. unat j < length (pcs[unat i := base_port cmask i]) \<and> pcs[unat i := base_port cmask i] ! unat j = zero_port) ids"
    using Cons.prems by (auto simp: list_all_iff nth_list_update dest!: word_unat_eq_iff[THEN iffD2])
  then show ?case
    using Cons core_array_copy[of cmask] by (simp add: Let_def lc) (simp add: base_port_def)
qed simp

text \<open>The sections of the ports.\<close>

definition port_entry :: "port_spec \<Rightarrow> ff_port_cfg \<Rightarrow> ff_port_cfg" where
  "port_entry = (\<lambda>(n, addr, netmask, broadcast, gateway) pc.
     pc\<lparr>pc_name := Some (''port'' @ dec n), pc_port_id := of_nat n, pc_addr := Some addr, pc_netmask := Some netmask,
        pc_broadcast := Some broadcast, pc_gateway := Some gateway\<rparr>)"

definition with_ports :: "ff_config \<Rightarrow> ff_port_cfg list \<Rightarrow> ff_config" where
  "with_ports cfg pcs = cfg\<lparr>dpdk := (dpdk cfg)\<lparr>port_cfgs := Some pcs\<rparr>\<rparr>"

lemma with_ports_simps [simp]:
  "port_cfgs (dpdk (with_ports cfg pcs)) = Some pcs" "with_ports (with_ports cfg pcs) pcs' = with_ports cfg pcs'"
  "nb_ports (dpdk (with_ports cfg pcs)) = nb_ports (dpdk cfg)" "max_portid (dpdk (with_ports cfg pcs)) = max_portid (dpdk cfg)"
  by (simp_all add: with_ports_def)

lemma sscanf_port: "n < 2 ^ 31 \<Longrightarrow> sscanf_int ''port'' (''port'' @ dec n) = Some (int n)"
  by (simp add: sscanf_int_def scan_dec atoi_dec)

lemma port_call:
  assumes "n < length pcs" "n < 2 ^ 31" "int n \<le> uint (max_portid (dpdk cfg))" "nb_ports (dpdk cfg) \<noteq> 0"
    "port_option name val (if pc_name (pcs ! n) = None then (pcs ! n)\<lparr>pc_name := Some (''port'' @ dec n), pc_port_id := of_nat n\<rparr>
       else pcs ! n) = Some (True, pc)"
  shows "ini_parse_handler pton (''port'' @ dec n) name val (Some (with_ports cfg pcs)) = (True, Some (with_ports cfg (pcs[n := pc])))"
proof -
  have "port_cfg_handler (''port'' @ dec n) name val (with_ports cfg pcs) = Some (True, with_ports cfg (pcs[n := pc]))"
    using assms sscanf_port[of n]
    by (cases "pc_name (pcs ! n)") (simp_all add: port_cfg_handler_def Let_def table_at_def, simp_all add: with_ports_def)
  then show ?thesis by (simp add: ini_parse_handler_def ini_parse_step_def)
qed

definition section_calls :: "port_spec \<Rightarrow> (string \<times> string \<times> string) list" where
  "section_calls p = (case port_section p of (sec, pairs) \<Rightarrow> map (\<lambda>(name, val). (sec, name, val)) pairs)"

definition enter_port :: "port_spec \<Rightarrow> ff_port_cfg list \<Rightarrow> ff_port_cfg list" where
  "enter_port p pcs = pcs[fst p := port_entry p (pcs ! fst p)]"

lemma section_run:
  assumes "fst p < length pcs" "fst p < 2 ^ 31" "int (fst p) \<le> uint (max_portid (dpdk cfg))" "nb_ports (dpdk cfg) \<noteq> 0"
    "pc_name (pcs ! fst p) = None"
  shows "run_calls (ini_parse_handler pton) (section_calls p) (Some (with_ports cfg pcs)) =
    Some (Some (with_ports cfg (enter_port p pcs)))"
proof -
  obtain n a m b g where p: "p = (n, a, m, b, g)" by (cases p)
  note call = port_call[of n _ cfg _ _ _ pton]
  let ?pc = "(pcs ! n)\<lparr>pc_name := Some (''port'' @ dec n), pc_port_id := of_nat n\<rparr>"
  note calls =
    call[of pcs "''addr''" a "?pc\<lparr>pc_addr := Some a\<rparr>"]
    call[of "pcs[n := ?pc\<lparr>pc_addr := Some a\<rparr>]" "''netmask''" m "?pc\<lparr>pc_addr := Some a, pc_netmask := Some m\<rparr>"]
    call[of "pcs[n := ?pc\<lparr>pc_addr := Some a, pc_netmask := Some m\<rparr>]" "''broadcast''" b
      "?pc\<lparr>pc_addr := Some a, pc_netmask := Some m, pc_broadcast := Some b\<rparr>"]
    call[of "pcs[n := ?pc\<lparr>pc_addr := Some a, pc_netmask := Some m, pc_broadcast := Some b\<rparr>]" "''gateway''" g
      "?pc\<lparr>pc_addr := Some a, pc_netmask := Some m, pc_broadcast := Some b, pc_gateway := Some g\<rparr>"]
  show ?thesis
    using calls assms
    by (simp add: p section_calls_def port_section_def port_option_def enter_port_def port_entry_def)
qed

lemma sections_run:
  assumes "distinct (map fst ps)" "nb_ports (dpdk cfg) \<noteq> 0"
    "list_all (\<lambda>p. fst p < length pcs \<and> fst p < 2 ^ 31 \<and> int (fst p) \<le> uint (max_portid (dpdk cfg)) \<and> pc_name (pcs ! fst p) = None) ps"
  shows "run_calls (ini_parse_handler pton) (concat (map section_calls ps)) (Some (with_ports cfg pcs)) =
    Some (Some (with_ports cfg (fold enter_port ps pcs)))"
  using assms
proof (induction ps arbitrary: pcs)
  case (Cons p ps)
  have "run_calls (ini_parse_handler pton) (section_calls p) (Some (with_ports cfg pcs)) = Some (Some (with_ports cfg (enter_port p pcs)))"
    using Cons.prems by (intro section_run) auto
  moreover have "list_all (\<lambda>q. fst q < length (enter_port p pcs) \<and> fst q < 2 ^ 31 \<and> int (fst q) \<le> uint (max_portid (dpdk cfg)) \<and>
      pc_name (enter_port p pcs ! fst q) = None) ps"
    using Cons.prems by (auto simp: list_all_iff enter_port_def nth_list_update image_iff)
  ultimately show ?case using Cons.IH[of "enter_port p pcs"] Cons.prems by (simp add: run_calls_append)
qed simp

text \<open>The first section of a port makes the table.\<close>

lemma first_call:
  assumes "port_cfgs (dpdk cfg) = None" "new_port_cfgs (dpdk cfg) = Some pcs" "take 4 sec = ''port''" "nb_ports (dpdk cfg) \<noteq> 0"
  shows "ini_parse_handler pton sec name val (Some cfg) = ini_parse_handler pton sec name val (Some (with_ports cfg pcs))"
proof -
  have w: "(with_ports cfg pcs)\<lparr>dpdk := (dpdk (with_ports cfg pcs))\<lparr>port_cfgs := Some pcs\<rparr>\<rparr> = with_ports cfg pcs"
    "cfg\<lparr>dpdk := (dpdk cfg)\<lparr>port_cfgs := Some pcs\<rparr>\<rparr> = with_ports cfg pcs"
    by (simp_all add: with_ports_def)
  have "port_cfg_handler sec name val cfg = port_cfg_handler sec name val (with_ports cfg pcs)"
    using assms(1,2,4) by (simp add: port_cfg_handler_def w)
  moreover have "sec \<noteq> ''dpdk''" "sec \<noteq> ''kni''" "sec \<noteq> ''freebsd.boot''" "sec \<noteq> ''freebsd.sysctl''" using assms(3) by auto
  ultimately show ?thesis using assms(3) by (simp add: ini_parse_handler_def ini_parse_step_def)
qed

definition port_table :: "string \<Rightarrow> port_spec list \<Rightarrow> ff_port_cfg list" where
  "port_table cmask ports =
    fold enter_port ports (fold (\<lambda>i pcs. pcs[unat i := base_port cmask i]) (port_ids_of ports) (replicate RTE_MAX_ETHPORTS zero_port))"

lemma sorted_last: "sorted xs \<Longrightarrow> x \<in> set xs \<Longrightarrow> x \<le> last xs"
  by (induction xs) auto

lemma port_id_small: "n < RTE_MAX_ETHPORTS \<Longrightarrow> unat (of_nat n :: u16) = n"
  by (simp add: RTE_MAX_ETHPORTS_def unat_of_nat)

lemma ids_member: "i \<in> set (port_ids_of ports) \<longleftrightarrow> (\<exists>p \<in> set ports. i = of_nat (fst p))"
  by (auto simp: port_ids_of_def)

lemma ids_bound:
  assumes "ports_wf ports" "i \<in> set (port_ids_of ports)"
  shows "unat i < RTE_MAX_ETHPORTS \<and> (\<exists>p \<in> set ports. fst p = unat i)"
proof -
  obtain p where p: "p \<in> set ports" "i = of_nat (fst p)" using assms(2) by (auto simp: ids_member)
  then have "fst p < RTE_MAX_ETHPORTS" using assms(1) by (simp add: ports_wf_def list_all_iff)
  then show ?thesis using p port_id_small[of "fst p"] by auto
qed

lemma ids_distinct:
  assumes "ports_wf ports"
  shows "distinct (port_ids_of ports)"
proof -
  have "inj_on (of_nat :: nat \<Rightarrow> u16) (fst ` set ports)"
  proof (rule inj_onI)
    fix x y assume xy: "x \<in> fst ` set ports" "y \<in> fst ` set ports" "(of_nat x :: u16) = of_nat y"
    then have "x < RTE_MAX_ETHPORTS" "y < RTE_MAX_ETHPORTS" using assms by (auto simp: ports_wf_def list_all_iff)
    then have "unat (of_nat x :: u16) = x" "unat (of_nat y :: u16) = y" by (auto intro: port_id_small)
    then show "x = y" unfolding xy(3) by (rule trans[OF sym])
  qed
  then have "distinct (map (of_nat :: nat \<Rightarrow> u16) (map fst ports))" using assms by (simp add: distinct_map ports_wf_def comp_inj_on)
  then show ?thesis by (simp add: port_ids_of_def comp_def)
qed

definition base_table :: "string \<Rightarrow> port_spec list \<Rightarrow> ff_port_cfg list" where
  "base_table cmask ports = fold (\<lambda>i pcs. pcs[unat i := base_port cmask i]) (port_ids_of ports) (replicate RTE_MAX_ETHPORTS zero_port)"

lemma base_table_length: "length (base_table cmask ports) = RTE_MAX_ETHPORTS"
  unfolding base_table_def using fold_update_length[of unat "\<lambda>i _. base_port cmask i"] by simp

lemma base_table_nth:
  assumes "ports_wf ports" "p \<in> set ports"
  shows "base_table cmask ports ! fst p = base_port cmask (of_nat (fst p))"
proof -
  have small: "list_all (\<lambda>i. unat i < length (replicate RTE_MAX_ETHPORTS zero_port)) (port_ids_of ports)"
    using ids_bound[OF assms(1)] by (simp add: list_all_iff)
  have dist: "distinct (map unat (port_ids_of ports))"
    using ids_distinct[OF assms(1)] by (simp add: distinct_map inj_on_def word_unat_eq_iff)
  have mem: "of_nat (fst p) \<in> set (port_ids_of ports)" using assms(2) by (auto simp: ids_member)
  have u: "unat (of_nat (fst p) :: u16) = fst p" using assms by (intro port_id_small) (simp add: ports_wf_def list_all_iff)
  show ?thesis
    using fold_update_nth[OF dist small, of "\<lambda>i _. base_port cmask i" "fst p"] find_distinct[OF dist mem]
    unfolding base_table_def u by simp
qed

lemma new_ports:
  assumes "ports_wf ports"
  shows "new_port_cfgs (device_config cmask ports) = Some (base_table cmask ports)"
proof -
  have "list_all (\<lambda>i. unat i < length (replicate RTE_MAX_ETHPORTS zero_port) \<and> replicate RTE_MAX_ETHPORTS zero_port ! unat i = zero_port) (port_ids_of ports)"
    using ids_bound[OF assms] by (simp add: list_all_iff)
  then show ?thesis
    using init_ports_result[OF ids_distinct[OF assms], of "replicate RTE_MAX_ETHPORTS zero_port" cmask]
    by (simp add: new_port_cfgs_def device_config_def base_table_def port_ids_of_def)
qed

lemma port_table_fold: "port_table cmask ports = fold enter_port ports (base_table cmask ports)"
  by (simp add: port_table_def base_table_def)

lemma port_table_nth:
  assumes "ports_wf ports" "p \<in> set ports"
  shows "port_table cmask ports ! fst p = port_entry p (base_port cmask (of_nat (fst p)))"
proof -
  have d: "distinct (map fst ports)" "list_all (\<lambda>p. fst p < length (base_table cmask ports)) ports"
    using assms by (simp_all add: ports_wf_def base_table_length)
  show ?thesis
    using fold_update_nth[OF d, of port_entry "fst p"] find_distinct[OF d(1) assms(2)] base_table_nth[OF assms]
    by (simp add: port_table_fold enter_port_def[abs_def])
qed

lemma port_table_length: "length (port_table cmask ports) = RTE_MAX_ETHPORTS"
  using fold_update_length[of fst port_entry ports "base_table cmask ports"] base_table_length
  by (simp add: port_table_fold enter_port_def[abs_def])

definition written_config :: "string \<Rightarrow> port_spec list \<Rightarrow> ff_config" where
  "written_config cmask ports = with_ports (start_config\<lparr>dpdk := device_config cmask ports\<rparr>) (port_table cmask ports)"

lemma ports_run:
  assumes "ports_wf ports"
  shows "run_calls (ini_parse_handler pton) (concat (map section_calls ports)) (Some (start_config\<lparr>dpdk := device_config cmask ports\<rparr>)) =
    Some (Some (written_config cmask ports))"
proof -
  let ?cfg = "start_config\<lparr>dpdk := device_config cmask ports\<rparr>" and ?h = "ini_parse_handler pton"
  obtain p ps where ps: "ports = p # ps" using assms by (cases ports) (auto simp: ports_wf_def)
  have nb: "nb_ports (dpdk ?cfg) \<noteq> 0" by (simp add: device_config_def ps)
  have "port_cfgs (dpdk ?cfg) = None" by (simp add: device_config_def start_config_def ff_default_config_def zero_dpdk_def)
  then have "run_calls ?h (concat (map section_calls ports)) (Some ?cfg) =
      run_calls ?h (concat (map section_calls ports)) (Some (with_ports ?cfg (base_table cmask ports)))"
    using first_call[of ?cfg "base_table cmask ports" "''port'' @ dec (fst p)" pton] new_ports[OF assms, of cmask] nb
    by (cases p) (simp add: ps section_calls_def port_section_def)
  also have "\<dots> = Some (Some (with_ports ?cfg (fold enter_port ports (base_table cmask ports))))"
  proof (rule sections_run[OF _ nb])
    show "distinct (map fst ports)" using assms by (simp add: ports_wf_def)
    have "fst q < RTE_MAX_ETHPORTS \<and> int (fst q) \<le> uint (max_portid (dpdk ?cfg)) \<and> pc_name (base_table cmask ports ! fst q) = None"
      if q: "q \<in> set ports" for q
    proof -
      have small: "fst q < RTE_MAX_ETHPORTS" using assms q by (simp add: ports_wf_def list_all_iff)
      have "of_nat (fst q) \<le> last (port_ids_of ports)"
        using q by (intro sorted_last) (auto simp: ids_member port_ids_of_def)
      then have "int (fst q) \<le> uint (last (port_ids_of ports))"
        unfolding word_le_nat_alt port_id_small[OF small] by (simp only: uint_nat of_nat_le_iff)
      then show ?thesis using small base_table_nth[OF assms q, of cmask] by (simp add: device_config_def base_port_def zero_port_def)
    qed
    then show "list_all (\<lambda>p. fst p < length (base_table cmask ports) \<and> fst p < 2 ^ 31 \<and> int (fst p) \<le> uint (max_portid (dpdk ?cfg)) \<and>
        pc_name (base_table cmask ports ! fst p) = None) ports"
      by (fastforce simp: list_all_iff base_table_length RTE_MAX_ETHPORTS_def)
  qed
  finally show ?thesis by (simp add: written_config_def port_table_fold)
qed

lemma lcores_sorted: "sorted (map of_nat (lcores m) :: u16 list)"
proof -
  have "sorted (lcores m)" by (simp add: lcores_def sorted_filter[of id, simplified])
  moreover have "(of_nat x :: u16) \<le> of_nat y" if "x \<in> set (lcores m)" "y \<in> set (lcores m)" "x \<le> y" for x y
    using that by (simp add: lcores_def RTE_MAX_LCORE_def word_le_nat_alt unat_of_nat)
  ultimately show ?thesis unfolding sorted_map by (rule sorted_wrt_mono_rel[rotated])
qed

lemma cores_enabled:
  assumes "c \<in> set (cores_of cmask)" "proc_lcore d = Some (core_array cmask)" "nb_procs d = int (length (cores_of cmask))"
  shows "lcore_enabled d (of_nat c)"
proof -
  let ?n = "length (cores_of cmask)"
  have "sorted (take ?n (core_array cmask))" unfolding core_array_take by (simp add: cores_of_def lcores_sorted)
  then have "uint16_binary_search (core_array cmask) 0 (int ?n - 1) (of_nat c) < 0 \<longleftrightarrow> of_nat c \<notin> set (take ?n (core_array cmask))"
    using binary_search_result[of ?n "core_array cmask" "of_nat c"] cores_of_length[of cmask] by (simp add: core_array_length)
  then show ?thesis using assms by (auto simp: lcore_enabled_def core_array_take)
qed

lemma written_simps:
  "port_cfgs (dpdk (written_config cmask ports)) = Some (port_table cmask ports)"
  "proc_lcore (dpdk (written_config cmask ports)) = Some (core_array cmask)"
  "nb_procs (dpdk (written_config cmask ports)) = int (length (cores_of cmask))"
  "portid_list (dpdk (written_config cmask ports)) = Some (port_ids_of ports)"
  "nb_ports (dpdk (written_config cmask ports)) = int (length ports)"
  "proc_mask (dpdk (written_config cmask ports)) = Some (core_mask (hd (cores_of cmask)))"
  "proc_type (dpdk (written_config cmask ports)) = Some ''auto''"
  by (simp_all add: written_config_def with_ports_def device_config_def start_config_def)

lemma written_defaults:
  "primary_slim (dpdk (written_config cmask ports)) = 0" "thread_mode (dpdk (written_config cmask ports)) = 0"
  "mtu_enable (dpdk (written_config cmask ports)) = 0" "no_huge (dpdk (written_config cmask ports)) = 0"
  "nb_channel (dpdk (written_config cmask ports)) = 0" "memory (dpdk (written_config cmask ports)) = 0"
  "dpdk_log_level (dpdk (written_config cmask ports)) = 0" "base_virtaddr (dpdk (written_config cmask ports)) = None"
  "eal_file_prefix (dpdk (written_config cmask ports)) = None" "dpdk_allow (dpdk (written_config cmask ports)) = None"
  "nb_vdev (dpdk (written_config cmask ports)) = 0" "nb_bond (dpdk (written_config cmask ports)) = 0"
  "extra_eal_args (dpdk (written_config cmask ports)) = None" "kni_enable (kni (written_config cmask ports)) = 0"
  "kni_method (kni (written_config cmask ports)) = None" "kni_action (kni (written_config cmask ports)) = None"
  by (simp_all add: written_config_def with_ports_def device_config_def start_config_def ff_default_config_def zero_config_def zero_dpdk_def)

lemma written_port_checked:
  fixes cmask :: string and pc :: ff_pcap_cfg
  assumes "ports_wf ports" "i \<in> set (port_ids_of ports)"
  defines "cfg \<equiv> (written_config cmask ports)\<lparr>pcap := pc\<rparr>"
  shows "check_port cfg i = Some True" "port_mtu_test (dpdk cfg) (\<lambda>mtu. mtu \<le> FF_MTU_DEFAULT) i = Some True"
proof -
  obtain p where p: "p \<in> set ports" "fst p = unat i" "unat i < RTE_MAX_ETHPORTS" using ids_bound[OF assms(1,2)] by auto
  have nth: "port_table cmask ports ! unat i = port_entry p (base_port cmask (of_nat (fst p)))"
    using port_table_nth[OF assms(1) p(1)] p(2) by simp
  obtain n a m b g where pp: "p = (n, a, m, b, g)" by (cases p)
  have cores: "port_cores (port_table cmask ports ! unat i) = Some (map of_nat (cores_of cmask))"
    using cores_of_length[of cmask] by (simp add: nth pp port_entry_def port_cores_def base_port_def core_array_length core_array_take)
  have en: "list_all (lcore_enabled (dpdk cfg)) (map of_nat (cores_of cmask))"
    unfolding list_all_iff using cores_enabled[of _ cmask "dpdk cfg"] by (auto simp: cfg_def written_simps)
  have f: "pc_addr (port_table cmask ports ! unat i) \<noteq> None" "pc_netmask (port_table cmask ports ! unat i) \<noteq> None"
    "pc_broadcast (port_table cmask ports ! unat i) \<noteq> None" "pc_gateway (port_table cmask ports ! unat i) \<noteq> None"
    by (simp_all add: nth pp port_entry_def)
  show "check_port cfg i = Some True"
    using cores en f p(3) by (auto simp: check_port_def Let_def cfg_def written_simps written_defaults port_table_length core_test_def)
  show "port_mtu_test (dpdk cfg) (\<lambda>mtu. mtu \<le> FF_MTU_DEFAULT) i = Some True"
    using p(3) by (simp add: port_mtu_test_def cfg_def written_simps port_table_length nth pp port_entry_def base_port_def)
qed

lemma written_checked:
  assumes "ports_wf ports"
  shows "ff_check_config (written_config cmask ports) = Some (True, (written_config cmask ports)\<lparr>pcap := check_pcap (pcap (written_config cmask ports))\<rparr>)"
proof -
  have ids: "check_ids (dpdk (written_config cmask ports)) = Some (port_ids_of ports)"
    using assms by (simp add: check_ids_def written_simps ports_wf_def port_ids_of_def)
  have "all_ports (check_port ((written_config cmask ports)\<lparr>pcap := check_pcap (pcap (written_config cmask ports))\<rparr>)) (port_ids_of ports) = Some True"
    unfolding all_ports_True using written_port_checked(1)[OF assms] by (simp add: list_all_iff)
  moreover have "check_mtu (dpdk (written_config cmask ports)) (port_ids_of ports) = Some True"
    using written_port_checked(2)[OF assms] by (simp add: check_mtu_def written_defaults all_ports_True list_all_iff)
  ultimately show ?thesis
    by (simp add: ff_check_config_def ids written_defaults check_kni_def)
qed

lemma written_args:
  "dpdk_args_setup ((written_config cmask ports)\<lparr>pcap := pc\<rparr>) =
    (if length (core_mask (hd (cores_of cmask))) + 2 < DPDK_CONFIG_MAXLEN
     then Some ([''f-stack'', ''-c'' @ core_mask (hd (cores_of cmask)), ''--proc-type=auto''], (written_config cmask ports)\<lparr>pcap := pc\<rparr>)
     else None)"
  by (simp add: dpdk_args_setup_def own_args_def Let_def push_str_def push_if_def push_arg_def written_simps written_defaults push_allow_def DPDK_CONFIG_MAXLEN_def)

lemma core_mask_length: "i < RTE_MAX_LCORE \<Longrightarrow> length (core_mask i) \<le> 32"
  by (simp add: core_mask_def RTE_MAX_LCORE_def)

definition loaded_config :: "string \<Rightarrow> port_spec list \<Rightarrow> ff_config" where
  "loaded_config cmask ports = (written_config cmask ports)\<lparr>pcap := check_pcap (pcap (written_config cmask ports))\<rparr>"

lemma written_loaded:
  assumes "mask_wf cmask" "ports_wf ports" "wf_doc (basic_doc cmask ports)" "fs ''config.ini'' = Some (doc_text (basic_doc cmask ports))"
  shows "ff_load_config pton fs [] st =
    Some (0, loaded_config cmask ports, [''f-stack'', ''-c'' @ core_mask (hd (cores_of cmask)), ''--proc-type=auto''])"
proof -
  let ?h = "ini_parse_handler pton"
  have "doc_calls (basic_doc cmask ports) =
      [(''dpdk'', ''lcore_mask'', cmask), (''dpdk'', ''port_list'', list_text (map (\<lambda>p. Single (fst p)) ports))] @ concat (map section_calls ports)"
    by (simp add: doc_calls_def basic_doc_def section_calls_def[abs_def] comp_def split_def)
  then have run: "run_calls ?h (doc_calls (basic_doc cmask ports)) (Some start_config) = Some (Some (written_config cmask ports))"
    using device_section[OF assms(1,2), of pton] ports_run[OF assms(2), of pton cmask] by (simp only: run_calls_append option.case)
  have name: "cfg_filename start_config = Some ''config.ini''"
    by (simp add: start_config_def ff_default_config_def DEFAULT_CONFIG_FILE_def)
  have parse: "ini_parse fs ''config.ini'' ?h (Some start_config) = (0, Some (written_config cmask ports))"
    using assms(3,4) run by (rule parse_document)
  have "hd (cores_of cmask) < RTE_MAX_LCORE"
    using assms(1) hd_in_set[of "cores_of cmask"] by (auto simp: mask_wf_def cores_of_def lcores_def)
  then have "dpdk_args_setup (loaded_config cmask ports) =
      Some ([''f-stack'', ''-c'' @ core_mask (hd (cores_of cmask)), ''--proc-type=auto''], loaded_config cmask ports)"
    using core_mask_length[of "hd (cores_of cmask)"] by (simp add: loaded_config_def written_args DPDK_CONFIG_MAXLEN_def)
  then show ?thesis
    using written_checked[OF assms(2), of cmask] by (simp add: ff_load_config_def Let_def start_config name parse loaded_config_def)
qed

text \<open>C9. A file with a mask of cores and any number of ports is loaded as written, from any earlier state:
  \<open>ff_load_config\<close> returns 0, the processes are the cores of the mask, the port list is the sorted list of the ports,
  every port has the name, addresses and gateway of its section, the cores of the mask and the default MTU, and DPDK
  gets the mask of the first core.\<close>

theorem load_config_written:
  assumes "mask_wf cmask" "ports_wf ports" "wf_doc (basic_doc cmask ports)" "fs ''config.ini'' = Some (doc_text (basic_doc cmask ports))"
  shows "\<exists>cfg pcs. ff_load_config pton fs [] st =
      Some (0, cfg, [''f-stack'', ''-c'' @ core_mask (hd (cores_of cmask)), ''--proc-type=auto'']) \<and>
    enabled_cores (dpdk cfg) = map of_nat (cores_of cmask) \<and> portid_list (dpdk cfg) = Some (port_ids_of ports) \<and>
    port_cfgs (dpdk cfg) = Some pcs \<and>
    (\<forall>(n, addr, netmask, broadcast, gateway) \<in> set ports.
       let pc = pcs ! n
       in pc_name pc = Some (''port'' @ dec n) \<and> pc_addr pc = Some addr \<and> pc_netmask pc = Some netmask \<and>
          pc_broadcast pc = Some broadcast \<and> pc_gateway pc = Some gateway \<and> unat (pc_mtu pc) = FF_MTU_DEFAULT \<and>
          take (nat (pc_nb_lcores pc)) (pc_lcore_list pc) = map of_nat (cores_of cmask))"
proof (intro exI conjI)
  show "ff_load_config pton fs [] st =
      Some (0, loaded_config cmask ports, [''f-stack'', ''-c'' @ core_mask (hd (cores_of cmask)), ''--proc-type=auto''])"
    by (rule written_loaded[OF assms(1-3), of fs]) (rule assms(4))
  show "enabled_cores (dpdk (loaded_config cmask ports)) = map of_nat (cores_of cmask)"
    by (simp add: loaded_config_def enabled_cores_def written_simps written_defaults core_array_take)
  show "portid_list (dpdk (loaded_config cmask ports)) = Some (port_ids_of ports)"
    "port_cfgs (dpdk (loaded_config cmask ports)) = Some (port_table cmask ports)"
    by (simp_all add: loaded_config_def written_simps)
  show "\<forall>(n, addr, netmask, broadcast, gateway) \<in> set ports.
       let pc = port_table cmask ports ! n
       in pc_name pc = Some (''port'' @ dec n) \<and> pc_addr pc = Some addr \<and> pc_netmask pc = Some netmask \<and>
          pc_broadcast pc = Some broadcast \<and> pc_gateway pc = Some gateway \<and> unat (pc_mtu pc) = FF_MTU_DEFAULT \<and>
          take (nat (pc_nb_lcores pc)) (pc_lcore_list pc) = map of_nat (cores_of cmask)"
    using port_table_nth[OF assms(2), of _ cmask]
    by (auto simp: Let_def port_entry_def base_port_def core_array_take dest!: spec)
qed

section \<open>Documents that leave an array\<close>

lemma init_ports_outside: "\<exists>i \<in> set ids. length pcs \<le> unat i \<Longrightarrow> init_ports procs lcore ids pcs = None"
  by (induction procs lcore ids pcs rule: init_ports.induct) (auto simp: Let_def split: option.splits)

text \<open>C34. Files on which the configuration code leaves an array or follows a null pointer, once a port list was read:
  a section of a port with a negative number; a port list with a number of 32 or more, at the first section of a port; an
  empty port list itself; and, at the check, a port list with no section of a port at all.\<close>

theorem config_faults:
  assumes "dpdk_ok (dpdk cfg)" "nb_ports (dpdk cfg) \<noteq> 0"
  shows "(sscanf_int ''port'' sec = Some i \<and> i < 0 \<longrightarrow> port_cfg_handler sec name val cfg = None) \<and>
    (port_cfgs (dpdk cfg) = None \<and> (\<exists>i \<in> set (the (portid_list (dpdk cfg))). RTE_MAX_ETHPORTS \<le> unat i) \<longrightarrow>
       port_cfg_handler sec name val cfg = None) \<and>
    dpdk_option ''port_list'' [] cfg = None \<and>
    (port_cfgs (dpdk cfg) = None \<and> check_kni (kni cfg) \<longrightarrow> ff_check_config cfg = None) \<and>
    (nb_vdev (dpdk cfg) \<noteq> 0 \<and> sscanf_int ''vdev'' sec = Some i \<and> i \<le> nb_vdev (dpdk cfg) \<and> (i < 0 \<or> int RTE_MAX_ETHPORTS \<le> i) \<longrightarrow>
       vdev_cfg_handler sec name val cfg = None) \<and>
    (nb_bond (dpdk cfg) \<noteq> 0 \<and> sscanf_int ''bond'' sec = Some i \<and> i \<le> nb_bond (dpdk cfg) \<and> (i < 0 \<or> int RTE_MAX_ETHPORTS \<le> i) \<longrightarrow>
       bond_cfg_handler sec name val cfg = None)"
proof (intro conjI impI)
  obtain ids where ids: "portid_list (dpdk cfg) = Some ids" "ids \<noteq> []" "nb_ports (dpdk cfg) = int (length ids)"
    using assms by (auto simp: dpdk_ok_def ids_ok_def split: option.splits)
  show "port_cfg_handler sec name val cfg = None" if "sscanf_int ''port'' sec = Some i \<and> i < 0"
  proof -
    have "\<not> uint (max_portid (dpdk cfg)) < i" using that uint_ge_0[of "max_portid (dpdk cfg)"] by linarith
    then show ?thesis using that assms(2) by (auto simp: port_cfg_handler_def Let_def table_at_def split: option.split)
  qed
  show "port_cfg_handler sec name val cfg = None"
    if "port_cfgs (dpdk cfg) = None \<and> (\<exists>i \<in> set (the (portid_list (dpdk cfg))). RTE_MAX_ETHPORTS \<le> unat i)"
    using that assms(2) ids init_ports_outside[of ids "replicate RTE_MAX_ETHPORTS zero_port"]
    by (simp add: port_cfg_handler_def new_port_cfgs_def)
  show "dpdk_option ''port_list'' [] cfg = None"
    by (simp add: dpdk_option_def Let_def parse_port_list_def port_ids_def parse_config_list_def no_elements_def rte_strsplit.simps)
  show "ff_check_config cfg = None" if "port_cfgs (dpdk cfg) = None \<and> check_kni (kni cfg)"
  proof -
    have "check_ids (dpdk cfg) = Some ids" using ids by (simp add: check_ids_def)
    moreover have "all_ports (check_port (cfg\<lparr>pcap := check_pcap (pcap cfg)\<rparr>)) ids = None"
      using ids(2) that by (cases ids) (simp_all add: check_port_def)
    ultimately show ?thesis using that by (simp add: ff_check_config_def)
  qed
  have outside: "table_at xs i = None" if "length xs = RTE_MAX_ETHPORTS" "i < 0 \<or> int RTE_MAX_ETHPORTS \<le> i" for xs :: "'b list" and i
    using that by (auto simp: table_at_def)
  have len: "length (case vdev_cfgs (dpdk cfg) of Some vcs \<Rightarrow> vcs | None \<Rightarrow> replicate RTE_MAX_ETHPORTS zero_vdev) = RTE_MAX_ETHPORTS"
    "length (case bond_cfgs (dpdk cfg) of Some bcs \<Rightarrow> bcs | None \<Rightarrow> replicate RTE_MAX_ETHPORTS zero_bond) = RTE_MAX_ETHPORTS"
    using assms(1) by (auto simp: dpdk_ok_def table_ok_def split: option.splits)
  show "vdev_cfg_handler sec name val cfg = None"
    if "nb_vdev (dpdk cfg) \<noteq> 0 \<and> sscanf_int ''vdev'' sec = Some i \<and> i \<le> nb_vdev (dpdk cfg) \<and> (i < 0 \<or> int RTE_MAX_ETHPORTS \<le> i)"
    using that outside[OF len(1)] by (simp add: vdev_cfg_handler_def)
  show "bond_cfg_handler sec name val cfg = None"
    if "nb_bond (dpdk cfg) \<noteq> 0 \<and> sscanf_int ''bond'' sec = Some i \<and> i \<le> nb_bond (dpdk cfg) \<and> (i < 0 \<or> int RTE_MAX_ETHPORTS \<le> i)"
    using that outside[OF len(2)] by (simp add: bond_cfg_handler_def)
qed

section \<open>The arguments for DPDK\<close>

text \<open>At least \<open>n\<close> arguments are in place, none of them behind the array.\<close>

definition args_ok :: "nat \<Rightarrow> string list option \<Rightarrow> bool" where
  "args_ok n argv \<longleftrightarrow> (case argv of None \<Rightarrow> True | Some a \<Rightarrow> 0 < n \<and> n \<le> length a \<and> length a \<le> DPDK_CONFIG_NUM + 1 \<and> hd a = ''f-stack'')"

lemma push_if_ok: "args_ok n argv \<Longrightarrow> args_ok n (push_if c s argv)"
  by (auto simp: args_ok_def push_if_def push_arg_def hd_append split: option.splits)

lemma push_ok_Suc: "args_ok n argv \<Longrightarrow> args_ok (Suc n) (push_if True s argv)"
  by (auto simp: args_ok_def push_if_def push_arg_def hd_append split: option.splits)

lemma push_vdev_ok: "args_ok n argv \<Longrightarrow> args_ok n (push_vdev d i argv)"
  unfolding push_vdev_def by (auto split: option.split intro: push_if_ok) (auto simp: args_ok_def)

lemma push_bond_ok: "args_ok n argv \<Longrightarrow> args_ok n (push_bond d i argv)"
  unfolding push_bond_def by (auto split: option.split intro!: push_if_ok) (auto simp: args_ok_def)

lemma fold_ok: "(\<And>x argv. args_ok n argv \<Longrightarrow> args_ok n (f x argv)) \<Longrightarrow> args_ok n argv \<Longrightarrow> args_ok n (fold f xs argv)"
  by (induction xs arbitrary: argv) simp_all

lemma push_all_ok: "args_ok n argv \<Longrightarrow> args_ok (n + length toks) (fold (\<lambda>tok. push_if True (f tok)) toks argv)"
proof (induction toks arbitrary: n argv)
  case (Cons tok toks)
  show ?case using Cons.IH[OF push_ok_Suc[OF Cons.prems, of "f tok"]] by simp
qed simp

lemma push_allow_ok:
  "args_ok 1 argv \<Longrightarrow> args_ok (1 + length (case s of None \<Rightarrow> [] | Some s \<Rightarrow> strtok_tokens (CHR '','') s)) (push_allow s argv)"
  using push_all_ok[of 1 argv _ "\<lambda>tok. ''--allow='' @ tok"] by (simp add: push_allow_def split: option.split)

lemma args_overfull: "args_ok n argv \<Longrightarrow> DPDK_CONFIG_NUM + 1 < n \<Longrightarrow> argv = None"
  by (auto simp: args_ok_def split: option.splits)

lemma own_args_ok:
  "args_ok (1 + length (case dpdk_allow d of None \<Rightarrow> [] | Some s \<Rightarrow> strtok_tokens (CHR '','') s)) (own_args d)"
  unfolding own_args_def Let_def push_str_def
  by (intro pred_if[of "args_ok _"] fold_ok push_vdev_ok push_bond_ok push_if_ok push_allow_ok) (simp_all add: args_ok_def)

lemma push_extra_ok: "0 < length a \<Longrightarrow> length a \<le> DPDK_CONFIG_NUM + 1 \<Longrightarrow>
    length (push_extra toks a) \<le> DPDK_CONFIG_NUM + 1 \<and> hd (push_extra toks a) = hd a \<and> push_extra toks a \<noteq> []"
  by (induction toks arbitrary: a) auto

text \<open>C35. The arguments made for DPDK start with the program and fit \<open>dpdk_argv\<close> whenever the code stays within its
  buffers. \<open>extra_eal_args\<close> never makes it leave them, however long; more than 32 devices in the allow list always
  do.\<close>

theorem dpdk_args_bounded:
  "(case dpdk_args_setup cfg of None \<Rightarrow> True
    | Some (argv, _) \<Rightarrow> argv \<noteq> [] \<and> hd argv = ''f-stack'' \<and> length argv \<le> DPDK_CONFIG_NUM + 1) \<and>
   (dpdk_args_setup cfg = None \<longleftrightarrow> dpdk_args_setup (cfg\<lparr>dpdk := (dpdk cfg)\<lparr>extra_eal_args := None\<rparr>\<rparr>) = None) \<and>
   (dpdk_allow (dpdk cfg) = Some s \<and> DPDK_CONFIG_NUM < length (strtok_tokens (CHR '','') s) \<longrightarrow> dpdk_args_setup cfg = None)"
proof (intro conjI impI)
  let ?toks = "case dpdk_allow (dpdk cfg) of None \<Rightarrow> [] | Some s \<Rightarrow> strtok_tokens (CHR '','') s"
  note ok = own_args_ok[of "dpdk cfg"]
  show "case dpdk_args_setup cfg of None \<Rightarrow> True
    | Some (argv, _) \<Rightarrow> argv \<noteq> [] \<and> hd argv = ''f-stack'' \<and> length argv \<le> DPDK_CONFIG_NUM + 1"
  proof (cases "own_args (dpdk cfg)")
    case (Some a)
    then have "0 < length a" "length a \<le> DPDK_CONFIG_NUM + 1" "hd a = ''f-stack''" using ok by (auto simp: args_ok_def)
    then show ?thesis using push_extra_ok[of a] Some by (simp add: dpdk_args_setup_def Let_def split: option.split)
  qed (simp add: dpdk_args_setup_def)
  have "push_vdev ((dpdk cfg)\<lparr>extra_eal_args := None\<rparr>) = push_vdev (dpdk cfg)"
    "push_bond ((dpdk cfg)\<lparr>extra_eal_args := None\<rparr>) = push_bond (dpdk cfg)"
    by (intro ext, simp add: push_vdev_def push_bond_def)+
  then have "own_args ((dpdk cfg)\<lparr>extra_eal_args := None\<rparr>) = own_args (dpdk cfg)" by (simp add: own_args_def Let_def)
  then show "dpdk_args_setup cfg = None \<longleftrightarrow> dpdk_args_setup (cfg\<lparr>dpdk := (dpdk cfg)\<lparr>extra_eal_args := None\<rparr>\<rparr>) = None"
    by (simp add: dpdk_args_setup_def Let_def split: option.split)
  show "dpdk_args_setup cfg = None" if "dpdk_allow (dpdk cfg) = Some s \<and> DPDK_CONFIG_NUM < length (strtok_tokens (CHR '','') s)"
    using args_overfull[OF ok] that by (simp add: dpdk_args_setup_def)
qed

section \<open>The bound on the values of a range\<close>

lemma list_range_bound:
  "length arr - k < n \<Longrightarrow> list_range (n + m) mx j rv (arr, k) = list_range n mx j rv (arr, k)"
proof (induction n arbitrary: j arr k)
  case (Suc n)
  have "list_range (n + m) mx (j + 1) rv (arr[k := v], Suc k) = list_range n mx (j + 1) rv (arr[k := v], Suc k)"
    if "k < length arr" for v
    using Suc.IH[of "arr[k := v]" "Suc k"] Suc.prems that by simp
  then show ?case by (simp add: list_put_def)
qed simp

text \<open>The loop over a range of numbers ends after at most two iterations more than its array has elements, however
  far apart the bounds of the range are: more iterations allowed make no difference.\<close>

theorem list_range_terminates:
  "list_range (length arr + 2 + m) max_ele j rv (arr, k) = list_range (length arr + 2) max_ele j rv (arr, k)"
  by (rule list_range_bound) simp

section \<open>Unloading\<close>

definition port_released :: "ff_port_cfg \<Rightarrow> bool" where
  "port_released p \<longleftrightarrow> pc_name p = None \<and> pc_ifname p = None \<and> pc_addr p = None \<and> pc_netmask p = None \<and> pc_broadcast p = None \<and>
     pc_gateway p = None \<and> pc_vip_ifname p = None \<and> pc_vip_addr_str p = None \<and> pc_vip_addr_array p = None \<and>
     pc_pr_addr_str p = None \<and> pc_pr_cfg p = None \<and> pc_addr6_str p = None \<and> pc_gateway6_str p = None \<and>
     pc_vip_addr6_str p = None \<and> pc_vip_addr6_array p = None \<and> pc_slave_portid_list p = None"

definition vlan_released :: "ff_vlan_cfg \<Rightarrow> bool" where
  "vlan_released v \<longleftrightarrow> vl_name v = None \<and> vl_ifname v = None \<and> vl_addr v = None \<and> vl_netmask v = None \<and> vl_broadcast v = None \<and>
     vl_gateway v = None \<and> vl_vip_ifname v = None \<and> vl_vip_addr_str v = None \<and> vl_vip_addr_array v = None \<and>
     vl_pr_addr_str v = None \<and> vl_pr_cfg v = None \<and> vl_addr6_str v = None \<and> vl_gateway6_str v = None \<and>
     vl_vip_addr6_str v = None \<and> vl_vip_addr6_array v = None"

definition vdev_released :: "ff_vdev_cfg \<Rightarrow> bool" where
  "vdev_released v \<longleftrightarrow> vd_name v = None \<and> vd_iface v = None \<and> vd_path v = None \<and> vd_mac v = None"

definition bond_released :: "ff_bond_cfg \<Rightarrow> bool" where
  "bond_released b \<longleftrightarrow> bd_name b = None \<and> bd_slave b = None \<and> bd_primary b = None \<and> bd_bond_mac b = None \<and> bd_xmit_policy b = None"


section \<open>Witnesses\<close>

definition demo_ports :: "port_spec list" where
  "demo_ports = [(1, ''10.0.0.2'', ''255.0.0.0'', ''10.255.255.255'', ''10.0.0.1''), (0, ''192.168.1.2'', ''255.255.255.0'', ''192.168.1.255'', ''192.168.1.1'')]"

lemma demo_wf: "mask_wf ''1''" "ports_wf demo_ports" "wf_doc (basic_doc ''1'' demo_ports)"
proof -
  have body: "mask_body ''1'' = ''1''" "hex_value ''1'' = 1" "list_all isxdigit ''1''" by code_simp+
  have "0 \<in> set (cores_of ''1'')" by (simp add: cores_of_def body lcores_def RTE_MAX_LCORE_def bit_0)
  then show "mask_wf ''1''" using body by (auto simp: mask_wf_def RTE_MAX_LCORE_def)
  show "ports_wf demo_ports" by code_simp
  show "wf_doc (basic_doc ''1'' demo_ports)" by code_simp
qed

definition demo_fs :: "string \<Rightarrow> string option" where
  "demo_fs name = (if name = ''config.ini'' then Some (doc_text (basic_doc ''1'' demo_ports)) else None)"

definition no_pton :: pton_api where "no_pton = \<lparr>pton4 = \<lambda>_. None, pton6 = \<lambda>_. None\<rparr>"

lemma demo_loaded: "\<exists>argv. ff_load_config no_pton demo_fs [] (ff_default_config, []) = Some (0, loaded_config ''1'' demo_ports, argv)"
  using written_loaded[OF demo_wf, of demo_fs no_pton "(ff_default_config, [])"] by (simp add: demo_fs_def)

theorem load_config_written_witness:
  "\<exists>cfg argv pcs. ff_load_config no_pton demo_fs [] (ff_default_config, []) = Some (0, cfg, argv) \<and>
     portid_list (dpdk cfg) = Some [0, 1] \<and> port_cfgs (dpdk cfg) = Some pcs \<and> pc_gateway (pcs ! 1) = Some ''10.0.0.1''"
proof -
  have ids: "port_ids_of demo_ports = [0, 1]" by code_simp
  have fs: "demo_fs ''config.ini'' = Some (doc_text (basic_doc ''1'' demo_ports))" by (simp add: demo_fs_def)
  have mem: "(1, ''10.0.0.2'', ''255.0.0.0'', ''10.255.255.255'', ''10.0.0.1'') \<in> set demo_ports" by (simp add: demo_ports_def)
  show ?thesis using load_config_written[OF demo_wf, of demo_fs no_pton "(ff_default_config, [])", OF fs] mem unfolding ids
    by (fastforce simp: Let_def)
qed

theorem load_config_checked_witness:
  "\<exists>cfg argv. ff_load_config no_pton demo_fs [] (ff_default_config, []) = Some (0, cfg, argv) \<and> port_configured (dpdk cfg) 0"
proof -
  obtain argv where l: "ff_load_config no_pton demo_fs [] (ff_default_config, []) = Some (0, loaded_config ''1'' demo_ports, argv)"
    using demo_loaded by blast
  have "port_ids_of demo_ports = [0, 1]" by code_simp
  then have "portid_list (dpdk (loaded_config ''1'' demo_ports)) = Some [0, 1]" by (simp add: loaded_config_def written_simps)
  then show ?thesis using l load_config_checked[OF l] by auto
qed


definition listed_config :: ff_config where
  "listed_config = ff_default_config\<lparr>dpdk := (dpdk ff_default_config)\<lparr>portid_list := Some [0], nb_ports := 1\<rparr>\<rparr>"

theorem config_faults_witness:
  "port_cfg_handler ''port-1'' ''addr'' ''10.0.0.2'' listed_config = None \<and> ff_check_config listed_config = None"
proof -
  have ok: "dpdk_ok (dpdk listed_config)"
    by (simp add: listed_config_def ff_default_config_def zero_dpdk_def dpdk_ok_def cores_ok_def ids_ok_def table_ok_def RTE_MAX_ETHPORTS_def)
  have nb: "nb_ports (dpdk listed_config) \<noteq> 0" "port_cfgs (dpdk listed_config) = None" "check_kni (kni listed_config)"
    by (simp_all add: listed_config_def ff_default_config_def zero_config_def zero_dpdk_def check_kni_def)
  have neg: "sscanf_int ''port'' ''port-1'' = Some (-1)"
    by (simp add: sscanf_int_def scan_num_def isspace_def isdigit_def code_def dec_value_def atoi_def strtol_def LONG_MAX_def to_int_small)
  show ?thesis using config_faults[OF ok nb(1), of "''port-1''" "-1" "''addr''" "''10.0.0.2''"] neg nb by simp
qed

definition allow_config :: ff_config where
  "allow_config = ff_default_config\<lparr>dpdk := (dpdk ff_default_config)\<lparr>dpdk_allow := Some (concat (replicate 33 ''a,''))\<rparr>\<rparr>"

theorem dpdk_args_bounded_witness: "dpdk_args_setup allow_config = None"
proof -
  have "length (strtok_tokens (CHR '','') (concat (replicate 33 ''a,''))) = 33" by code_simp
  then show ?thesis using dpdk_args_bounded[of allow_config "concat (replicate 33 ''a,'')"] by (simp add: allow_config_def)
qed

end
