(* ===== verification/FF_Kni.thy ===== *)
theory FF_Kni
  imports FF_Config_Str FF_Config_Types
begin

text \<open>
  The classification of packets for the kernel (\<open>ff_dpdk_kni.c\<close>): the bitmaps of the TCP and UDP ports that belong to
  the kernel, filled from the lists of the configuration, and the filter that walks over the headers of an IP packet.
  It is the default build, with IPv6 and KNI and without IPsec.

  A packet is the memory behind a pointer, a function from offsets to bytes, with the length that the caller passes;
  what is read beyond the length is a byte of that memory. The filter takes fuel, one unit per IP header.
\<close>

section \<open>Bitmaps of ports\<close>

definition magic_bits :: "u8 list" where
  "magic_bits = [0x80, 0x40, 0x20, 0x10, 0x8, 0x4, 0x2, 0x1]"

definition set_bitmap :: "u16 \<Rightarrow> u8 list \<Rightarrow> u8 list" where
  "set_bitmap port bitmap =
    (let port = unat (htons port)
     in bitmap[port div 8 := bitmap ! (port div 8) OR magic_bits ! (port mod 8)])"

definition get_bitmap :: "u16 \<Rightarrow> u8 list \<Rightarrow> bool" where
  "get_bitmap port bitmap \<longleftrightarrow> bitmap ! (unat port div 8) AND magic_bits ! (unat port mod 8) > 0"

definition strchr_pos :: "char \<Rightarrow> string \<Rightarrow> nat option" where
  "strchr_pos c s = (if c \<in> set s then Some (length (takeWhile (\<lambda>x. x \<noteq> c) s)) else None)"

text \<open>One item of the list, from \<open>head\<close> on.\<close>

definition bitmap_item :: "string \<Rightarrow> u8 list \<Rightarrow> u8 list" where
  "bitmap_item head bitmap =
    (case strchr_pos (CHR ''-'') head of
       Some tail_num \<Rightarrow>
         if (case strchr_pos (CHR '','') head of None \<Rightarrow> True | Some tail \<Rightarrow> int tail_num < int tail - 1)
         then fold (\<lambda>i. set_bitmap (of_int i)) [atoi head..atoi (drop (tail_num + 1) head)] bitmap
         else set_bitmap (of_int (atoi head)) bitmap
     | None \<Rightarrow> set_bitmap (of_int (atoi head)) bitmap)"

function kni_set_bitmap :: "string \<Rightarrow> u8 list \<Rightarrow> u8 list" where
  "kni_set_bitmap head bitmap =
    (let bitmap = bitmap_item head bitmap
     in case strchr_pos (CHR '','') head of None \<Rightarrow> bitmap
        | Some tail \<Rightarrow> kni_set_bitmap (drop (tail + 1) head) bitmap)"
  by pat_completeness auto
termination
  by (relation "measure (\<lambda>(head, bitmap). length head)")
    (auto simp: strchr_pos_def split: if_splits intro!: diff_less length_pos_if_in_set)

text \<open>The bitmaps of a list that the configuration may not have.\<close>

definition port_bitmap :: "string option \<Rightarrow> u8 list" where
  "port_bitmap ports = (let bitmap = replicate 8192 0 in case ports of None \<Rightarrow> bitmap | Some p \<Rightarrow> kni_set_bitmap p bitmap)"

section \<open>The filter\<close>

datatype FilterReturn = FILTER_UNKNOWN | FILTER_KNI | FILTER_ARP | FILTER_NDP | FILTER_OSPF | FILTER_MULTI

primrec filter_value :: "FilterReturn \<Rightarrow> int" where
  "filter_value FILTER_UNKNOWN = - 1"
| "filter_value FILTER_KNI = 1"
| "filter_value FILTER_ARP = 2"
| "filter_value FILTER_NDP = 3"
| "filter_value FILTER_OSPF = 4"
| "filter_value FILTER_MULTI = 5"

text \<open>What the filter reads of the state: whether KNI is enabled, and the two bitmaps.\<close>

record kni_ports =
  enable_kni :: bool
  tcp_port_bitmap :: "u8 list"
  udp_port_bitmap :: "u8 list"

definition ff_kni_ports :: "bool \<Rightarrow> string option \<Rightarrow> string option \<Rightarrow> kni_ports" where
  "ff_kni_ports enable tcp_ports udp_ports =
    \<lparr>enable_kni = enable, tcp_port_bitmap = port_bitmap tcp_ports, udp_port_bitmap = port_bitmap udp_ports\<rparr>"

type_synonym memory = "nat \<Rightarrow> u8"

definition shift :: "memory \<Rightarrow> nat \<Rightarrow> memory" where
  "shift data n = (\<lambda>i. data (n + i))"

definition protocol_filter_l4 :: "u16 \<Rightarrow> u8 list \<Rightarrow> FilterReturn" where
  "protocol_filter_l4 port bitmap = (if get_bitmap port bitmap then FILTER_KNI else FILTER_UNKNOWN)"

definition protocol_filter_tcp :: "kni_ports \<Rightarrow> memory \<Rightarrow> nat \<Rightarrow> FilterReturn" where
  "protocol_filter_tcp k data len =
    (if len < 20 then FILTER_UNKNOWN else protocol_filter_l4 (bytes_u16 (data 2) (data 3)) (tcp_port_bitmap k))"

definition protocol_filter_udp :: "kni_ports \<Rightarrow> memory \<Rightarrow> nat \<Rightarrow> FilterReturn" where
  "protocol_filter_udp k data len =
    (if len < 8 then FILTER_UNKNOWN else protocol_filter_l4 (bytes_u16 (data 2) (data 3)) (udp_port_bitmap k))"

abbreviation (input) "IPPROTO_HOPOPTS \<equiv> 0 :: u8"
abbreviation (input) "IPPROTO_IPIP \<equiv> 4 :: u8"
abbreviation (input) "IPPROTO_TCP \<equiv> 6 :: u8"
abbreviation (input) "IPPROTO_UDP \<equiv> 17 :: u8"
abbreviation (input) "IPPROTO_IPV6 \<equiv> 41 :: u8"
abbreviation (input) "IPPROTO_ROUTING \<equiv> 43 :: u8"
abbreviation (input) "IPPROTO_FRAGMENT \<equiv> 44 :: u8"
abbreviation (input) "IPPROTO_AH \<equiv> 51 :: u8"
abbreviation (input) "IPPROTO_ICMPV6 \<equiv> 58 :: u8"
abbreviation (input) "IPPROTO_DSTOPTS \<equiv> 60 :: u8"
abbreviation (input) "IPPROTO_OSPFIGP \<equiv> 89 :: u8"
abbreviation (input) "IPPROTO_MH \<equiv> 135 :: u8"
abbreviation (input) "IPPROTO_HIP \<equiv> 139 :: u8"
abbreviation (input) "IPPROTO_SHIM6 \<equiv> 140 :: u8"

text \<open>The length of one extension header, None when the protocol is not one.\<close>

definition ext_hdr_len :: "u8 \<Rightarrow> memory \<Rightarrow> nat option" where
  "ext_hdr_len proto data =
    (if proto \<in> {IPPROTO_HOPOPTS, IPPROTO_ROUTING, IPPROTO_DSTOPTS, IPPROTO_MH, IPPROTO_HIP, IPPROTO_SHIM6} then Some (unat (data 1) + 1)
     else if proto = IPPROTO_FRAGMENT then Some 8
     else if proto = IPPROTO_AH then Some ((unat (data 1) + 2) * 4)
     else None)"

lemma ext_hdr_len_pos: "ext_hdr_len proto data = Some n \<Longrightarrow> 0 < n"
  by (auto simp: ext_hdr_len_def split: if_splits)

text \<open>The protocol behind the extension headers and their length.\<close>

function get_ipv6_hdr_len :: "u8 \<Rightarrow> memory \<Rightarrow> nat \<Rightarrow> u8 \<times> nat" where
  "get_ipv6_hdr_len proto data len =
    (case ext_hdr_len proto data of None \<Rightarrow> (proto, 0)
     | Some ext \<Rightarrow>
         if ext \<ge> len then (proto, len)
         else let (proto, n) = get_ipv6_hdr_len (data 0) (shift data ext) (len - ext) in (proto, ext + n))"
  by pat_completeness auto
termination
  by (relation "measure (\<lambda>(proto, data, len). len)") (auto dest: ext_hdr_len_pos)

definition protocol_filter_icmp6 :: "memory \<Rightarrow> nat \<Rightarrow> FilterReturn" where
  "protocol_filter_icmp6 data len =
    (if len < 8 then FILTER_UNKNOWN else if 133 \<le> data 0 \<and> data 0 \<le> 137 then FILTER_NDP else FILTER_UNKNOWN)"

abbreviation (input) "RTE_ETHER_TYPE_IPV4 \<equiv> 0x0800 :: u16"
abbreviation (input) "RTE_ETHER_TYPE_IPV6 \<equiv> 0x86DD :: u16"

text \<open>The protocol and the length of an IP header, with the extension headers behind it.\<close>

definition ip_header :: "memory \<Rightarrow> nat \<Rightarrow> u16 \<Rightarrow> (u8 \<times> nat) option" where
  "ip_header data len eth_frame_type =
    (if eth_frame_type = RTE_ETHER_TYPE_IPV4 then
       if len < 20 then None
       else let hdr_len = unat (push_bit 2 (data 0 AND 0x0f))
            in if len < hdr_len then None else Some (data 9, hdr_len)
     else if eth_frame_type = RTE_ETHER_TYPE_IPV6 then
       if len < 40 then None
       else let (proto, n) = get_ipv6_hdr_len (data 6) (shift data 40) (len - 40); hdr_len = 40 + n
            in if len < hdr_len then None else Some (proto, hdr_len)
     else None)"

fun protocol_filter_ip :: "nat \<Rightarrow> kni_ports \<Rightarrow> memory \<Rightarrow> nat \<Rightarrow> u16 \<Rightarrow> FilterReturn option" where
  "protocol_filter_ip 0 k data len eth_frame_type = None"
| "protocol_filter_ip (Suc fuel) k data len eth_frame_type =
    (case ip_header data len eth_frame_type of None \<Rightarrow> Some FILTER_UNKNOWN
     | Some (proto, hdr_len) \<Rightarrow>
         let next_data = shift data hdr_len; next_len = len - hdr_len
         in if proto = IPPROTO_OSPFIGP then Some FILTER_OSPF
            else if proto = IPPROTO_TCP then
              if \<not> enable_kni k then Some FILTER_UNKNOWN else Some (protocol_filter_tcp k next_data next_len)
            else if proto = IPPROTO_UDP then
              if \<not> enable_kni k then Some FILTER_UNKNOWN else Some (protocol_filter_udp k next_data next_len)
            else if proto = IPPROTO_IPIP then protocol_filter_ip fuel k next_data next_len RTE_ETHER_TYPE_IPV4
            else if proto = IPPROTO_IPV6 then protocol_filter_ip fuel k next_data next_len RTE_ETHER_TYPE_IPV6
            else if proto = IPPROTO_ICMPV6 then Some (protocol_filter_icmp6 next_data next_len)
            else Some FILTER_UNKNOWN)"

definition ff_kni_proto_filter :: "nat \<Rightarrow> kni_ports \<Rightarrow> memory \<Rightarrow> nat \<Rightarrow> u16 \<Rightarrow> FilterReturn option" where
  "ff_kni_proto_filter = protocol_filter_ip"

declare kni_set_bitmap.simps [simp del] get_ipv6_hdr_len.simps [simp del]

section \<open>The ports of a list\<close>

lemma magic_and:
  assumes "i < 8" "j < 8"
  shows "magic_bits ! i AND magic_bits ! j = (if i = j then magic_bits ! i else 0)" "magic_bits ! i \<noteq> 0"
proof -
  have "i \<in> {0, 1, 2, 3, 4, 5, 6, 7}" "j \<in> {0, 1, 2, 3, 4, 5, 6, 7}" using assms by auto
  then show "magic_bits ! i AND magic_bits ! j = (if i = j then magic_bits ! i else 0)" "magic_bits ! i \<noteq> 0"
    by (auto simp: magic_bits_def)
qed

lemma set_bitmap_length [simp]: "length (set_bitmap p bitmap) = length bitmap"
  by (simp add: set_bitmap_def Let_def)

lemma get_set_bitmap:
  assumes "length bitmap = 8192"
  shows "get_bitmap q (set_bitmap p bitmap) \<longleftrightarrow> q = htons p \<or> get_bitmap q bitmap"
proof -
  let ?p = "unat (htons p)" and ?q = "unat q"
  have lt: "?p div 8 < 8192" "?q div 8 < 8192"
    using unsigned_less[of "htons p", where 'a = nat] unsigned_less[of q, where 'a = nat] by auto
  have or: "(a OR b) AND c = (a AND c) OR (b AND c)" for a b c :: u8 by (simp add: bit.conj_disj_distrib2)
  have pos: "0 < a \<longleftrightarrow> a \<noteq> 0" for a :: u8 by (auto simp: word_gt_0)
  have or0: "a OR b \<noteq> 0 \<longleftrightarrow> a \<noteq> 0 \<or> b \<noteq> 0" for a b :: u8
    by (auto simp: bit_eq_iff bit_or_iff)
  have "q = htons p \<longleftrightarrow> ?q = ?p" by (metis word_unat_eq_iff)
  also have "\<dots> \<longleftrightarrow> ?p div 8 = ?q div 8 \<and> ?p mod 8 = ?q mod 8" by (metis div_mult_mod_eq)
  finally show ?thesis
    using assms lt magic_and[of "?p mod 8" "?q mod 8"]
    by (auto simp: get_bitmap_def set_bitmap_def Let_def or pos or0 nth_list_update)
qed

lemma get_fold_bitmap:
  "length bitmap = 8192 \<Longrightarrow> get_bitmap q (fold set_bitmap ps bitmap) \<longleftrightarrow> q \<in> htons ` set ps \<or> get_bitmap q bitmap"
  by (induction ps arbitrary: bitmap) (auto simp: get_set_bitmap)

lemma fold_bitmap_length [simp]: "length (fold set_bitmap ps bitmap) = length bitmap"
  by (induction ps arbitrary: bitmap) simp_all

lemma get_zero_bitmap: "\<not> get_bitmap q (replicate 8192 0)"
proof -
  have "unat q div 8 < 8192" using unsigned_less[of q, where 'a = nat] by auto
  then show ?thesis by (simp add: get_bitmap_def)
qed

lemma scan_dec_rest:
  assumes "s = [] \<or> \<not> isdigit (hd s)"
  shows "scan_num (dec n @ s) = Some (False, n, s)"
proof -
  have d: "\<forall>c \<in> set (dec n). isdigit c" using dec_digits[of n] by (simp add: list_all_iff)
  have tw: "takeWhile isdigit (dec n @ s) = dec n" "dropWhile isdigit (dec n @ s) = s"
    using assms d by (cases s; simp add: takeWhile_append2 dropWhile_append2)+
  obtain c cs where c: "dec n = c # cs" using dec_digits[of n] by (cases "dec n") auto
  have "isdigit c" using d c by simp
  then have "\<not> isspace c" "c \<noteq> CHR ''-''" "c \<noteq> CHR ''+''" using digit_props by blast+
  moreover from this have "dropWhile isspace (dec n @ s) = dec n @ s" by (simp add: c)
  moreover have "dec_value (c # cs) = n" using dec_value_dec[of n] c by simp
  ultimately show ?thesis using tw by (simp add: scan_num_def Let_def c flip: append_Cons)
qed

lemma atoi_dec_rest: "n < 2 ^ 31 \<Longrightarrow> s = [] \<or> \<not> isdigit (hd s) \<Longrightarrow> atoi (dec n @ s) = int n"
  by (simp add: atoi_def strtol_def scan_dec_rest LONG_MAX_def to_int_small)

lemma dec_no_sep: "c \<in> set (dec n) \<Longrightarrow> c \<noteq> CHR '','' \<and> c \<noteq> CHR ''-''"
  using dec_digits[of n] digit_props by (auto simp: list_all_iff)

lemma strchr_pos_append:
  "c \<notin> set xs \<Longrightarrow> strchr_pos c (xs @ ys) = map_option (\<lambda>i. length xs + i) (strchr_pos c ys)"
  by (induction xs) (auto simp: strchr_pos_def split: if_splits)

lemma strchr_pos_Cons: "strchr_pos c (x # xs) = (if x = c then Some 0 else map_option Suc (strchr_pos c xs))"
  by (simp add: strchr_pos_def)

lemma strchr_pos_Nil: "strchr_pos c [] = None"
  by (simp add: strchr_pos_def)

text \<open>What may stand behind an item.\<close>

definition item_end :: "string \<Rightarrow> bool" where
  "item_end s \<longleftrightarrow> s = [] \<or> hd s = CHR '',''"

definition item_ports :: "list_item \<Rightarrow> u16 list" where
  "item_ports item = map of_nat (item_values item)"

primrec item_below :: "nat \<Rightarrow> list_item \<Rightarrow> bool" where
  "item_below m (Single n) = (n < m)"
| "item_below m (Range a b) = (a < m \<and> b < m)"

lemma item_end_atoi: "n < 2 ^ 31 \<Longrightarrow> item_end s \<Longrightarrow> atoi (dec n @ s) = int n"
  by (rule atoi_dec_rest) (auto simp: item_end_def isdigit_def code_def)

lemma upto_upt: "[int a..int b] = map int [a..<Suc b]"
proof (rule nth_equalityI)
  fix i assume "i < length [int a..int b]"
  then show "[int a..int b] ! i = map int [a..<Suc b] ! i" by (simp add: nth_upto del: upt_Suc)
qed (simp, linarith)

lemma bitmap_item_text:
  assumes "item_below 65536 item" "item_end s"
  shows "bitmap_item (item_text item @ s) bitmap = fold set_bitmap (item_ports item) bitmap"
proof (cases item)
  case (Single n)
  have n: "atoi (dec n @ s) = int n" using assms by (intro item_end_atoi) (simp_all add: Single)
  have dash: "strchr_pos (CHR ''-'') (dec n @ s) = map_option (\<lambda>i. length (dec n) + i) (strchr_pos (CHR ''-'') s)"
    using dec_no_sep by (intro strchr_pos_append) blast
  have comma: "strchr_pos (CHR '','') (dec n @ s) = map_option (\<lambda>i. length (dec n) + i) (strchr_pos (CHR '','') s)"
    using dec_no_sep by (intro strchr_pos_append) blast
  have "strchr_pos (CHR ''-'') s = None \<or> strchr_pos (CHR '','') s = Some 0"
    using assms(2) by (cases s) (auto simp: item_end_def strchr_pos_Nil strchr_pos_Cons)
  then show ?thesis by (auto simp: Single bitmap_item_def n dash comma item_ports_def split: option.splits)
next
  case (Range a b)
  let ?s = "dec b @ s"
  have a: "atoi (dec a @ CHR ''-'' # ?s) = int a" using assms(1)
    by (intro atoi_dec_rest) (simp_all add: Range isdigit_def code_def)
  have b: "atoi ?s = int b" using assms by (intro item_end_atoi) (simp_all add: Range)
  have "strchr_pos (CHR ''-'') (dec a @ CHR ''-'' # ?s) = map_option (\<lambda>i. length (dec a) + i) (strchr_pos (CHR ''-'') (CHR ''-'' # ?s))"
    using dec_no_sep by (intro strchr_pos_append) blast
  then have dash: "strchr_pos (CHR ''-'') (dec a @ CHR ''-'' # ?s) = Some (length (dec a))"
    by (simp add: strchr_pos_Cons)
  have "CHR '','' \<notin> set (dec a @ CHR ''-'' # dec b)" using dec_no_sep by auto
  from strchr_pos_append[OF this, of s]
  have comma: "strchr_pos (CHR '','') (dec a @ CHR ''-'' # ?s) =
      map_option (\<lambda>i. length (dec a) + 1 + length (dec b) + i) (strchr_pos (CHR '','') s)"
    by (simp add: ac_simps)
  have ne: "0 < int (length (dec b)) + int i" for i using dec_digits[of b] by (simp add: add_pos_nonneg)
  have "bitmap_item (dec a @ CHR ''-'' # ?s) bitmap = fold (\<lambda>i. set_bitmap (of_int i)) [int a..int b] bitmap"
    by (auto simp: bitmap_item_def dash comma a b ne split: option.splits)
  then show ?thesis by (simp add: Range item_ports_def upto_upt fold_map comp_def del: upt_Suc)
qed

lemma item_no_comma: "CHR '','' \<notin> set (item_text item)"
  using dec_no_sep by (cases item) auto

lemma kni_set_bitmap_text:
  assumes "items \<noteq> []" "list_all (item_below 65536) items"
  shows "kni_set_bitmap (list_text items) bitmap = fold set_bitmap (map of_nat (list_values items)) bitmap"
  using assms
proof (induction items arbitrary: bitmap)
  case (Cons item items)
  note no_comma = strchr_pos_append[OF item_no_comma, of item]
  show ?case
  proof (cases items)
    case Nil
    have "strchr_pos (CHR '','') (item_text item) = None" using item_no_comma by (simp add: strchr_pos_def)
    then show ?thesis using Cons.prems bitmap_item_text[of item "[]" bitmap]
      by (subst kni_set_bitmap.simps) (simp add: Nil list_text_def list_values_def item_ports_def item_end_def)
  next
    case (Cons item2 items2)
    let ?rest = "list_text items"
    have split: "list_text (item # items) = item_text item @ CHR '','' # ?rest" by (simp add: list_text_def Cons)
    have pos: "strchr_pos (CHR '','') (item_text item @ CHR '','' # ?rest) = Some (length (item_text item))"
      by (simp add: no_comma strchr_pos_Cons)
    have "bitmap_item (item_text item @ CHR '','' # ?rest) bitmap = fold set_bitmap (item_ports item) bitmap"
      using Cons.prems by (intro bitmap_item_text) (simp_all add: item_end_def)
    then have "kni_set_bitmap (list_text (item # items)) bitmap =
        kni_set_bitmap ?rest (fold set_bitmap (item_ports item) bitmap)"
      unfolding split by (subst kni_set_bitmap.simps) (simp add: pos)
    then show ?thesis using Cons.IH Cons.prems Cons by (simp add: list_values_def item_ports_def)
  qed
qed simp

lemma item_below_values: "item_below m item \<Longrightarrow> v \<in> set (item_values item) \<Longrightarrow> v < m"
  by (cases item) auto

lemma list_values_below: "list_all (item_below m) items \<Longrightarrow> v \<in> set (list_values items) \<Longrightarrow> v < m"
  by (auto simp: list_values_def list_all_iff dest: item_below_values)

text \<open>A bit of the bitmap is set exactly when its port is listed.\<close>

lemma port_bitmap_listed:
  assumes "items \<noteq> []" "list_all (item_below 65536) items"
  shows "get_bitmap (htons p) (port_bitmap (Some (list_text items))) \<longleftrightarrow> unat p \<in> set (list_values items)"
proof -
  have "p \<in> of_nat ` set (list_values items) \<longleftrightarrow> unat p \<in> set (list_values items)"
  proof
    assume "p \<in> of_nat ` set (list_values items)"
    then obtain v where "v \<in> set (list_values items)" "p = of_nat v" by blast
    then show "unat p \<in> set (list_values items)" using list_values_below[OF assms(2)] by (simp add: unat_of_nat)
  next
    assume "unat p \<in> set (list_values items)"
    then show "p \<in> of_nat ` set (list_values items)" by (intro image_eqI[where x = "unat p"]) simp_all
  qed
  moreover have "htons p \<in> htons ` A \<longleftrightarrow> p \<in> A" for A by auto
  ultimately show ?thesis
    using get_zero_bitmap by (simp add: port_bitmap_def Let_def kni_set_bitmap_text[OF assms] get_fold_bitmap)
qed

section \<open>What the filter reads\<close>

text \<open>The class of a packet depends on its own bytes only: the filter reads up to two bytes behind the end of a packet
  that stops at an IPv6 extension header, but their values have no effect.\<close>

text \<open>Two memories with the same packet.\<close>

definition same_packet :: "nat \<Rightarrow> memory \<Rightarrow> memory \<Rightarrow> bool" where
  "same_packet len d e \<longleftrightarrow> (\<forall>i < len. d i = e i)"

lemma same_packet_shift: "same_packet len d e \<Longrightarrow> same_packet (len - n) (shift d n) (shift e n)"
  by (auto simp: same_packet_def shift_def)

lemma same_packet_at: "same_packet len d e \<Longrightarrow> i < len \<Longrightarrow> d i = e i"
  by (simp add: same_packet_def)

lemma shift_shift [simp]: "shift (shift d m) n = shift d (m + n)"
  by (simp add: shift_def ac_simps)

lemma ext_hdr_len_short:
  assumes "len \<le> 1" "ext_hdr_len proto d = Some n"
  shows "len \<le> n"
  using assms ext_hdr_len_pos[OF assms(2)] by simp

lemma ext_hdr_len_same:
  "same_packet len d e \<Longrightarrow> 1 < len \<Longrightarrow> ext_hdr_len proto d = ext_hdr_len proto e"
  using same_packet_at[of len d e 1] by (simp add: ext_hdr_len_def)

lemma ext_hdr_len_none: "ext_hdr_len proto d = None \<longleftrightarrow> ext_hdr_len proto e = None"
  by (simp add: ext_hdr_len_def)

lemma hdr_len_le: "snd (get_ipv6_hdr_len proto data len) \<le> len"
proof (induction proto data len rule: get_ipv6_hdr_len.induct)
  case (1 proto data len)
  show ?case
    by (subst get_ipv6_hdr_len.simps) (use 1 in \<open>auto split: option.splits prod.splits\<close>)
qed

lemma hdr_len_same: "same_packet len d e \<Longrightarrow> get_ipv6_hdr_len proto d len = get_ipv6_hdr_len proto e len"
proof (induction proto d len arbitrary: e rule: get_ipv6_hdr_len.induct)
  case (1 proto data len)
  show ?case
  proof (cases "\<exists>ext. ext_hdr_len proto data = Some ext \<and> ext < len")
    case True
    then obtain ext where ext: "ext_hdr_len proto data = Some ext" "ext < len" by blast
    then have "1 < len" using ext_hdr_len_pos[OF ext(1)] by simp
    then have e: "ext_hdr_len proto e = Some ext" "e 0 = data 0"
      using ext(1) ext_hdr_len_same[OF 1(2)] same_packet_at[OF 1(2), of 0] by simp_all
    have "get_ipv6_hdr_len (data 0) (shift data ext) (len - ext) = get_ipv6_hdr_len (data 0) (shift e ext) (len - ext)"
      using ext by (intro 1(1) same_packet_shift[OF 1(2)]) simp_all
    then show ?thesis by (subst (1 2) get_ipv6_hdr_len.simps) (simp add: ext e)
  next
    case False
    then have "ext_hdr_len proto e = Some n \<Longrightarrow> len \<le> n" for n
      using ext_hdr_len_short[of len proto e n] ext_hdr_len_same[OF 1(2)] by force
    then show ?thesis using False ext_hdr_len_none[of proto data e]
      by (subst (1 2) get_ipv6_hdr_len.simps) (auto split: option.splits)
  qed
qed

lemma ip_header_same: "same_packet len d e \<Longrightarrow> ip_header d len t = ip_header e len t"
  using hdr_len_same[OF same_packet_shift[of len d e 40]] same_packet_at[of len d e]
  by (simp add: ip_header_def Let_def)

lemma filter_same: "same_packet len d e \<Longrightarrow> protocol_filter_ip fuel k d len t = protocol_filter_ip fuel k e len t"
proof (induction fuel arbitrary: d e len t)
  case (Suc fuel)
  have tcp: "protocol_filter_tcp k (shift d n) (len - n) = protocol_filter_tcp k (shift e n) (len - n)"
    and udp: "protocol_filter_udp k (shift d n) (len - n) = protocol_filter_udp k (shift e n) (len - n)"
    and icmp: "protocol_filter_icmp6 (shift d n) (len - n) = protocol_filter_icmp6 (shift e n) (len - n)" for n
    using same_packet_at[OF same_packet_shift[OF Suc.prems, of n]]
    by (simp_all add: protocol_filter_tcp_def protocol_filter_udp_def protocol_filter_icmp6_def)
  show ?case
    using Suc.IH[OF same_packet_shift[OF Suc.prems]] ip_header_same[OF Suc.prems]
    by (simp add: tcp udp icmp Let_def split: option.splits)
qed simp

section \<open>When the filter returns\<close>

text \<open>An IPv4 header of length 0 that announces another IPv4 header: the next header is the same one.\<close>

definition endless_header :: "memory \<Rightarrow> nat \<Rightarrow> nat \<Rightarrow> bool" where
  "endless_header data len off \<longleftrightarrow> off + 20 \<le> len \<and> data off AND 0x0f = 0 \<and> data (off + 9) = IPPROTO_IPIP"

lemma nibble: "unat (b AND 0x0f :: u8) = unat b mod 16"
proof -
  have "b AND 0x0f = take_bit 4 b" by (simp add: take_bit_eq_mask mask_eq_exp_minus_1)
  moreover have "unat (take_bit 4 b) = take_bit 4 (unat b)" by (rule unsigned_take_bit_eq)
  moreover have "take_bit 4 (unat b) = unat b mod 16" by (simp add: take_bit_eq_mod)
  ultimately show ?thesis by (simp only:)
qed

lemma nibble_len: "unat (push_bit 2 (b AND 0x0f) :: u8) = 4 * (unat b mod 16)"
proof -
  have "unat (push_bit 2 (b AND 0x0f) :: u8) = unat (b AND 0x0f) * 4 mod 256"
    by (simp only: push_bit_eq_mult unat_word_ariths) simp
  also have "\<dots> = 4 * (unat b mod 16)" unfolding nibble by simp
  finally show ?thesis .
qed

lemma nibble_0: "b AND 0x0f = 0 \<longleftrightarrow> unat b mod 16 = 0" for b :: u8
  unfolding nibble[symmetric] by (simp only: unat_eq_zero)

lemma ip_header_ipv4:
  "ip_header data len RTE_ETHER_TYPE_IPV4 = Some (proto, h) \<longleftrightarrow>
    20 \<le> len \<and> h = 4 * (unat (data 0) mod 16) \<and> h \<le> len \<and> proto = data 9"
  unfolding ip_header_def Let_def nibble_len by auto

lemma ip_header_ipv6:
  "ip_header data len RTE_ETHER_TYPE_IPV6 = Some (proto, h) \<Longrightarrow> 40 \<le> h \<and> h \<le> len"
  by (auto simp: ip_header_def Let_def split: if_splits prod.splits)

text \<open>Every header but the endless one brings the walk forward; the bound counts an IPv4 header of length 0 before an
  IPv6 header as a step of its own.\<close>

lemma filter_returns:
  assumes "2 * len + (if t = RTE_ETHER_TYPE_IPV4 then 1 else 0) < fuel" "\<forall>off. \<not> endless_header data len off"
  shows "protocol_filter_ip fuel k data len t \<noteq> None"
  using assms
proof (induction fuel arbitrary: data len t)
  case (Suc fuel)
  show ?case
  proof (cases "ip_header data len t")
    case (Some ph)
    obtain proto h where ph: "ip_header data len t = Some (proto, h)" using Some by (cases ph) auto
    have le: "h \<le> len" using ph by (auto simp: ip_header_def Let_def split: if_splits prod.splits)
    have inner: "\<forall>off. \<not> endless_header (shift data h) (len - h) off"
    proof
      fix off
      show "\<not> endless_header (shift data h) (len - h) off"
        using Suc.prems(2)[rule_format, of "h + off"] le by (simp add: endless_header_def shift_def ac_simps)
    qed
    have pos: "0 < h \<or> t = RTE_ETHER_TYPE_IPV4 \<and> proto \<noteq> IPPROTO_IPIP"
      using ph Suc.prems(2)[rule_format, of 0] ip_header_ipv6[of data len proto h] ip_header_ipv4[of data len proto h]
      by (cases "t = RTE_ETHER_TYPE_IPV4"; cases "t = RTE_ETHER_TYPE_IPV6")
        (auto simp: endless_header_def nibble_0 ip_header_def)
    have v4: "proto = IPPROTO_IPIP \<Longrightarrow> protocol_filter_ip fuel k (shift data h) (len - h) RTE_ETHER_TYPE_IPV4 \<noteq> None"
      using pos le Suc.prems(1) by (intro Suc.IH inner) (auto split: if_splits)
    have v6: "protocol_filter_ip fuel k (shift data h) (len - h) RTE_ETHER_TYPE_IPV6 \<noteq> None"
      using pos le Suc.prems(1) by (intro Suc.IH inner) (auto split: if_splits)
    show ?thesis using v4 v6 by (simp add: ph Let_def)
  qed simp
qed simp

lemma filter_endless:
  assumes "endless_header data len 0"
  shows "protocol_filter_ip fuel k data len RTE_ETHER_TYPE_IPV4 = None"
proof (induction fuel)
  case (Suc fuel)
  have "ip_header data len RTE_ETHER_TYPE_IPV4 = Some (IPPROTO_IPIP, 0)"
    using assms by (simp add: ip_header_ipv4 endless_header_def nibble_0)
  moreover have "shift data 0 = data" by (simp add: shift_def)
  ultimately show ?case using Suc by (simp add: Let_def)
qed simp

text \<open>More fuel does not change a result.\<close>

lemma filter_more_fuel:
  "protocol_filter_ip fuel k data len t = Some r \<Longrightarrow> fuel \<le> fuel' \<Longrightarrow> protocol_filter_ip fuel' k data len t = Some r"
proof (induction fuel arbitrary: fuel' data len t)
  case (Suc fuel)
  then obtain f where f: "fuel' = Suc f" "fuel \<le> f" by (cases fuel') auto
  show ?case using Suc.prems(1) Suc.IH[OF _ f(2)] by (auto simp: f(1) Let_def split: option.splits prod.splits if_splits)
qed simp

section \<open>The classification\<close>

text \<open>The protocol of the innermost IP header of a packet and the offset of what it carries.\<close>

inductive payload :: "memory \<Rightarrow> nat \<Rightarrow> u16 \<Rightarrow> u8 \<Rightarrow> nat \<Rightarrow> bool" where
  direct: "ip_header data len t = Some (proto, h) \<Longrightarrow> proto \<notin> {IPPROTO_IPIP, IPPROTO_IPV6} \<Longrightarrow> payload data len t proto h"
| ipip: "ip_header data len t = Some (IPPROTO_IPIP, h) \<Longrightarrow> payload (shift data h) (len - h) RTE_ETHER_TYPE_IPV4 proto n \<Longrightarrow>
    payload data len t proto (h + n)"
| ipv6: "ip_header data len t = Some (IPPROTO_IPV6, h) \<Longrightarrow> payload (shift data h) (len - h) RTE_ETHER_TYPE_IPV6 proto n \<Longrightarrow>
    payload data len t proto (h + n)"

definition dst_port :: "memory \<Rightarrow> nat" where
  "dst_port data = 256 * unat (data 2) + unat (data 3)"

text \<open>What becomes of a packet that carries \<open>proto\<close>, given the ports of the kernel.\<close>

definition kernel_class :: "nat set \<Rightarrow> nat set \<Rightarrow> u8 \<Rightarrow> memory \<Rightarrow> nat \<Rightarrow> FilterReturn" where
  "kernel_class tcp udp proto data len =
    (if proto = IPPROTO_OSPFIGP then FILTER_OSPF
     else if proto = IPPROTO_TCP \<and> 20 \<le> len \<and> dst_port data \<in> tcp then FILTER_KNI
     else if proto = IPPROTO_UDP \<and> 8 \<le> len \<and> dst_port data \<in> udp then FILTER_KNI
     else if proto = IPPROTO_ICMPV6 \<and> 8 \<le> len \<and> unat (data 0) \<in> {133..137} then FILTER_NDP
     else FILTER_UNKNOWN)"

lemma port_read: "bytes_u16 a b = htons (of_nat (256 * unat a + unat b))"
proof -
  have n: "(of_nat (256 * unat a + unat b) :: u16) = push_bit 8 (ucast a) OR ucast b"
  proof -
    have "(push_bit 8 (ucast a) OR ucast b :: u16) = push_bit 8 (ucast a) + ucast b"
      by (rule disjunctive_add[symmetric]) (auto simp: bit_simps dest: bit_u8_less)
    then show ?thesis by (simp add: push_bit_eq_mult)
  qed
  show ?thesis unfolding n
    by (rule bit_word_eqI) (auto simp: bytes_u16_def htons_def bit_simps dest: bit_u8_less)
qed

lemma dst_port_less: "dst_port data < 65536"
  using unsigned_less[of "data 2", where 'a = nat] unsigned_less[of "data 3", where 'a = nat] by (simp add: dst_port_def)

definition kni_lists :: "list_item list \<Rightarrow> list_item list \<Rightarrow> kni_ports" where
  "kni_lists tcp udp = ff_kni_ports True (Some (list_text tcp)) (Some (list_text udp))"

lemma listed_port:
  assumes "items \<noteq> []" "list_all (item_below 65536) items"
  shows "get_bitmap (bytes_u16 (data 2) (data 3)) (port_bitmap (Some (list_text items))) \<longleftrightarrow> dst_port data \<in> set (list_values items)"
  unfolding port_read port_bitmap_listed[OF assms] dst_port_def[symmetric]
  using dst_port_less[of data] by (simp add: unat_of_nat)

lemma icmp6_class: "protocol_filter_icmp6 data len = (if 8 \<le> len \<and> unat (data 0) \<in> {133..137} then FILTER_NDP else FILTER_UNKNOWN)"
  by (auto simp: protocol_filter_icmp6_def word_le_nat_alt)

lemma filter_payload:
  assumes "tcp \<noteq> []" "list_all (item_below 65536) tcp" "udp \<noteq> []" "list_all (item_below 65536) udp"
    "payload data len t proto n"
  shows "\<exists>fuel. protocol_filter_ip fuel (kni_lists tcp udp) data len t =
    Some (kernel_class (set (list_values tcp)) (set (list_values udp)) proto (shift data n) (len - n))"
  using assms(5)
proof induction
  case (direct data len t proto h)
  then have "protocol_filter_ip 1 (kni_lists tcp udp) data len t =
    Some (kernel_class (set (list_values tcp)) (set (list_values udp)) proto (shift data h) (len - h))"
    by (simp add: kernel_class_def kni_lists_def ff_kni_ports_def protocol_filter_tcp_def protocol_filter_udp_def
        protocol_filter_l4_def listed_port[OF assms(1,2)] listed_port[OF assms(3,4)] icmp6_class Let_def)
  then show ?case by blast
next
  case (ipip data len t h proto n)
  then obtain fuel where "protocol_filter_ip fuel (kni_lists tcp udp) (shift data h) (len - h) RTE_ETHER_TYPE_IPV4 =
      Some (kernel_class (set (list_values tcp)) (set (list_values udp)) proto (shift data (h + n)) (len - (h + n)))"
    by auto
  then show ?case using ipip.hyps(1) by (intro exI[where x = "Suc fuel"]) (simp add: Let_def)
next
  case (ipv6 data len t h proto n)
  then obtain fuel where "protocol_filter_ip fuel (kni_lists tcp udp) (shift data h) (len - h) RTE_ETHER_TYPE_IPV6 =
      Some (kernel_class (set (list_values tcp)) (set (list_values udp)) proto (shift data (h + n)) (len - (h + n)))"
    by auto
  then show ?case using ipv6.hyps(1) by (intro exI[where x = "Suc fuel"]) (simp add: Let_def)
qed

section \<open>Properties\<close>


definition packet :: "u8 list \<Rightarrow> memory" where
  "packet bs = (\<lambda>i. if i < length bs then bs ! i else 0)"

definition ipv4_hdr :: "u8 \<Rightarrow> u8 list" where
  "ipv4_hdr proto = [0x45, 0, 0, 0, 0, 0, 0, 0, 64, proto, 0, 0, 10, 0, 0, 1, 10, 0, 0, 2]"

definition tcp_to_80 :: "u8 list" where
  "tcp_to_80 = [192, 1, 0, 80] @ replicate 16 0"


text \<open>C14. The filter returns within a number of steps that the length of the packet bounds, whatever the packet, unless it
  holds an IPv4 header of length 0 that announces a further IPv4 header; on a packet that starts with such a header the
  filter calls itself with the same arguments for ever.\<close>

theorem kni_filter_terminates:
  "((\<forall>off. \<not> endless_header data len off) \<longrightarrow>
     (\<exists>r. \<forall>fuel. 2 * len + 2 \<le> fuel \<longrightarrow> ff_kni_proto_filter fuel k data len t = Some r)) \<and>
   (endless_header data len 0 \<longrightarrow> (\<forall>fuel. ff_kni_proto_filter fuel k data len RTE_ETHER_TYPE_IPV4 = None))"
proof (intro conjI impI)
  assume "\<forall>off. \<not> endless_header data len off"
  then obtain r where "protocol_filter_ip (2 * len + 2) k data len t = Some r"
    using filter_returns[of len t "2 * len + 2" data k] by (cases "t = RTE_ETHER_TYPE_IPV4") (simp_all del: protocol_filter_ip.simps, blast+)
  then show "\<exists>r. \<forall>fuel. 2 * len + 2 \<le> fuel \<longrightarrow> ff_kni_proto_filter fuel k data len t = Some r"
    unfolding ff_kni_proto_filter_def by (intro exI[where x = r]) (blast intro: filter_more_fuel)
next
  assume "endless_header data len 0"
  then show "\<forall>fuel. ff_kni_proto_filter fuel k data len RTE_ETHER_TYPE_IPV4 = None"
    unfolding ff_kni_proto_filter_def by (blast intro: filter_endless)
qed

theorem kni_filter_terminates_witness:
  "(\<exists>r. ff_kni_proto_filter 82 (ff_kni_ports True None None) (packet (ipv4_hdr IPPROTO_TCP @ tcp_to_80)) 40 RTE_ETHER_TYPE_IPV4 = Some r) \<and>
   (\<forall>fuel. ff_kni_proto_filter fuel (ff_kni_ports True None None) (packet ((ipv4_hdr IPPROTO_IPIP)[0 := 0x40])) 20 RTE_ETHER_TYPE_IPV4 = None)"
proof
  let ?d = "packet (ipv4_hdr IPPROTO_TCP @ tcp_to_80)"
  have "list_all (\<lambda>off. \<not> endless_header ?d 40 off) [0..<21]" by code_simp
  moreover have "\<not> endless_header ?d 40 off" if "21 \<le> off" for off using that by (simp add: endless_header_def)
  ultimately have "\<forall>off. \<not> endless_header ?d 40 off" by (auto simp: list_all_iff)
  then show "\<exists>r. ff_kni_proto_filter 82 (ff_kni_ports True None None) ?d 40 RTE_ETHER_TYPE_IPV4 = Some r"
    using kni_filter_terminates[of ?d 40 "ff_kni_ports True None None" RTE_ETHER_TYPE_IPV4] by auto
  have "endless_header (packet ((ipv4_hdr IPPROTO_IPIP)[0 := 0x40])) 20 0" by code_simp
  then show "\<forall>fuel. ff_kni_proto_filter fuel (ff_kni_ports True None None) (packet ((ipv4_hdr IPPROTO_IPIP)[0 := 0x40])) 20
      RTE_ETHER_TYPE_IPV4 = None"
    using kni_filter_terminates by blast
qed

text \<open>An IPv6 packet with a hop-by-hop header of 8 bytes, whose length byte is 0, before a TCP header with a listed port
  is not recognised: the filter takes the header for one byte long.\<close>

definition ipv6_hdr :: "u8 \<Rightarrow> u8 list" where
  "ipv6_hdr proto = [0x60, 0, 0, 0, 0, 28, proto, 64] @ replicate 32 0"

theorem ipv6_options_misread:
  "ip_header (packet (ipv6_hdr IPPROTO_HOPOPTS @ [IPPROTO_TCP, 0, 1, 4, 0, 0, 0, 0] @ tcp_to_80)) 68 RTE_ETHER_TYPE_IPV6 =
     Some (IPPROTO_TCP, 41) \<and>
   kernel_class {80} {} IPPROTO_TCP (packet tcp_to_80) 20 = FILTER_KNI \<and>
   kernel_class {80} {} IPPROTO_TCP
     (shift (packet (ipv6_hdr IPPROTO_HOPOPTS @ [IPPROTO_TCP, 0, 1, 4, 0, 0, 0, 0] @ tcp_to_80)) 41) 27 = FILTER_UNKNOWN"
  by code_simp

end
