(* ===== verification/FF_Ring.thy ===== *)
theory FF_Ring
  imports FF_Prelude
begin

text \<open>
  The rings of DPDK (\<open>dpdk/lib/ring\<close>) that pass packets between the processes of F-Stack, to the kernel and back:
  the indices of producer and consumer run over all 32-bit numbers and are masked at every access. One call at a
  time is modelled here (\<open>FF_Ring_Mt\<close> has the single accesses), with the generic memory model of x86; the four indices are the two heads and the two tails.

  A ring is shown to be a bounded queue, across the wrap-around of the indices and of the array.
\<close>

section \<open>The ring\<close>

record 'a rte_ring =
  ring_size :: u32
  ring_mask :: u32
  ring_capacity :: u32
  prod_head :: u32
  prod_tail :: u32
  cons_head :: u32
  cons_tail :: u32
  ring_objs :: "'a list"

datatype rte_ring_queue_behavior = RTE_RING_QUEUE_FIXED | RTE_RING_QUEUE_VARIABLE

definition RTE_RING_SZ_MASK :: u32 where "RTE_RING_SZ_MASK = 0x7fffffff"

definition POWEROF2 :: "u32 \<Rightarrow> bool" where
  "POWEROF2 x \<longleftrightarrow> (x - 1) AND x = 0"

text \<open>A ring without the flag for an exact size; \<open>x\<close> is what the fresh memory of the elements holds.\<close>

definition rte_ring_init :: "'a \<Rightarrow> u32 \<Rightarrow> 'a rte_ring option" where
  "rte_ring_init x count =
    (if \<not> POWEROF2 count \<or> count > RTE_RING_SZ_MASK then None
     else Some \<lparr>ring_size = count, ring_mask = count - 1, ring_capacity = count - 1, prod_head = 0, prod_tail = 0,
            cons_head = 0, cons_tail = 0, ring_objs = replicate (unat count) x\<rparr>)"

definition rte_ring_reset :: "'a rte_ring \<Rightarrow> 'a rte_ring" where
  "rte_ring_reset r = r\<lparr>prod_head := 0, prod_tail := 0, cons_head := 0, cons_tail := 0\<rparr>"

section \<open>Enqueue\<close>

text \<open>The number of elements that go in, the old and the new head, and the free entries before.\<close>

definition move_prod_head :: "'a rte_ring \<Rightarrow> u32 \<Rightarrow> rte_ring_queue_behavior \<Rightarrow> u32 \<times> u32 \<times> u32 \<times> 'a rte_ring" where
  "move_prod_head r n behavior =
    (let old_head = prod_head r;
         free_entries = ring_capacity r + cons_tail r - old_head;
         n = (if n > free_entries then (if behavior = RTE_RING_QUEUE_FIXED then 0 else free_entries) else n)
     in if n = 0 then (0, old_head, old_head, r)
        else (n, old_head, old_head + n, r\<lparr>prod_head := old_head + n\<rparr>))"

text \<open>Copying elements to consecutive slots.\<close>

definition write_at :: "'a list \<Rightarrow> nat \<Rightarrow> 'a list \<Rightarrow> 'a list" where
  "write_at ring idx xs = take idx ring @ xs @ drop (idx + length xs) ring"

definition enqueue_elems :: "'a rte_ring \<Rightarrow> u32 \<Rightarrow> 'a list \<Rightarrow> 'a rte_ring" where
  "enqueue_elems r old_head xs =
    (let size = unat (ring_size r); idx = unat (old_head AND ring_mask r)
     in if idx + length xs \<le> size then r\<lparr>ring_objs := write_at (ring_objs r) idx xs\<rparr>
        else r\<lparr>ring_objs := write_at (write_at (ring_objs r) idx (take (size - idx) xs)) 0 (drop (size - idx) xs)\<rparr>)"

definition do_enqueue :: "'a rte_ring \<Rightarrow> 'a list \<Rightarrow> rte_ring_queue_behavior \<Rightarrow> u32 \<times> 'a rte_ring" where
  "do_enqueue r obj_table behavior =
    (let (n, old_head, new_head, r) = move_prod_head r (of_nat (length obj_table)) behavior
     in if n = 0 then (0, r)
        else (n, (enqueue_elems r old_head (take (unat n) obj_table))\<lparr>prod_tail := new_head\<rparr>))"

definition rte_ring_enqueue_bulk :: "'a rte_ring \<Rightarrow> 'a list \<Rightarrow> u32 \<times> 'a rte_ring" where
  "rte_ring_enqueue_bulk r obj_table = do_enqueue r obj_table RTE_RING_QUEUE_FIXED"

definition rte_ring_enqueue_burst :: "'a rte_ring \<Rightarrow> 'a list \<Rightarrow> u32 \<times> 'a rte_ring" where
  "rte_ring_enqueue_burst r obj_table = do_enqueue r obj_table RTE_RING_QUEUE_VARIABLE"

definition ENOBUFS :: int where "ENOBUFS = 105"
definition ENOENT :: int where "ENOENT = 2"

definition rte_ring_enqueue :: "'a rte_ring \<Rightarrow> 'a \<Rightarrow> int \<times> 'a rte_ring" where
  "rte_ring_enqueue r obj = (let (n, r) = rte_ring_enqueue_bulk r [obj] in (if n \<noteq> 0 then 0 else - ENOBUFS, r))"

section \<open>Dequeue\<close>

definition move_cons_head :: "'a rte_ring \<Rightarrow> u32 \<Rightarrow> rte_ring_queue_behavior \<Rightarrow> u32 \<times> u32 \<times> u32 \<times> 'a rte_ring" where
  "move_cons_head r n behavior =
    (let old_head = cons_head r;
         entries = prod_tail r - old_head;
         n = (if n > entries then (if behavior = RTE_RING_QUEUE_FIXED then 0 else entries) else n)
     in if n = 0 then (0, old_head, old_head, r)
        else (n, old_head, old_head + n, r\<lparr>cons_head := old_head + n\<rparr>))"

definition dequeue_elems :: "'a rte_ring \<Rightarrow> u32 \<Rightarrow> nat \<Rightarrow> 'a list" where
  "dequeue_elems r old_head n =
    (let size = unat (ring_size r); idx = unat (old_head AND ring_mask r)
     in if idx + n \<le> size then take n (drop idx (ring_objs r))
        else take (size - idx) (drop idx (ring_objs r)) @ take (n - (size - idx)) (ring_objs r))"

definition do_dequeue :: "'a rte_ring \<Rightarrow> u32 \<Rightarrow> rte_ring_queue_behavior \<Rightarrow> 'a list \<times> 'a rte_ring" where
  "do_dequeue r n behavior =
    (let (n, old_head, new_head, r) = move_cons_head r n behavior
     in if n = 0 then ([], r) else (dequeue_elems r old_head (unat n), r\<lparr>cons_tail := new_head\<rparr>))"

definition rte_ring_dequeue_bulk :: "'a rte_ring \<Rightarrow> u32 \<Rightarrow> 'a list \<times> 'a rte_ring" where
  "rte_ring_dequeue_bulk r n = do_dequeue r n RTE_RING_QUEUE_FIXED"

definition rte_ring_dequeue_burst :: "'a rte_ring \<Rightarrow> u32 \<Rightarrow> 'a list \<times> 'a rte_ring" where
  "rte_ring_dequeue_burst r n = do_dequeue r n RTE_RING_QUEUE_VARIABLE"

text \<open>The return code and, on success, the element.\<close>

definition rte_ring_dequeue :: "'a rte_ring \<Rightarrow> int \<times> 'a option \<times> 'a rte_ring" where
  "rte_ring_dequeue r =
    (case rte_ring_dequeue_bulk r 1 of
       ([], r) \<Rightarrow> (- ENOENT, None, r) | (x # _, r) \<Rightarrow> (0, Some x, r))"

section \<open>Counts\<close>

definition rte_ring_count :: "'a rte_ring \<Rightarrow> u32" where
  "rte_ring_count r =
    (let count = (prod_tail r - cons_tail r) AND ring_mask r in if count > ring_capacity r then ring_capacity r else count)"

definition rte_ring_free_count :: "'a rte_ring \<Rightarrow> u32" where
  "rte_ring_free_count r = ring_capacity r - rte_ring_count r"

definition rte_ring_full :: "'a rte_ring \<Rightarrow> bool" where
  "rte_ring_full r \<longleftrightarrow> rte_ring_free_count r = 0"

definition rte_ring_empty :: "'a rte_ring \<Rightarrow> bool" where
  "rte_ring_empty r \<longleftrightarrow> cons_tail r = prod_tail r"

section \<open>A ring as a queue\<close>

definition ring_used :: "'a rte_ring \<Rightarrow> nat" where
  "ring_used r = unat (prod_tail r - cons_tail r)"

definition ring_slot :: "'a rte_ring \<Rightarrow> u32 \<Rightarrow> nat" where
  "ring_slot r i = unat (i AND ring_mask r)"

definition ring_list :: "'a rte_ring \<Rightarrow> 'a list" where
  "ring_list r = map (\<lambda>i. ring_objs r ! ring_slot r (cons_tail r + of_nat i)) [0..<ring_used r]"

text \<open>Between calls each head is at its tail; the size is a power of two and the array has it.\<close>

definition ring_ok :: "'a rte_ring \<Rightarrow> bool" where
  "ring_ok r \<longleftrightarrow> (\<exists>k < 31. unat (ring_size r) = 2 ^ k) \<and> ring_mask r = ring_size r - 1 \<and> ring_capacity r = ring_mask r \<and>
     prod_head r = prod_tail r \<and> cons_head r = cons_tail r \<and> length (ring_objs r) = unat (ring_size r) \<and>
     ring_used r \<le> unat (ring_capacity r)"

section \<open>Cyclic arrays\<close>

lemma cyc_mod: "idx < N \<Longrightarrow> j < N \<Longrightarrow> (idx + j) mod N = (if idx + j < N then idx + j else idx + j - N)" for idx j N :: nat
  by (auto simp: mod_if)

lemma write_at_length: "i + length xs \<le> length ring \<Longrightarrow> length (write_at ring i xs) = length ring"
  by (simp add: write_at_def)

lemma write_at_nth:
  "i + length xs \<le> length ring \<Longrightarrow> p < length ring \<Longrightarrow>
    write_at ring i xs ! p = (if i \<le> p \<and> p < i + length xs then xs ! (p - i) else ring ! p)"
  by (auto simp: write_at_def nth_append)

definition cyc_write :: "'a list \<Rightarrow> nat \<Rightarrow> 'a list \<Rightarrow> 'a list" where
  "cyc_write ring idx xs =
    (let size = length ring
     in if idx + length xs \<le> size then write_at ring idx xs
        else write_at (write_at ring idx (take (size - idx) xs)) 0 (drop (size - idx) xs))"

definition cyc_read :: "'a list \<Rightarrow> nat \<Rightarrow> nat \<Rightarrow> 'a list" where
  "cyc_read ring idx n =
    (let size = length ring
     in if idx + n \<le> size then take n (drop idx ring)
        else take (size - idx) (drop idx ring) @ take (n - (size - idx)) ring)"

lemma cyc_write_length: "idx < length ring \<Longrightarrow> length xs \<le> length ring \<Longrightarrow> length (cyc_write ring idx xs) = length ring"
  by (simp add: cyc_write_def Let_def write_at_length)

lemma cyc_write_nth:
  assumes "idx < length ring" "length xs \<le> length ring" "j < length ring"
  shows "cyc_write ring idx xs ! ((idx + j) mod length ring) = (if j < length xs then xs ! j else ring ! ((idx + j) mod length ring))"
proof -
  have p: "(idx + j) mod length ring < length ring" using assms(3) by (intro mod_less_divisor) linarith
  show ?thesis
    using assms p cyc_mod[OF assms(1,3)]
    by (auto simp: cyc_write_def Let_def write_at_nth write_at_length)
qed

lemma cyc_read_nth:
  assumes "idx < length ring" "n \<le> length ring"
  shows "cyc_read ring idx n = map (\<lambda>j. ring ! ((idx + j) mod length ring)) [0..<n]"
proof (rule nth_equalityI)
  show "length (cyc_read ring idx n) = length (map (\<lambda>j. ring ! ((idx + j) mod length ring)) [0..<n])"
    using assms by (auto simp: cyc_read_def Let_def)
  fix j assume "j < length (cyc_read ring idx n)"
  then have j: "j < n" using assms by (auto simp: cyc_read_def Let_def split: if_splits)
  then show "cyc_read ring idx n ! j = map (\<lambda>j. ring ! ((idx + j) mod length ring)) [0..<n] ! j"
    using assms cyc_mod[OF assms(1), of j] by (auto simp: cyc_read_def Let_def nth_append ac_simps)
qed

section \<open>Masked indices\<close>

lemma mask_mod:
  fixes i size :: u32
  assumes "unat size = 2 ^ k" "k < 32"
  shows "unat (i AND (size - 1)) = unat i mod 2 ^ k"
proof -
  have "size = of_nat (unat size)" by simp
  then have "size = 2 ^ k" unfolding assms(1) by simp
  then have "i AND (size - 1) = take_bit k i" by (simp add: take_bit_eq_mask mask_eq_exp_minus_1)
  then show ?thesis by (simp add: unsigned_take_bit_eq flip: take_bit_eq_mod)
qed

lemma slot_step:
  assumes "ring_ok r"
  shows "ring_slot r (i + of_nat j) = (ring_slot r i + j) mod length (ring_objs r)"
    "ring_slot r i < length (ring_objs r)"
proof -
  obtain k where k: "k < 31" "unat (ring_size r) = 2 ^ k" "ring_mask r = ring_size r - 1" "length (ring_objs r) = 2 ^ k"
    using assms by (auto simp: ring_ok_def)
  have slot: "ring_slot r i = unat i mod 2 ^ k" for i using mask_mod[OF k(2)] k(1,3) by (simp add: ring_slot_def)
  have "(2 :: nat) ^ k dvd 2 ^ 32" using k(1) by (intro le_imp_power_dvd) simp
  then have "(unat i + j) mod 2 ^ 32 mod 2 ^ k = (unat i + j) mod 2 ^ k" by (rule mod_mod_cancel)
  then show "ring_slot r (i + of_nat j) = (ring_slot r i + j) mod length (ring_objs r)"
    by (simp add: slot k(4) unat_word_ariths unat_of_nat mod_simps)
  show "ring_slot r i < length (ring_objs r)" by (simp add: slot k(4))
qed

section \<open>The operations on the queue\<close>

definition ring_free :: "'a rte_ring \<Rightarrow> nat" where
  "ring_free r = unat (ring_capacity r) - ring_used r"

definition enqueued :: "rte_ring_queue_behavior \<Rightarrow> nat \<Rightarrow> nat \<Rightarrow> nat" where
  "enqueued behavior n room = (if n \<le> room then n else if behavior = RTE_RING_QUEUE_FIXED then 0 else room)"

lemma enqueued_le: "enqueued behavior n room \<le> room" "enqueued behavior n room \<le> n"
  by (auto simp: enqueued_def)

lemma ring_list_length: "length (ring_list r) = ring_used r"
  by (simp add: ring_list_def)

lemma ring_ok_sizes:
  assumes "ring_ok r"
  shows "unat (ring_capacity r) + 1 = length (ring_objs r)" "unat (ring_capacity r) < 2 ^ 30" "ring_used r \<le> unat (ring_capacity r)"
proof -
  obtain k where k: "k < 31" "unat (ring_size r) = 2 ^ k" "ring_capacity r = ring_size r - 1" "length (ring_objs r) = 2 ^ k"
    using assms by (auto simp: ring_ok_def)
  then have nz: "ring_size r \<noteq> 0" by auto
  show "unat (ring_capacity r) + 1 = length (ring_objs r)" using k(2,4) nz by (simp add: k(3))
  have "(2 :: nat) ^ k \<le> 2 ^ 30" using k(1) by (intro power_increasing) auto
  then show "unat (ring_capacity r) < 2 ^ 30" using k(2) nz by (simp add: k(3))
  show "ring_used r \<le> unat (ring_capacity r)" using assms unfolding ring_ok_def by blast
qed

lemma free_entries:
  assumes "ring_ok r"
  shows "unat (ring_capacity r + cons_tail r - prod_head r) = ring_free r"
proof -
  have "prod_tail r - cons_tail r \<le> ring_capacity r" using ring_ok_sizes(3)[OF assms] by (simp add: word_le_nat_alt ring_used_def)
  then have "unat (ring_capacity r - (prod_tail r - cons_tail r)) = ring_free r" by (simp add: unat_sub ring_free_def ring_used_def)
  moreover have "prod_head r = prod_tail r" using assms by (simp add: ring_ok_def)
  ultimately show ?thesis by (simp add: algebra_simps)
qed

lemma move_prod_head_result:
  fixes behavior :: rte_ring_queue_behavior
  assumes "ring_ok r" "m < 2 ^ 32"
  defines "n \<equiv> enqueued behavior m (ring_free r)"
  shows "move_prod_head r (of_nat m) behavior =
    (of_nat n, prod_tail r, prod_tail r + of_nat n, r\<lparr>prod_head := prod_tail r + of_nat n\<rparr>)"
proof -
  let ?free = "ring_capacity r + cons_tail r - prod_head r"
  have "ring_free r < 2 ^ 32" using ring_ok_sizes(2)[OF assms(1)] by (simp add: ring_free_def)
  then have free: "?free = of_nat (ring_free r)" "(of_nat m > ?free) = (m > ring_free r)"
    using free_entries[OF assms(1)] assms(2) by (auto simp: word_unat_eq_iff word_less_nat_alt unat_of_nat)
  have pick: "(if of_nat m > ?free then (if behavior = RTE_RING_QUEUE_FIXED then 0 else ?free) else of_nat m) = (of_nat n :: u32)"
    using free by (auto simp: n_def enqueued_def)
  have zero: "(of_nat n :: u32) = 0 \<longleftrightarrow> n = 0"
    using assms(2) enqueued_le(2)[of behavior m "ring_free r"] by (simp add: n_def word_unat_eq_iff unat_of_nat)
  show ?thesis
    using assms(1) unfolding move_prod_head_def Let_def pick by (auto simp: zero ring_ok_def)
qed

text \<open>The contents as the slots from that of the consumer's tail on.\<close>

lemma ring_list_slots:
  "ring_ok r \<Longrightarrow> ring_list r = map (\<lambda>i. ring_objs r ! ((ring_slot r (cons_tail r) + i) mod length (ring_objs r))) [0..<ring_used r]"
  by (simp add: ring_list_def slot_step)

lemma prod_slot:
  assumes "ring_ok r"
  shows "ring_slot r (prod_tail r) = (ring_slot r (cons_tail r) + ring_used r) mod length (ring_objs r)"
proof -
  have "prod_tail r = cons_tail r + of_nat (ring_used r)" by (simp add: ring_used_def)
  then show ?thesis using slot_step(1)[OF assms, of "cons_tail r" "ring_used r"] by simp
qed

lemma cyc_append:
  assumes "b < length ring" "u + length xs < length ring"
  shows "map (\<lambda>i. cyc_write ring ((b + u) mod length ring) xs ! ((b + i) mod length ring)) [0..<u + length xs] =
    map (\<lambda>i. ring ! ((b + i) mod length ring)) [0..<u] @ xs"
proof (rule nth_equalityI)
  let ?N = "length ring"
  fix i assume "i < length (map (\<lambda>i. cyc_write ring ((b + u) mod ?N) xs ! ((b + i) mod ?N)) [0..<u + length xs])"
  then have i: "i < u + length xs" by simp
  define j where "j = (if i < u then ?N - u + i else i - u)"
  have j: "j < ?N" "((b + u) mod ?N + j) mod ?N = (b + i) mod ?N"
    using i assms by (auto simp: j_def mod_add_left_eq) (metis add.left_commute mod_add_self1)
  have idx: "(b + u) mod ?N < ?N" using assms(1) by (intro mod_less_divisor) linarith
  have jn: "j < length xs \<longleftrightarrow> \<not> i < u" using i assms(2) by (auto simp: j_def)
  have "cyc_write ring ((b + u) mod ?N) xs ! ((b + i) mod ?N) = (if j < length xs then xs ! j else ring ! ((b + i) mod ?N))"
    using cyc_write_nth[OF idx _ j(1), of xs] assms(2) j(2) by simp
  then show "map (\<lambda>i. cyc_write ring ((b + u) mod ?N) xs ! ((b + i) mod ?N)) [0..<u + length xs] ! i =
      (map (\<lambda>i. ring ! ((b + i) mod ?N)) [0..<u] @ xs) ! i"
    using i jn by (auto simp: nth_append j_def)
qed simp

lemma enqueue_result:
  fixes behavior :: rte_ring_queue_behavior
  assumes "ring_ok r" "length xs < 2 ^ 32"
  defines "n \<equiv> enqueued behavior (length xs) (ring_free r)"
  obtains r' where "do_enqueue r xs behavior = (of_nat n, r')" "ring_ok r'" "ring_list r' = ring_list r @ take n xs"
    "ring_capacity r' = ring_capacity r"
proof (cases "n = 0")
  case True
  have "r\<lparr>prod_head := prod_tail r\<rparr> = r" using assms(1) by (simp add: ring_ok_def)
  then show ?thesis using that[of r] True assms(1) move_prod_head_result[OF assms(1,2), of behavior]
    by (simp add: do_enqueue_def n_def)
next
  case False
  let ?p = "prod_tail r + of_nat n" and ?ys = "take n xs"
  let ?r = "r\<lparr>prod_head := ?p, ring_objs := cyc_write (ring_objs r) (ring_slot r (prod_tail r)) ?ys, prod_tail := ?p\<rparr>"
  note sz = ring_ok_sizes[OF assms(1)]
  have n: "n \<le> ring_free r" "n \<le> length xs" using enqueued_le[of behavior "length xs" "ring_free r"] by (simp_all add: n_def)
  have fit: "ring_used r + n \<le> unat (ring_capacity r)" using n(1) sz(3) by (simp add: ring_free_def)
  have nz: "(of_nat n :: u32) \<noteq> 0" "unat (of_nat n :: u32) = n"
    using False n(2) assms(2) by (auto simp: word_unat_eq_iff unat_of_nat)
  have used: "ring_used ?r = ring_used r + n"
  proof -
    have "unat ((prod_tail r - cons_tail r) + of_nat n) = ring_used r + n"
      using fit sz(2) nz(2) by (simp add: unat_word_ariths ring_used_def)
    then show ?thesis by (simp add: ring_used_def algebra_simps)
  qed
  have slot: "ring_slot r (prod_tail r) < length (ring_objs r)" by (rule slot_step(2)[OF assms(1)])
  have len: "length (cyc_write (ring_objs r) (ring_slot r (prod_tail r)) ?ys) = length (ring_objs r)"
    using slot n fit sz(1) by (intro cyc_write_length) simp_all
  have ok: "ring_ok ?r" using assms(1) used fit len by (simp add: ring_ok_def)
  have "ring_slot ?r i = ring_slot r i" for i by (simp add: ring_slot_def)
  then have "ring_list ?r = ring_list r @ ?ys"
    using cyc_append[OF slot_step(2)[OF assms(1), of "cons_tail r"], of "ring_used r" ?ys] fit sz(1) n(2)
    unfolding ring_list_slots[OF ok] ring_list_slots[OF assms(1)] used
    by (simp add: len[unfolded prod_slot[OF assms(1)]] prod_slot[OF assms(1)])
  moreover have "do_enqueue r xs behavior = (of_nat n, ?r)"
    using nz assms(1) move_prod_head_result[OF assms(1,2), of behavior]
    by (simp add: do_enqueue_def n_def[symmetric] enqueue_elems_def cyc_write_def ring_slot_def ring_ok_def Let_def)
  ultimately show ?thesis using that[of ?r] ok by simp
qed

lemma move_cons_head_result:
  fixes behavior :: rte_ring_queue_behavior
  assumes "ring_ok r" "m < 2 ^ 32"
  defines "n \<equiv> enqueued behavior m (ring_used r)"
  shows "move_cons_head r (of_nat m) behavior =
    (of_nat n, cons_tail r, cons_tail r + of_nat n, r\<lparr>cons_head := cons_tail r + of_nat n\<rparr>)"
proof -
  have head: "cons_head r = cons_tail r" using assms(1) by (simp add: ring_ok_def)
  have m: "unat (of_nat m :: u32) = m" using assms(2) by (simp add: unat_of_nat)
  have less: "(of_nat m :: u32) > prod_tail r - cons_tail r \<longleftrightarrow> ring_used r < m"
    unfolding word_less_nat_alt m ring_used_def ..
  have used: "of_nat (ring_used r) = prod_tail r - cons_tail r" by (simp add: ring_used_def)
  have same: "r\<lparr>cons_head := cons_tail r\<rparr> = r" using head by simp
  show ?thesis
    using less same by (auto simp: move_cons_head_def head n_def enqueued_def used Let_def)
qed

lemma dequeue_elems_head: "dequeue_elems (r\<lparr>cons_head := h\<rparr>) i n = dequeue_elems r i n"
  by (simp add: dequeue_elems_def Let_def)

lemma dequeue_result:
  fixes behavior :: rte_ring_queue_behavior
  assumes "ring_ok r" "m < 2 ^ 32"
  defines "n \<equiv> enqueued behavior m (ring_used r)"
  obtains r' where "do_dequeue r (of_nat m) behavior = (take n (ring_list r), r')" "ring_ok r'" "ring_list r' = drop n (ring_list r)"
    "ring_capacity r' = ring_capacity r"
proof (cases "n = 0")
  case True
  have "r\<lparr>cons_head := cons_tail r\<rparr> = r" using assms(1) by (simp add: ring_ok_def)
  then show ?thesis using that[of r] True assms(1) move_cons_head_result[OF assms(1,2), of behavior]
    by (simp add: do_dequeue_def n_def)
next
  case False
  let ?c = "cons_tail r + of_nat n"
  let ?r = "r\<lparr>cons_head := ?c, cons_tail := ?c\<rparr>"
  note sz = ring_ok_sizes[OF assms(1)]
  have n: "n \<le> ring_used r" "n \<le> m" using enqueued_le[of behavior m "ring_used r"] by (simp_all add: n_def)
  have nz: "(of_nat n :: u32) \<noteq> 0" "unat (of_nat n :: u32) = n"
    using False n(2) assms(2) by (auto simp: word_unat_eq_iff unat_of_nat)
  have used: "ring_used ?r = ring_used r - n"
  proof -
    have "of_nat n \<le> prod_tail r - cons_tail r" using n(1) nz(2) by (simp add: word_le_nat_alt ring_used_def)
    then have "unat ((prod_tail r - cons_tail r) - of_nat n) = ring_used r - n"
      using nz(2) by (simp add: unat_sub ring_used_def)
    then show ?thesis by (simp add: ring_used_def algebra_simps)
  qed
  have ok: "ring_ok ?r" using assms(1) used sz(3) by (simp add: ring_ok_def)
  have len: "length (ring_objs r) = unat (ring_size r)" using assms(1) by (simp add: ring_ok_def)
  have got: "dequeue_elems r (cons_tail r) n = take n (ring_list r)"
    using cyc_read_nth[OF slot_step(2)[OF assms(1)], of n "cons_tail r"] n(1) sz
    by (simp add: ring_list_slots[OF assms(1)] cyc_read_def dequeue_elems_def ring_slot_def len take_map Let_def)
  have "ring_list ?r = drop n (ring_list r)"
  proof (rule nth_equalityI)
    fix i assume "i < length (ring_list ?r)"
    then have "n + i < ring_used r" by (simp add: ring_list_length used)
    then show "ring_list ?r ! i = drop n (ring_list r) ! i"
      using used n(1) by (simp add: ring_list_def ring_slot_def add.assoc)
  qed (simp add: ring_list_length used)
  moreover have "do_dequeue r (of_nat m) behavior = (take n (ring_list r), ?r)"
    using nz got move_cons_head_result[OF assms(1,2), of behavior]
    by (simp add: do_dequeue_def n_def[symmetric] dequeue_elems_head)
  ultimately show ?thesis using that[of ?r] ok by simp
qed

lemma power_of_two_unat:
  fixes count :: u32
  assumes "POWEROF2 count" "count \<noteq> 0" "count \<le> RTE_RING_SZ_MASK"
  shows "\<exists>k < 31. unat count = 2 ^ k"
proof -
  have nz: "0 < unat count" using assms(2) by (simp add: unat_gt_0)
  have "unat ((count - 1) AND count) = 0" using assms(1) by (simp add: POWEROF2_def)
  then have "unat count AND (unat count - 1) = 0" using assms(2) by (simp add: unsigned_and_eq and.commute)
  then obtain k where k: "unat count = 2 ^ k" using nz and_pred_eq_0_imp_pow2[of "unat count"] by blast
  have "unat count < 2 ^ 31" using assms(3) by (simp add: word_le_nat_alt RTE_RING_SZ_MASK_def)
  then have "k < 31" unfolding k by (simp only: power_strict_increasing_iff)
  then show ?thesis using k by blast
qed

lemma init_result:
  assumes "rte_ring_init x count = Some r" "count \<noteq> 0"
  shows "ring_ok r" "ring_list r = []" "ring_capacity r = count - 1"
  using assms power_of_two_unat[of count]
  by (auto simp: rte_ring_init_def ring_ok_def ring_used_def ring_list_def split: if_splits)

lemma count_result:
  assumes "ring_ok r"
  shows "unat (rte_ring_count r) = length (ring_list r)" "unat (rte_ring_free_count r) = ring_free r"
    "rte_ring_full r \<longleftrightarrow> ring_free r = 0" "rte_ring_empty r \<longleftrightarrow> ring_list r = []"
proof -
  obtain k where k: "k < 31" "unat (ring_size r) = 2 ^ k" "ring_mask r = ring_size r - 1" "length (ring_objs r) = 2 ^ k"
    "ring_capacity r = ring_mask r"
    using assms by (auto simp: ring_ok_def)
  note sz = ring_ok_sizes[OF assms]
  have "unat ((prod_tail r - cons_tail r) AND ring_mask r) = ring_used r mod 2 ^ k"
    using mask_mod[OF k(2)] k(1,3) by (simp add: ring_used_def)
  also have "\<dots> = ring_used r" using sz(1,3) k(4) by simp
  finally have c: "unat (rte_ring_count r) = ring_used r"
    using sz(3) by (simp add: rte_ring_count_def Let_def word_less_nat_alt)
  then show "unat (rte_ring_count r) = length (ring_list r)" by (simp add: ring_list_length)
  show f: "unat (rte_ring_free_count r) = ring_free r"
    using c sz(3) by (simp add: rte_ring_free_count_def ring_free_def unat_sub word_le_nat_alt)
  show "rte_ring_full r \<longleftrightarrow> ring_free r = 0" using f by (simp add: rte_ring_full_def flip: unat_eq_zero)
  have "ring_list r = [] \<longleftrightarrow> ring_used r = 0" using ring_list_length[of r] by (metis length_0_conv)
  then show "rte_ring_empty r \<longleftrightarrow> ring_list r = []"
    by (auto simp: rte_ring_empty_def ring_used_def unat_eq_zero)
qed

section \<open>Queues with bounded room\<close>

text \<open>A client of a queue puts and takes batches of elements and sees how many were put.\<close>

datatype ('b, 'a) batch = Put 'b "'a list" | Take 'b nat

fun run :: "('q \<Rightarrow> 'a list \<Rightarrow> 'b \<Rightarrow> nat \<times> 'q) \<Rightarrow> ('q \<Rightarrow> nat \<Rightarrow> 'b \<Rightarrow> 'a list \<times> 'q) \<Rightarrow> 'q \<Rightarrow>
    ('b, 'a) batch list \<Rightarrow> 'a list \<times> 'a list \<times> 'q" where
  "run put get q [] = ([], [], q)"
| "run put get q (Put b xs # ops) =
    (let (n, q) = put q xs b; (ins, outs, q) = run put get q ops in (take n xs @ ins, outs, q))"
| "run put get q (Take b n # ops) =
    (let (ys, q) = get q n b; (ins, outs, q) = run put get q ops in (ins, ys @ outs, q))"

fun within :: "nat \<Rightarrow> ('b, 'a) batch \<Rightarrow> bool" where
  "within limit (Put b xs) = (length xs < limit)"
| "within limit (Take b n) = (n < limit)"

locale fifo =
  fixes valid :: "'q \<Rightarrow> bool"
    and contents :: "'q \<Rightarrow> 'a list"
    and room :: "'q \<Rightarrow> nat"
    and limit :: nat
    and put :: "'q \<Rightarrow> 'a list \<Rightarrow> 'b \<Rightarrow> nat \<times> 'q"
    and get :: "'q \<Rightarrow> nat \<Rightarrow> 'b \<Rightarrow> 'a list \<times> 'q"
  assumes put_appends: "valid q \<Longrightarrow> length xs < limit \<Longrightarrow> put q xs b = (n, q') \<Longrightarrow>
      n \<le> length xs \<and> valid q' \<and> contents q' = contents q @ take n xs \<and> room q' + n = room q"
    and get_takes: "valid q \<Longrightarrow> n < limit \<Longrightarrow> get q n b = (ys, q') \<Longrightarrow>
      length ys \<le> n \<and> valid q' \<and> contents q = ys @ contents q' \<and> room q' = room q + length ys"
begin

lemma run_order:
  "valid q \<Longrightarrow> list_all (within limit) ops \<Longrightarrow> run put get q ops = (ins, outs, q') \<Longrightarrow>
    valid q' \<and> contents q @ ins = outs @ contents q' \<and> room q' + length (contents q') = room q + length (contents q)"
proof (induction ops arbitrary: q ins outs)
  case (Cons op ops)
  show ?case
  proof (cases op)
    case (Put b xs)
    obtain n q1 where q1: "put q xs b = (n, q1)" by force
    obtain ins1 where r: "run put get q1 ops = (ins1, outs, q')" "ins = take n xs @ ins1"
      using Cons.prems(3) by (auto simp: Put q1 split: prod.splits)
    show ?thesis using put_appends[OF Cons.prems(1) _ q1] Cons.IH[OF _ _ r(1)] Cons.prems(2) r(2)
      by (auto simp: Put min_def)
  next
    case (Take b n)
    obtain ys q1 where q1: "get q n b = (ys, q1)" by force
    obtain outs1 where r: "run put get q1 ops = (ins, outs1, q')" "outs = ys @ outs1"
      using Cons.prems(3) by (auto simp: Take q1 split: prod.splits)
    show ?thesis using get_takes[OF Cons.prems(1) _ q1] Cons.IH[OF _ _ r(1)] Cons.prems(2) r(2)
      by (auto simp: Take)
  qed
qed simp

end

text \<open>The ring as such a queue; the calls take 32-bit counts.\<close>

definition ring_put :: "'a rte_ring \<Rightarrow> 'a list \<Rightarrow> rte_ring_queue_behavior \<Rightarrow> nat \<times> 'a rte_ring" where
  "ring_put r xs behavior = map_prod unat id (do_enqueue r xs behavior)"

definition ring_get :: "'a rte_ring \<Rightarrow> nat \<Rightarrow> rte_ring_queue_behavior \<Rightarrow> 'a list \<times> 'a rte_ring" where
  "ring_get r n behavior = do_dequeue r (of_nat n) behavior"

lemma ring_put_law:
  assumes "ring_ok r" "length xs < 2 ^ 32" "ring_put r xs b = (n, r')"
  shows "n = enqueued b (length xs) (ring_free r) \<and> ring_ok r' \<and> ring_list r' = ring_list r @ take n xs \<and> ring_free r' + n = ring_free r"
proof -
  let ?n = "enqueued b (length xs) (ring_free r)"
  obtain r1 where r1: "do_enqueue r xs b = (of_nat ?n, r1)" "ring_ok r1" "ring_list r1 = ring_list r @ take ?n xs"
    "ring_capacity r1 = ring_capacity r"
    using enqueue_result[OF assms(1,2)] by metis
  note le = enqueued_le[of b "length xs" "ring_free r"]
  have "?n < 2 ^ 32" using le(2) assms(2) by simp
  then have "n = ?n" "r' = r1" using assms(3) r1(1) by (auto simp: ring_put_def unat_of_nat)
  moreover have "ring_used r1 = ring_used r + ?n"
    using r1(3) le(2) by (simp add: ring_list_length[symmetric] min_def)
  ultimately show ?thesis using r1 le(1) ring_ok_sizes(3)[OF assms(1)] ring_ok_sizes(3)[OF r1(2)] by (simp add: ring_free_def)
qed

lemma ring_get_law:
  assumes "ring_ok r" "m < 2 ^ 32" "ring_get r m b = (ys, r')"
  shows "ys = take (enqueued b m (length (ring_list r))) (ring_list r) \<and> ring_ok r' \<and> ring_list r = ys @ ring_list r' \<and>
    ring_free r' = ring_free r + length ys"
proof -
  let ?n = "enqueued b m (ring_used r)"
  obtain r1 where r1: "do_dequeue r (of_nat m) b = (take ?n (ring_list r), r1)" "ring_ok r1" "ring_list r1 = drop ?n (ring_list r)"
    "ring_capacity r1 = ring_capacity r"
    using dequeue_result[OF assms(1,2)] by metis
  then have eq: "r' = r1" "ys = take ?n (ring_list r)" using assms(3) by (auto simp: ring_get_def)
  have "ring_used r1 = ring_used r - ?n" "length ys = ?n"
    using r1(3) enqueued_le(1)[of b m "ring_used r"] by (simp_all add: ring_list_length[symmetric] eq)
  then show ?thesis using r1 eq ring_ok_sizes(3)[OF assms(1)] enqueued_le(1)[of b m "ring_used r"]
    by (simp add: ring_free_def ring_list_length)
qed

interpretation ring_queue: fifo ring_ok ring_list ring_free "2 ^ 32" ring_put ring_get
proof
  fix q :: "'a rte_ring" and xs b n q'
  assume "ring_ok q" "length xs < 2 ^ 32" "ring_put q xs b = (n, q')"
  then show "n \<le> length xs \<and> ring_ok q' \<and> ring_list q' = ring_list q @ take n xs \<and> ring_free q' + n = ring_free q"
    using ring_put_law enqueued_le(2) by metis
next
  fix q :: "'a rte_ring" and n b ys q'
  assume "ring_ok q" "n < 2 ^ 32" "ring_get q n b = (ys, q')"
  then have law: "ys = take (enqueued b n (length (ring_list q))) (ring_list q)" "ring_ok q'" "ring_list q = ys @ ring_list q'"
    "ring_free q' = ring_free q + length ys"
    using ring_get_law by blast+
  have "length ys \<le> n" unfolding law(1) using enqueued_le(2)[of b n "length (ring_list q)"] by simp
  then show "length ys \<le> n \<and> ring_ok q' \<and> ring_list q = ys @ ring_list q' \<and> ring_free q' = ring_free q + length ys"
    using law(2-4) by blast
qed

section \<open>Properties\<close>

lemma init_room: "rte_ring_init x count = Some r \<Longrightarrow> count \<noteq> 0 \<Longrightarrow> ring_free r = unat count - 1"
  using init_result[of x count r] by (simp add: ring_free_def ring_list_length[symmetric])

text \<open>C4. A ring made with a number of slots other than 0 is a queue of one element less: over any sequence of batches
  that are put and taken, all or nothing or as many as possible, the elements accepted are those taken, in the same order,
  followed by the contents of the ring, which never exceed its capacity, and the counts of the ring tell their number; this
  holds however often the 32-bit indices have wrapped around.\<close>

theorem ring_fifo:
  assumes "rte_ring_init x count = Some r" "count \<noteq> 0" "list_all (within (2 ^ 32)) ops"
    "run ring_put ring_get r ops = (accepted, taken, r')"
  shows "accepted = taken @ ring_list r' \<and> length (ring_list r') \<le> unat count - 1 \<and>
    unat (rte_ring_count r') = length accepted - length taken \<and>
    unat (rte_ring_free_count r') = unat count - 1 - length (ring_list r') \<and>
    (rte_ring_empty r' \<longleftrightarrow> ring_list r' = []) \<and> (rte_ring_full r' \<longleftrightarrow> length (ring_list r') = unat count - 1)"
proof -
  note ok = init_result[OF assms(1,2)]
  have end_state: "ring_ok r'" "accepted = taken @ ring_list r'" "ring_free r' + length (ring_list r') = unat count - 1"
    using ring_queue.run_order[OF ok(1) assms(3,4)] ok(2) init_room[OF assms(1,2)] by auto
  then show ?thesis using count_result[OF end_state(1)] by auto
qed

definition demo_ring :: "char rte_ring" where
  "demo_ring = the (rte_ring_init CHR ''.'' 4)"

definition demo_batches :: "(rte_ring_queue_behavior, char) batch list" where
  "demo_batches = [Put RTE_RING_QUEUE_VARIABLE ''abcd'', Take RTE_RING_QUEUE_FIXED 2, Put RTE_RING_QUEUE_FIXED ''ef'',
     Put RTE_RING_QUEUE_FIXED ''gh'']"

theorem ring_fifo_witness:
  "run ring_put ring_get demo_ring demo_batches = (''abcef'', ''ab'', snd (snd (run ring_put ring_get demo_ring demo_batches))) \<and>
   ring_list (snd (snd (run ring_put ring_get demo_ring demo_batches))) = ''cef''"
proof -
  have i: "rte_ring_init CHR ''.'' 4 = Some demo_ring" by code_simp
  have l: "list_all (within (2 ^ 32)) demo_batches" by (simp add: demo_batches_def)
  have "run ring_put ring_get demo_ring demo_batches = (''abcef'', ''ab'', snd (snd (run ring_put ring_get demo_ring demo_batches)))"
    by code_simp
  then show ?thesis using ring_fifo[OF i _ l] by fastforce
qed

lemma enqueue_refused:
  assumes "ring_ok r" "length xs < 2 ^ 32" "enqueued b (length xs) (ring_free r) = 0"
  shows "do_enqueue r xs b = (0, r)"
proof -
  have "r\<lparr>prod_head := prod_tail r\<rparr> = r" using assms(1) by (simp add: ring_ok_def)
  then show ?thesis using move_prod_head_result[OF assms(1,2), of b] assms(3) by (simp add: do_enqueue_def)
qed

lemma dequeue_refused:
  assumes "ring_ok r" "m < 2 ^ 32" "enqueued b m (ring_used r) = 0"
  shows "do_dequeue r (of_nat m) b = ([], r)"
proof -
  have "r\<lparr>cons_head := cons_tail r\<rparr> = r" using assms(1) by (simp add: ring_ok_def)
  then show ?thesis using move_cons_head_result[OF assms(1,2), of b] assms(3) by (simp add: do_dequeue_def)
qed

lemma enqueue_count: "ring_ok r \<Longrightarrow> length xs < 2 ^ 32 \<Longrightarrow> fst (do_enqueue r xs b) = of_nat (enqueued b (length xs) (ring_free r))"
  using enqueue_result[of r xs b] by (metis fst_conv)

lemma reset_result: "ring_ok r \<Longrightarrow> ring_ok (rte_ring_reset r) \<and> ring_list (rte_ring_reset r) = []"
  by (simp add: rte_ring_reset_def ring_ok_def ring_used_def ring_list_def)

lemma enqueue_one:
  assumes "ring_ok r"
  shows "if ring_free r = 0 then rte_ring_enqueue r x = (- ENOBUFS, r)
     else fst (rte_ring_enqueue r x) = 0 \<and> ring_list (snd (rte_ring_enqueue r x)) = ring_list r @ [x]"
proof (cases "ring_free r = 0")
  case True
  then show ?thesis using enqueue_refused[OF assms, of "[x]" RTE_RING_QUEUE_FIXED]
    by (simp add: rte_ring_enqueue_def rte_ring_enqueue_bulk_def enqueued_def)
next
  case False
  then have "enqueued RTE_RING_QUEUE_FIXED (length [x]) (ring_free r) = 1" by (simp add: enqueued_def)
  then obtain r' where "do_enqueue r [x] RTE_RING_QUEUE_FIXED = (1, r')" "ring_list r' = ring_list r @ [x]"
    using enqueue_result[OF assms, of "[x]" RTE_RING_QUEUE_FIXED] by auto
  then show ?thesis using False by (simp add: rte_ring_enqueue_def rte_ring_enqueue_bulk_def)
qed

lemma dequeue_one:
  assumes "ring_ok r"
  shows "case ring_list r of [] \<Rightarrow> rte_ring_dequeue r = (- ENOENT, None, r)
     | y # ys \<Rightarrow> \<exists>r'. rte_ring_dequeue r = (0, Some y, r') \<and> ring_list r' = ys"
proof (cases "ring_list r")
  case Nil
  then have "ring_used r = 0" using ring_list_length[of r] by simp
  then show ?thesis using dequeue_refused[OF assms, of 1 RTE_RING_QUEUE_FIXED] Nil
    by (simp add: rte_ring_dequeue_def rte_ring_dequeue_bulk_def enqueued_def)
next
  case (Cons y ys)
  then have "enqueued RTE_RING_QUEUE_FIXED 1 (ring_used r) = 1" using ring_list_length[of r] by (simp add: enqueued_def)
  then obtain r' where "do_dequeue r 1 RTE_RING_QUEUE_FIXED = ([y], r')" "ring_list r' = ys"
    using dequeue_result[OF assms, of 1 RTE_RING_QUEUE_FIXED] Cons by auto
  then show ?thesis using Cons by (simp add: rte_ring_dequeue_def rte_ring_dequeue_bulk_def)
qed

text \<open>C27. On a ring in use: the bulk call puts all elements or none, the burst call as many as there is room for; one
  element is put unless the ring is full, when the call gives -ENOBUFS, and taken, the oldest first, unless it is empty,
  when the call gives -ENOENT; a refused call leaves the ring as it is, and a reset empties it.\<close>

theorem ring_results:
  assumes "ring_ok r" "length xs < 2 ^ 32"
  shows "(if length xs \<le> ring_free r then fst (rte_ring_enqueue_bulk r xs) = of_nat (length xs) else rte_ring_enqueue_bulk r xs = (0, r)) \<and>
    fst (rte_ring_enqueue_burst r xs) = of_nat (min (length xs) (ring_free r)) \<and>
    (if ring_free r = 0 then rte_ring_enqueue r x = (- ENOBUFS, r)
     else fst (rte_ring_enqueue r x) = 0 \<and> ring_list (snd (rte_ring_enqueue r x)) = ring_list r @ [x]) \<and>
    (case ring_list r of [] \<Rightarrow> rte_ring_dequeue r = (- ENOENT, None, r)
     | y # ys \<Rightarrow> \<exists>r'. rte_ring_dequeue r = (0, Some y, r') \<and> ring_list r' = ys) \<and>
    ring_ok (rte_ring_reset r) \<and> ring_list (rte_ring_reset r) = []"
  using enqueue_one[OF assms(1)] dequeue_one[OF assms(1)] enqueue_refused[OF assms, of RTE_RING_QUEUE_FIXED]
    reset_result[OF assms(1)]
  by (simp add: rte_ring_enqueue_bulk_def rte_ring_enqueue_burst_def enqueue_count[OF assms] enqueued_def min_def)

theorem ring_results_witness:
  "ring_ok demo_ring \<and> fst (rte_ring_enqueue_bulk demo_ring ''abcd'') = 0 \<and> fst (rte_ring_enqueue_burst demo_ring ''abcd'') = 3 \<and>
   rte_ring_dequeue demo_ring = (- ENOENT, None, demo_ring)"
proof -
  have i: "rte_ring_init CHR ''.'' 4 = Some demo_ring" by code_simp
  note ok = init_result[OF i]
  show ?thesis using ring_results[of demo_ring "''abcd''" "CHR ''x''"] ok init_room[OF i] by simp
qed

end
