(* ===== verification/FF_Kni_Io.thy ===== *)
theory FF_Kni_Io
  imports FF_Kni FF_Ring "HOL-Library.Multiset"
begin

text \<open>
  The exchange of packets with the kernel (\<open>ff_dpdk_kni.c\<close>): packets for the kernel are queued on a ring per port and
  sent to the port's virtio device, packets from the kernel go to the NIC, directly or over a second ring when the primary
  process is slim; three counters limit the rates.

  The bursts of the drivers are parameters: how many packets of a burst a device takes, and what it delivers. Packets
  that leave are recorded where they go: to the kernel, to a NIC, or back to their pool.
\<close>

section \<open>State\<close>

record kni_interface_stats =
  kni_port_id :: u16
  rx_packets :: u64
  rx_dropped :: u64
  tx_packets :: u64
  tx_dropped :: u64

record kni_ratelimit =
  console_packets :: u64
  gerneal_packets :: u64
  kernel_packets :: u64

record 'p kni_state =
  kni_rp :: "'p rte_ring list"
  kni_inject_rp :: "'p rte_ring list"
  kni_stat :: "kni_interface_stats list"
  kni_rate_limt :: kni_ratelimit
  to_kernel :: "'p list"
  to_nic :: "'p list"
  pkt_freed :: "'p list"

text \<open>What the process is: whether it is the primary one, and its core.\<close>

record eal =
  is_primary :: bool
  lcore_id :: u16

type_synonym 'p tx_burst = "u16 \<Rightarrow> u16 \<Rightarrow> 'p list \<Rightarrow> u16"

definition ff_kni_is_owner_thread :: "ff_config \<Rightarrow> eal \<Rightarrow> bool" where
  "ff_kni_is_owner_thread cfg e \<longleftrightarrow>
    (if thread_mode (dpdk cfg) \<noteq> 0 then lcore_id e = the (proc_lcore (dpdk cfg)) ! 0 else is_primary e)"

definition ff_kni_is_runtime_owner :: "ff_config \<Rightarrow> eal \<Rightarrow> bool" where
  "ff_kni_is_runtime_owner cfg e \<longleftrightarrow>
    (if thread_mode (dpdk cfg) \<noteq> 0 then lcore_id e = the (proc_lcore (dpdk cfg)) ! 0
     else if primary_slim (dpdk cfg) = 0 then is_primary e
     else proc_id (dpdk cfg) = owner_proc_id (kni cfg))"

definition free_pkts :: "'p list \<Rightarrow> 'p kni_state \<Rightarrow> 'p kni_state" where
  "free_pkts ps s = s\<lparr>pkt_freed := pkt_freed s @ ps\<rparr>"

definition upd_stat :: "nat \<Rightarrow> (kni_interface_stats \<Rightarrow> kni_interface_stats) \<Rightarrow> 'p kni_state \<Rightarrow> 'p kni_state" where
  "upd_stat port f s = s\<lparr>kni_stat := (kni_stat s)[port := f (kni_stat s ! port)]\<rparr>"

section \<open>Operations\<close>

text \<open>The statistics and the two rings of a port, in the process that owns them.\<close>

definition ff_kni_alloc :: "'p \<Rightarrow> u16 \<Rightarrow> nat \<Rightarrow> nat \<Rightarrow> u32 \<Rightarrow> 'p kni_state \<Rightarrow> 'p kni_state option" where
  "ff_kni_alloc x nb_dev_ports port_id port_idx ring_queue_size s =
    (let s = s\<lparr>kni_stat := (kni_stat s)[port_id := \<lparr>kni_port_id = of_nat port_idx + nb_dev_ports, rx_packets = 0, rx_dropped = 0,
                 tx_packets = 0, tx_dropped = 0\<rparr>]\<rparr>
     in case rte_ring_init x ring_queue_size of None \<Rightarrow> None
        | Some r \<Rightarrow> Some (s\<lparr>kni_rp := (kni_rp s)[port_id := r], kni_inject_rp := (kni_inject_rp s)[port_id := r]\<rparr>))"

text \<open>How many of the packets taken from the ring may go to the kernel, and the counter after that.\<close>

definition kernel_limit :: "ff_kni_cfg \<Rightarrow> u16 \<Rightarrow> kni_ratelimit \<Rightarrow> u16 \<times> kni_ratelimit" where
  "kernel_limit cfg nb_tx rl =
    (if kernel_packets_ratelimit cfg \<noteq> 0
     then (if kernel_packets rl < of_int (kernel_packets_ratelimit cfg) then nb_tx else 0,
           rl\<lparr>kernel_packets := kernel_packets rl + ucast nb_tx\<rparr>)
     else (nb_tx, rl))"

definition kni_process_tx :: "ff_kni_cfg \<Rightarrow> 'p tx_burst \<Rightarrow> nat \<Rightarrow> u32 \<Rightarrow> 'p kni_state \<Rightarrow> 'p kni_state" where
  "kni_process_tx cfg eth_tx port_id burst s =
    (let (pkts_burst, r) = rte_ring_dequeue_burst (kni_rp s ! port_id) burst;
         s = s\<lparr>kni_rp := (kni_rp s)[port_id := r]\<rparr>;
         nb_tx = of_nat (length pkts_burst);
         (nb_to_tx, rl) = kernel_limit cfg nb_tx (kni_rate_limt s);
         s = s\<lparr>kni_rate_limt := rl\<rparr>;
         nb_kni_tx = eth_tx (kni_port_id (kni_stat s ! port_id)) 0 (take (unat nb_to_tx) pkts_burst);
         s = s\<lparr>to_kernel := to_kernel s @ take (unat nb_kni_tx) pkts_burst\<rparr>;
         s = (if nb_kni_tx < nb_tx
              then upd_stat port_id (\<lambda>st. st\<lparr>rx_dropped := rx_dropped st + ucast (nb_tx - nb_kni_tx)\<rparr>)
                     (free_pkts (drop (unat nb_kni_tx) (take (unat nb_tx) pkts_burst)) s)
              else s)
     in upd_stat port_id (\<lambda>st. st\<lparr>rx_packets := rx_packets st + ucast nb_kni_tx\<rparr>) s)"

text \<open>The accounting for packets handed on, of which the first \<open>sent\<close> were taken.\<close>

definition tx_done :: "nat \<Rightarrow> u16 \<Rightarrow> u16 \<Rightarrow> 'p list \<Rightarrow> 'p kni_state \<Rightarrow> 'p kni_state" where
  "tx_done port_id nb sent pkts_burst s =
    (let s = (if sent < nb
              then upd_stat port_id (\<lambda>st. st\<lparr>tx_dropped := tx_dropped st + ucast (nb - sent)\<rparr>)
                     (free_pkts (drop (unat sent) (take (unat nb) pkts_burst)) s)
              else s)
     in upd_stat port_id (\<lambda>st. st\<lparr>tx_packets := tx_packets st + ucast sent\<rparr>) s)"

definition kni_process_rx :: "ff_config \<Rightarrow> eal \<Rightarrow> 'p tx_burst \<Rightarrow> 'p list \<Rightarrow> nat \<Rightarrow> u16 \<Rightarrow> 'p kni_state \<Rightarrow> 'p kni_state" where
  "kni_process_rx cfg e eth_tx pkts_burst port_id queue_id s =
    (let nb_kni_rx = of_nat (length pkts_burst)
     in if nb_kni_rx > 0 then
          if primary_slim (dpdk cfg) \<noteq> 0 \<and> is_primary e then
            let (enq, r) = rte_ring_enqueue_burst (kni_inject_rp s ! port_id) (take (unat nb_kni_rx) pkts_burst);
                s = s\<lparr>kni_inject_rp := (kni_inject_rp s)[port_id := r]\<rparr>
            in tx_done port_id nb_kni_rx (ucast enq) pkts_burst s
          else
            let nb_rx = eth_tx (of_nat port_id) queue_id (take (unat nb_kni_rx) pkts_burst);
                s = s\<lparr>to_nic := to_nic s @ take (unat nb_rx) pkts_burst\<rparr>
            in tx_done port_id nb_kni_rx nb_rx pkts_burst s
        else s)"

definition ff_kni_process :: "ff_config \<Rightarrow> eal \<Rightarrow> 'p tx_burst \<Rightarrow> 'p list \<Rightarrow> nat \<Rightarrow> u16 \<Rightarrow> u32 \<Rightarrow> 'p kni_state \<Rightarrow> 'p kni_state" where
  "ff_kni_process cfg e eth_tx received port_id queue_id burst s =
    kni_process_rx cfg e eth_tx received port_id queue_id (kni_process_tx (kni cfg) eth_tx port_id burst s)"

definition ff_kni_inject_process :: "'p tx_burst \<Rightarrow> nat \<Rightarrow> u16 \<Rightarrow> u32 \<Rightarrow> 'p kni_state \<Rightarrow> 'p kni_state" where
  "ff_kni_inject_process eth_tx port_id queue_id burst s =
    (let (pkts_burst, r) = rte_ring_dequeue_burst (kni_inject_rp s ! port_id) burst;
         s = s\<lparr>kni_inject_rp := (kni_inject_rp s)[port_id := r]\<rparr>;
         nb_rx = of_nat (length pkts_burst)
     in if nb_rx = 0 then s
        else let nb_tx = eth_tx (of_nat port_id) queue_id (take (unat nb_rx) pkts_burst);
                 s = s\<lparr>to_nic := to_nic s @ take (unat nb_tx) pkts_burst\<rparr>
             in tx_done port_id nb_rx nb_tx pkts_burst s)"

text \<open>The counter of the packet's class and whether the packet is within its limit.\<close>

definition enqueue_limit :: "ff_kni_cfg \<Rightarrow> FilterReturn \<Rightarrow> kni_ratelimit \<Rightarrow> bool \<times> kni_ratelimit" where
  "enqueue_limit cfg filt rl =
    (if filter_value filt \<ge> filter_value FILTER_ARP then
       if console_packets_ratelimit cfg \<noteq> 0
       then (\<not> console_packets rl + 1 > of_int (console_packets_ratelimit cfg), rl\<lparr>console_packets := console_packets rl + 1\<rparr>)
       else (True, rl)
     else
       if general_packets_ratelimit cfg \<noteq> 0
       then (\<not> gerneal_packets rl + 1 > of_int (general_packets_ratelimit cfg), rl\<lparr>gerneal_packets := gerneal_packets rl + 1\<rparr>)
       else (True, rl))"

definition ff_kni_enqueue :: "ff_config \<Rightarrow> eal \<Rightarrow> FilterReturn \<Rightarrow> nat \<Rightarrow> 'p \<Rightarrow> 'p kni_state \<Rightarrow> int \<times> 'p kni_state" where
  "ff_kni_enqueue cfg e filt port_id pkt s =
    (let (ok, rl) = enqueue_limit (kni cfg) filt (kni_rate_limt s);
         s = s\<lparr>kni_rate_limt := rl\<rparr>;
         error = (\<lambda>s. (- 1, free_pkts [pkt]
                       (if ff_kni_is_owner_thread cfg e \<or> ff_kni_is_runtime_owner cfg e
                        then upd_stat port_id (\<lambda>st. st\<lparr>rx_dropped := rx_dropped st + 1\<rparr>) s else s)))
     in if \<not> ok then error s
        else let (ret, r) = rte_ring_enqueue (kni_rp s ! port_id) pkt; s = s\<lparr>kni_rp := (kni_rp s)[port_id := r]\<rparr>
             in if ret < 0 then error s else (0, s))"

text \<open>The reset of the counters, once a second in the main loop.\<close>

definition ratelimit_reset :: "kni_ratelimit \<Rightarrow> kni_ratelimit" where
  "ratelimit_reset rl = rl\<lparr>gerneal_packets := 0, console_packets := 0, kernel_packets := 0\<rparr>"

section \<open>Runs\<close>

datatype 'p kni_op = Enqueue FilterReturn nat 'p | Process nat u16 u32 "'p list" | Inject nat u16 u32

fun kni_step :: "ff_config \<Rightarrow> eal \<Rightarrow> 'p tx_burst \<Rightarrow> 'p kni_op \<Rightarrow> 'p kni_state \<Rightarrow> int \<times> 'p kni_state" where
  "kni_step cfg e eth_tx (Enqueue filt port_id pkt) s = ff_kni_enqueue cfg e filt port_id pkt s"
| "kni_step cfg e eth_tx (Process port_id queue_id burst received) s =
    (0, ff_kni_process cfg e eth_tx received port_id queue_id burst s)"
| "kni_step cfg e eth_tx (Inject port_id queue_id burst) s = (0, ff_kni_inject_process eth_tx port_id queue_id burst s)"

text \<open>The return codes and the state after a run.\<close>

fun kni_run :: "ff_config \<Rightarrow> eal \<Rightarrow> 'p tx_burst \<Rightarrow> 'p kni_op list \<Rightarrow> 'p kni_state \<Rightarrow> int list \<times> 'p kni_state" where
  "kni_run cfg e eth_tx [] s = ([], s)"
| "kni_run cfg e eth_tx (op # ops) s =
    (let (ret, s) = kni_step cfg e eth_tx op s; (rets, s) = kni_run cfg e eth_tx ops s in (ret # rets, s))"

text \<open>The packets that an operation brings in; the ports exist and the bursts have 16-bit sizes.\<close>

fun op_given :: "'p kni_op \<Rightarrow> 'p list" where
  "op_given (Enqueue filt port_id pkt) = [pkt]"
| "op_given (Process port_id queue_id burst received) = received"
| "op_given (Inject port_id queue_id burst) = []"

fun op_fits :: "nat \<Rightarrow> 'p kni_op \<Rightarrow> bool" where
  "op_fits n (Enqueue filt port_id pkt) = (port_id < n)"
| "op_fits n (Process port_id queue_id burst received) = (port_id < n \<and> unat burst < 2 ^ 16 \<and> length received < 2 ^ 16)"
| "op_fits n (Inject port_id queue_id burst) = (port_id < n \<and> unat burst < 2 ^ 16)"

text \<open>A device takes at most the packets it is given.\<close>

definition tx_contract :: "'p tx_burst \<Rightarrow> bool" where
  "tx_contract eth_tx \<longleftrightarrow> (\<forall>port queue pkts. unat (eth_tx port queue pkts) \<le> length pkts)"

definition rings_hold :: "'p rte_ring list \<Rightarrow> 'p multiset" where
  "rings_hold rs = mset (concat (map ring_list rs))"

text \<open>Where the packets are: in the rings, with the kernel, on a NIC, or back in their pool.\<close>

definition kni_held :: "'p kni_state \<Rightarrow> 'p multiset" where
  "kni_held s = rings_hold (kni_rp s) + rings_hold (kni_inject_rp s) + mset (to_kernel s) + mset (to_nic s) + mset (pkt_freed s)"

definition kni_ok :: "nat \<Rightarrow> 'p kni_state \<Rightarrow> bool" where
  "kni_ok n s \<longleftrightarrow> length (kni_rp s) = n \<and> length (kni_inject_rp s) = n \<and> length (kni_stat s) = n \<and>
     list_all ring_ok (kni_rp s) \<and> list_all ring_ok (kni_inject_rp s)"

section \<open>Rings of packets\<close>

lemma dequeue_burst_law:
  assumes "ring_ok r" "rte_ring_dequeue_burst r n = (ps, r')"
  shows "ring_ok r' \<and> ring_list r = ps @ ring_list r' \<and> length ps \<le> unat n"
proof -
  have "unat n < 2 ^ 32" using unsigned_less[of n, where 'a = nat] by simp
  moreover have "ring_get r (unat n) RTE_RING_QUEUE_VARIABLE = (ps, r')"
    using assms(2) by (simp add: ring_get_def rte_ring_dequeue_burst_def)
  ultimately show ?thesis using ring_queue.get_takes[OF assms(1)] by blast
qed

lemma enqueue_burst_law:
  assumes "ring_ok r" "length xs < 2 ^ 32" "rte_ring_enqueue_burst r xs = (n, r')"
  shows "ring_ok r' \<and> ring_list r' = ring_list r @ take (unat n) xs \<and> unat n \<le> length xs"
proof -
  have "ring_put r xs RTE_RING_QUEUE_VARIABLE = (unat n, r')"
    using assms(3) by (simp add: ring_put_def rte_ring_enqueue_burst_def)
  then show ?thesis using ring_queue.put_appends[OF assms(1,2)] by blast
qed

lemma enqueue_law:
  assumes "ring_ok r" "rte_ring_enqueue r x = (ret, r')"
  shows "ring_ok r' \<and> (if ret < 0 then r' = r else ret = 0 \<and> ring_list r' = ring_list r @ [x])"
proof -
  obtain n where n: "ring_put r [x] RTE_RING_QUEUE_FIXED = (n, r')"
    using assms(2) by (auto simp: rte_ring_enqueue_def rte_ring_enqueue_bulk_def ring_put_def split: prod.splits)
  have "ring_ok r'" using ring_queue.put_appends[OF assms(1) _ n] by simp
  then show ?thesis using enqueue_one[OF assms(1), of x] assms(2) by (auto simp: ENOBUFS_def split: if_splits)
qed

lemma rings_hold_update:
  "i < length rs \<Longrightarrow> rings_hold (rs[i := r]) + mset (ring_list (rs ! i)) = rings_hold rs + mset (ring_list r)"
proof (induction rs arbitrary: i)
  case (Cons a rs)
  then show ?case by (cases i) (auto simp: rings_hold_def ac_simps)
qed simp

section \<open>Conservation\<close>

lemma held_free [simp]: "kni_held (free_pkts ps s) = kni_held s + mset ps" "kni_ok n (free_pkts ps s) = kni_ok n s"
  by (simp_all add: kni_held_def kni_ok_def free_pkts_def)

lemma held_stat [simp]: "kni_held (upd_stat p f s) = kni_held s" "kni_ok n (upd_stat p f s) = kni_ok n s"
  by (simp_all add: kni_held_def kni_ok_def upd_stat_def)

lemma held_limit [simp]: "kni_held (s\<lparr>kni_rate_limt := rl\<rparr>) = kni_held s" "kni_ok n (s\<lparr>kni_rate_limt := rl\<rparr>) = kni_ok n s"
  by (simp_all add: kni_held_def kni_ok_def)

lemma held_out [simp]:
  "to_kernel s = ks \<Longrightarrow> kni_held (s\<lparr>to_kernel := ks @ ps\<rparr>) = kni_held s + mset ps" "kni_ok n (s\<lparr>to_kernel := qs\<rparr>) = kni_ok n s"
  "to_nic s = ks \<Longrightarrow> kni_held (s\<lparr>to_nic := ks @ ps\<rparr>) = kni_held s + mset ps" "kni_ok n (s\<lparr>to_nic := qs\<rparr>) = kni_ok n s"
  by (auto simp: kni_held_def kni_ok_def)

lemma held_rp:
  assumes "kni_ok n s" "port < n" "ring_ok r"
  shows "kni_held (s\<lparr>kni_rp := (kni_rp s)[port := r]\<rparr>) + mset (ring_list (kni_rp s ! port)) = kni_held s + mset (ring_list r)"
    "kni_held (s\<lparr>kni_inject_rp := (kni_inject_rp s)[port := r]\<rparr>) + mset (ring_list (kni_inject_rp s ! port)) =
      kni_held s + mset (ring_list r)"
    "kni_ok n (s\<lparr>kni_rp := (kni_rp s)[port := r]\<rparr>)" "kni_ok n (s\<lparr>kni_inject_rp := (kni_inject_rp s)[port := r]\<rparr>)"
  using assms rings_hold_update[of port "kni_rp s" r] rings_hold_update[of port "kni_inject_rp s" r]
  by (simp_all add: kni_held_def kni_ok_def list_all_update ac_simps)

lemma mset_take_drop: "mset (take k xs) + mset (drop k xs) = mset xs"
  by (metis append_take_drop_id mset_append)

lemma u16_length: "length ps < 2 ^ 16 \<Longrightarrow> unat (of_nat (length ps) :: u16) = length ps"
  by (simp add: unat_of_nat)

lemma held_tx_done:
  assumes "length ps < 2 ^ 16" "unat sent \<le> length ps"
  shows "kni_held (tx_done port (of_nat (length ps)) sent ps s) = kni_held s + mset (drop (unat sent) ps)"
    "kni_ok n (tx_done port (of_nat (length ps)) sent ps s) = kni_ok n s"
  using assms by (auto simp: tx_done_def Let_def word_less_nat_alt u16_length)

lemma take_from_ring:
  assumes "kni_ok n s" "port < n" "rte_ring_dequeue_burst (kni_rp s ! port) burst = (ps, r)"
  shows "kni_ok n (s\<lparr>kni_rp := (kni_rp s)[port := r]\<rparr>)" "length ps \<le> unat burst"
    "kni_held (s\<lparr>kni_rp := (kni_rp s)[port := r]\<rparr>) + mset ps = kni_held s"
proof -
  have law: "ring_ok r" "ring_list (kni_rp s ! port) = ps @ ring_list r" "length ps \<le> unat burst"
    using dequeue_burst_law[OF _ assms(3)] assms(1,2) by (auto simp: kni_ok_def list_all_length)
  note h = held_rp[OF assms(1,2) law(1)]
  show "kni_ok n (s\<lparr>kni_rp := (kni_rp s)[port := r]\<rparr>)" "length ps \<le> unat burst" using h(3) law(3) by simp_all
  show "kni_held (s\<lparr>kni_rp := (kni_rp s)[port := r]\<rparr>) + mset ps = kni_held s" using h(1) by (simp add: law(2))
qed

lemma take_from_inject:
  assumes "kni_ok n s" "port < n" "rte_ring_dequeue_burst (kni_inject_rp s ! port) burst = (ps, r)"
  shows "kni_ok n (s\<lparr>kni_inject_rp := (kni_inject_rp s)[port := r]\<rparr>)" "length ps \<le> unat burst"
    "kni_held (s\<lparr>kni_inject_rp := (kni_inject_rp s)[port := r]\<rparr>) + mset ps = kni_held s"
proof -
  have law: "ring_ok r" "ring_list (kni_inject_rp s ! port) = ps @ ring_list r" "length ps \<le> unat burst"
    using dequeue_burst_law[OF _ assms(3)] assms(1,2) by (auto simp: kni_ok_def list_all_length)
  note h = held_rp[OF assms(1,2) law(1)]
  show "kni_ok n (s\<lparr>kni_inject_rp := (kni_inject_rp s)[port := r]\<rparr>)" "length ps \<le> unat burst" using h(4) law(3) by simp_all
  show "kni_held (s\<lparr>kni_inject_rp := (kni_inject_rp s)[port := r]\<rparr>) + mset ps = kni_held s" using h(2) by (simp add: law(2))
qed

lemma kernel_limit_le: "unat (fst (kernel_limit cfg nb rl)) \<le> unat nb"
  by (simp add: kernel_limit_def)

lemma held_process_tx:
  assumes "kni_ok n s" "port < n" "unat burst < 2 ^ 16" "tx_contract eth_tx"
  shows "kni_held (kni_process_tx cfg eth_tx port burst s) = kni_held s \<and> kni_ok n (kni_process_tx cfg eth_tx port burst s)"
proof -
  obtain ps r where d: "rte_ring_dequeue_burst (kni_rp s ! port) burst = (ps, r)" by force
  note t = take_from_ring[OF assms(1,2) d]
  have len: "unat (of_nat (length ps) :: u16) = length ps" using t(2) assms(3) by (intro u16_length) simp
  obtain nb rl where l: "kernel_limit cfg (of_nat (length ps)) (kni_rate_limt s) = (nb, rl)" by force
  define sent where "sent = eth_tx (kni_port_id (kni_stat s ! port)) 0 (take (unat nb) ps)"
  have "unat sent \<le> length (take (unat nb) ps)" using assms(4) unfolding tx_contract_def sent_def by blast
  then have le: "unat sent \<le> length ps" by simp
  have "kni_held s = kni_held (s\<lparr>kni_rp := (kni_rp s)[port := r]\<rparr>) + (mset (take (unat sent) ps) + mset (drop (unat sent) ps))"
    unfolding mset_take_drop using t(3) by simp
  then show ?thesis
    using t(1) le by (auto simp: kni_process_tx_def d l len sent_def[symmetric] word_less_nat_alt Let_def)
qed

lemma contract_le: "tx_contract eth_tx \<Longrightarrow> unat (eth_tx p q ps) \<le> length ps"
  by (simp add: tx_contract_def)

lemma held_inject_put:
  assumes "kni_ok n s" "port < n" "length ps < 2 ^ 16" "rte_ring_enqueue_burst (kni_inject_rp s ! port) ps = (enq, r)"
  shows "kni_ok n (s\<lparr>kni_inject_rp := (kni_inject_rp s)[port := r]\<rparr>)" "unat enq \<le> length ps"
    "kni_held (s\<lparr>kni_inject_rp := (kni_inject_rp s)[port := r]\<rparr>) = kni_held s + mset (take (unat enq) ps)"
proof -
  have law: "ring_ok r" "ring_list r = ring_list (kni_inject_rp s ! port) @ take (unat enq) ps" "unat enq \<le> length ps"
    using enqueue_burst_law[OF _ _ assms(4)] assms(1-3) by (auto simp: kni_ok_def list_all_length)
  note h = held_rp[OF assms(1,2) law(1)]
  show "kni_ok n (s\<lparr>kni_inject_rp := (kni_inject_rp s)[port := r]\<rparr>)" "unat enq \<le> length ps" using h(4) law(3) by simp_all
  show "kni_held (s\<lparr>kni_inject_rp := (kni_inject_rp s)[port := r]\<rparr>) = kni_held s + mset (take (unat enq) ps)"
    using h(2) by (simp add: law(2))
qed

lemma held_process_rx:
  assumes "kni_ok n s" "port < n" "length ps < 2 ^ 16" "tx_contract eth_tx"
  shows "kni_held (kni_process_rx cfg e eth_tx ps port q s) = kni_held s + mset ps \<and> kni_ok n (kni_process_rx cfg e eth_tx ps port q s)"
proof -
  have len: "unat (of_nat (length ps) :: u16) = length ps" by (rule u16_length[OF assms(3)])
  consider "ps = []" | "ps \<noteq> []" "primary_slim (dpdk cfg) \<noteq> 0 \<and> is_primary e"
    | "ps \<noteq> []" "\<not> (primary_slim (dpdk cfg) \<noteq> 0 \<and> is_primary e)" by blast
  then show ?thesis
  proof cases
    case 2
    obtain enq r where d: "rte_ring_enqueue_burst (kni_inject_rp s ! port) ps = (enq, r)" by force
    note t = held_inject_put[OF assms(1-3) d]
    have e: "unat (ucast enq :: u16) = unat enq"
      using t(2) assms(3) by (simp add: unsigned_ucast_eq take_bit_nat_eq_self_iff)
    have "kni_held s + mset ps = kni_held s + (mset (take (unat enq) ps) + mset (drop (unat enq) ps))"
      unfolding mset_take_drop by simp
    then show ?thesis using 2 t held_tx_done[OF assms(3), of "ucast enq"]
      by (simp add: kni_process_rx_def len d e word_less_nat_alt)
  next
    case 3
    have le: "unat (eth_tx (of_nat port) q ps) \<le> length ps" by (rule contract_le[OF assms(4)])
    have "kni_held s + mset ps = kni_held s + (mset (take (unat (eth_tx (of_nat port) q ps)) ps) + mset (drop (unat (eth_tx (of_nat port) q ps)) ps))"
      unfolding mset_take_drop by simp
    then show ?thesis using 3 assms(1) held_tx_done[OF assms(3) le] by (auto simp: kni_process_rx_def len word_less_nat_alt Let_def)
  qed (use assms(1) in \<open>simp add: kni_process_rx_def\<close>)
qed

lemma held_inject:
  assumes "kni_ok n s" "port < n" "unat burst < 2 ^ 16" "tx_contract eth_tx"
  shows "kni_held (ff_kni_inject_process eth_tx port q burst s) = kni_held s \<and> kni_ok n (ff_kni_inject_process eth_tx port q burst s)"
proof -
  obtain ps r where d: "rte_ring_dequeue_burst (kni_inject_rp s ! port) burst = (ps, r)" by force
  note t = take_from_inject[OF assms(1,2) d]
  have small: "length ps < 2 ^ 16" using t(2) assms(3) by simp
  note len = u16_length[OF small]
  define sent where "sent = eth_tx (of_nat port) q ps"
  have le: "unat sent \<le> length ps" unfolding sent_def by (rule contract_le[OF assms(4)])
  have "kni_held s = kni_held (s\<lparr>kni_inject_rp := (kni_inject_rp s)[port := r]\<rparr>) + (mset (take (unat sent) ps) + mset (drop (unat sent) ps))"
    unfolding mset_take_drop using t(3) by simp
  moreover have "(of_nat (length ps) :: u16) = 0 \<longleftrightarrow> ps = []" unfolding word_unat_eq_iff len by simp
  ultimately show ?thesis using t held_tx_done[OF small le]
    by (auto simp: ff_kni_inject_process_def d len sent_def[symmetric] Let_def)
qed

lemma held_enqueue:
  assumes "kni_ok n s" "port < n"
  shows "kni_held (snd (ff_kni_enqueue cfg e filt port pkt s)) = kni_held s + {#pkt#} \<and> kni_ok n (snd (ff_kni_enqueue cfg e filt port pkt s))"
proof -
  obtain ok rl where l: "enqueue_limit (kni cfg) filt (kni_rate_limt s) = (ok, rl)" by force
  obtain ret r where r: "rte_ring_enqueue (kni_rp s ! port) pkt = (ret, r)" by force
  have law: "ring_ok r" "if ret < 0 then r = kni_rp s ! port else ret = 0 \<and> ring_list r = ring_list (kni_rp s ! port) @ [pkt]"
    using enqueue_law[OF _ r] assms by (auto simp: kni_ok_def list_all_length)
  have s: "kni_ok n (s\<lparr>kni_rate_limt := rl\<rparr>)" using assms(1) by simp
  note h = held_rp(1,3)[OF s assms(2) law(1)]
  show ?thesis using assms(1) law(2) h by (auto simp: ff_kni_enqueue_def l r Let_def split: if_splits)
qed

text \<open>Components that pass packets on: what a step brings in is added to what is held, and nothing is lost or doubled.\<close>

locale conserving =
  fixes valid :: "'s \<Rightarrow> bool"
    and held :: "'s \<Rightarrow> 'p multiset"
    and given :: "'op \<Rightarrow> 'p list"
    and fits :: "'op \<Rightarrow> bool"
    and step :: "'op \<Rightarrow> 's \<Rightarrow> 's"
  assumes conserves: "valid s \<Longrightarrow> fits op \<Longrightarrow> valid (step op s) \<and> held (step op s) = held s + mset (given op)"
begin

lemma fold_conserves:
  "valid s \<Longrightarrow> list_all fits ops \<Longrightarrow>
    valid (fold step ops s) \<and> held (fold step ops s) = held s + mset (concat (map given ops))"
proof (induction ops arbitrary: s)
  case (Cons op ops)
  then show ?case using conserves[of s op] by (simp add: ac_simps)
qed simp

end

lemma step_conserves:
  assumes "kni_ok n s" "op_fits n op" "tx_contract eth_tx"
  shows "kni_ok n (snd (kni_step cfg e eth_tx op s)) \<and> kni_held (snd (kni_step cfg e eth_tx op s)) = kni_held s + mset (op_given op)"
proof (cases op)
  case (Enqueue filt port pkt)
  then show ?thesis using held_enqueue[OF assms(1), of port cfg e filt pkt] assms(2) by simp
next
  case (Process port q burst received)
  let ?s = "kni_process_tx (kni cfg) eth_tx port burst s"
  have tx: "kni_held ?s = kni_held s \<and> kni_ok n ?s"
    using assms Process by (intro held_process_tx) simp_all
  then have "kni_held (kni_process_rx cfg e eth_tx received port q ?s) = kni_held ?s + mset received \<and>
      kni_ok n (kni_process_rx cfg e eth_tx received port q ?s)"
    using assms Process by (intro held_process_rx) simp_all
  then show ?thesis using tx by (simp add: Process ff_kni_process_def)
next
  case (Inject port q burst)
  then show ?thesis using held_inject[OF assms(1) _ _ assms(3), of port burst q] assms(2) by simp
qed

interpretation kni_queue: conserving "kni_ok n" kni_held op_given "\<lambda>op. op_fits n op \<and> tx_contract eth_tx"
  "\<lambda>op s. snd (kni_step cfg e eth_tx op s)" for n eth_tx cfg e
  by unfold_locales (use step_conserves in blast)

lemma run_state: "snd (kni_run cfg e eth_tx ops s) = fold (\<lambda>op s. snd (kni_step cfg e eth_tx op s)) ops s"
  by (induction ops arbitrary: s) (simp_all split: prod.splits, metis snd_conv)

section \<open>Rates\<close>

lemma frame [simp]:
  "kni_rate_limt (free_pkts ps s) = kni_rate_limt s" "kni_rate_limt (upd_stat p f s) = kni_rate_limt s"
  "kni_rate_limt (tx_done p nb sent ps s) = kni_rate_limt s"
  "to_kernel (free_pkts ps s) = to_kernel s" "to_kernel (upd_stat p f s) = to_kernel s"
  "to_kernel (tx_done p nb sent ps s) = to_kernel s"
  by (simp_all add: free_pkts_def upd_stat_def tx_done_def Let_def)

lemma frame_rx [simp]:
  "kni_rate_limt (kni_process_rx cfg e eth_tx ps port q s) = kni_rate_limt s"
  "to_kernel (kni_process_rx cfg e eth_tx ps port q s) = to_kernel s"
  by (simp_all add: kni_process_rx_def Let_def split: prod.splits)

lemma frame_inject [simp]:
  "kni_rate_limt (ff_kni_inject_process eth_tx port q burst s) = kni_rate_limt s"
  "to_kernel (ff_kni_inject_process eth_tx port q burst s) = to_kernel s"
  by (simp_all add: ff_kni_inject_process_def Let_def split: prod.splits)

lemma process_tx_rate:
  assumes "kni_ok n s" "port < n" "unat burst < 2 ^ 16" "tx_contract eth_tx"
  obtains d k where "d \<le> unat burst" "k \<le> unat (fst (kernel_limit cfg (of_nat d) (kni_rate_limt s)))"
    "kni_rate_limt (kni_process_tx cfg eth_tx port burst s) = snd (kernel_limit cfg (of_nat d) (kni_rate_limt s))"
    "length (to_kernel (kni_process_tx cfg eth_tx port burst s)) = length (to_kernel s) + k"
proof -
  obtain ps r where d: "rte_ring_dequeue_burst (kni_rp s ! port) burst = (ps, r)" by force
  note t = take_from_ring[OF assms(1,2) d]
  obtain nb rl where l: "kernel_limit cfg (of_nat (length ps)) (kni_rate_limt s) = (nb, rl)" by force
  define sent where "sent = eth_tx (kni_port_id (kni_stat s ! port)) 0 (take (unat nb) ps)"
  have le: "unat sent \<le> length (take (unat nb) ps)" unfolding sent_def by (rule contract_le[OF assms(4)])
  show ?thesis
  proof (rule that[of "length ps" "unat sent"])
    show "unat sent \<le> unat (fst (kernel_limit cfg (of_nat (length ps)) (kni_rate_limt s)))" using le l by simp
  qed (use t(2) le in \<open>simp_all add: kni_process_tx_def d l sent_def[symmetric] Let_def\<close>)
qed

fun burst_at_most :: "nat \<Rightarrow> 'p kni_op \<Rightarrow> bool" where
  "burst_at_most b (Enqueue filt port_id pkt) = True"
| "burst_at_most b (Process port_id queue_id burst received) = (unat burst \<le> b)"
| "burst_at_most b (Inject port_id queue_id burst) = (unat burst \<le> b)"

lemma frame_enqueue:
  "kni_rate_limt (snd (ff_kni_enqueue cfg e filt port pkt s)) = snd (enqueue_limit (kni cfg) filt (kni_rate_limt s))"
  "to_kernel (snd (ff_kni_enqueue cfg e filt port pkt s)) = to_kernel s"
  by (simp_all add: ff_kni_enqueue_def Let_def split: prod.splits)

lemma enqueue_limit_kernel: "kernel_packets (snd (enqueue_limit cfg filt rl)) = kernel_packets rl"
  by (simp add: enqueue_limit_def)

lemma kernel_limit_counts:
  assumes "0 < kernel_packets_ratelimit cfg" "kernel_packets_ratelimit cfg < 2 ^ 63" "d < 2 ^ 16"
    "unat (kernel_packets rl) + d < 2 ^ 64"
  shows "unat (kernel_packets (snd (kernel_limit cfg (of_nat d) rl))) = unat (kernel_packets rl) + d"
    "unat (fst (kernel_limit cfg (of_nat d) rl)) \<le> (if unat (kernel_packets rl) < nat (kernel_packets_ratelimit cfg) then d else 0)"
proof -
  obtain m where m: "kernel_packets_ratelimit cfg = int m" "0 < m" "m < 2 ^ 63"
    using assms(1,2) by (metis nat_less_numeral_power_cancel_iff pos_int_cases of_nat_less_numeral_power_cancel_iff)
  have lim: "kernel_packets rl < of_nat m \<longleftrightarrow> unat (kernel_packets rl) < m"
    using m(3) by (simp add: word_less_nat_alt unat_of_nat)
  have d: "unat (of_nat d :: u16) = d" using assms(3) by (simp add: unat_of_nat)
  then have "unat (ucast (of_nat d :: u16) :: u64) = d" by (simp add: unat_ucast_widen)
  then show "unat (kernel_packets (snd (kernel_limit cfg (of_nat d) rl))) = unat (kernel_packets rl) + d"
    using m assms(4) by (simp add: kernel_limit_def unat_word_ariths)
  show "unat (fst (kernel_limit cfg (of_nat d) rl)) \<le> (if unat (kernel_packets rl) < nat (kernel_packets_ratelimit cfg) then d else 0)"
    using m d lim by (simp add: kernel_limit_def)
qed

text \<open>One step: the counter grows by what was taken from a ring, and nothing is sent once it has reached the limit.\<close>

lemma kernel_rate_step:
  fixes s :: "'p kni_state"
  defines "K \<equiv> \<lambda>s :: 'p kni_state. unat (kernel_packets (kni_rate_limt s))"
  assumes "kni_ok n s" "op_fits n op" "burst_at_most b op" "tx_contract eth_tx"
    "0 < kernel_packets_ratelimit (kni cfg)" "kernel_packets_ratelimit (kni cfg) < 2 ^ 63" "K s + 65535 < 2 ^ 64"
  obtains d k where "d \<le> b" "d \<le> 65535" "K (snd (kni_step cfg e eth_tx op s)) = K s + d"
    "length (to_kernel (snd (kni_step cfg e eth_tx op s))) = length (to_kernel s) + k"
    "k \<le> (if K s < nat (kernel_packets_ratelimit (kni cfg)) then d else 0)"
proof (cases op)
  case (Process port q burst received)
  then have p: "port < n" "unat burst < 2 ^ 16" "unat burst \<le> b" using assms(3,4) by simp_all
  obtain d k where dk: "d \<le> unat burst" "k \<le> unat (fst (kernel_limit (kni cfg) (of_nat d) (kni_rate_limt s)))"
    "kni_rate_limt (kni_process_tx (kni cfg) eth_tx port burst s) = snd (kernel_limit (kni cfg) (of_nat d) (kni_rate_limt s))"
    "length (to_kernel (kni_process_tx (kni cfg) eth_tx port burst s)) = length (to_kernel s) + k"
    using process_tx_rate[OF assms(2) p(1,2) assms(5)] by blast
  have "d < 2 ^ 16" "unat (kernel_packets (kni_rate_limt s)) + d < 2 ^ 64" using dk(1) p(2) assms(8) by (simp_all add: K_def)
  note c = kernel_limit_counts[OF assms(6,7) this]
  show ?thesis
  proof (rule that[of d k])
    show "k \<le> (if K s < nat (kernel_packets_ratelimit (kni cfg)) then d else 0)" using c(2) dk(2) by (simp add: K_def)
  qed (use dk p c(1) in \<open>simp_all add: Process ff_kni_process_def K_def\<close>)
next
  case (Enqueue filt port pkt)
  then show ?thesis using that[of 0 0] by (simp add: frame_enqueue enqueue_limit_kernel K_def)
next
  case (Inject port q burst)
  then show ?thesis using that[of 0 0] by (simp add: K_def)
qed

lemma run_Cons:
  "kni_run cfg e eth_tx (op # ops) s =
    (let (ret, s1) = kni_step cfg e eth_tx op s
     in (ret # fst (kni_run cfg e eth_tx ops s1), snd (kni_run cfg e eth_tx ops s1)))"
  by (simp split: prod.splits)

lemma run_kernel_rate:
  fixes s :: "'p kni_state" and cfg :: ff_config
  defines "K \<equiv> \<lambda>s :: 'p kni_state. unat (kernel_packets (kni_rate_limt s))"
    and "L \<equiv> nat (kernel_packets_ratelimit (kni cfg))"
  assumes "kni_ok n s" "list_all (op_fits n) ops" "list_all (burst_at_most b) ops" "tx_contract eth_tx"
    "0 < kernel_packets_ratelimit (kni cfg)" "kernel_packets_ratelimit (kni cfg) < 2 ^ 63" "K s + 65535 * length ops < 2 ^ 64"
  shows "length (to_kernel (snd (kni_run cfg e eth_tx ops s))) \<le> length (to_kernel s) + (if K s < L then L - K s + b - 1 else 0)"
  using assms(3-5,9)
proof (induction ops arbitrary: s)
  case (Cons op ops)
  have f: "op_fits n op" "burst_at_most b op" "K s + 65535 < 2 ^ 64" using Cons.prems by simp_all
  let ?s = "snd (kni_step cfg e eth_tx op s)"
  obtain d k where dk: "d \<le> b" "d \<le> 65535" "K ?s = K s + d" "length (to_kernel ?s) = length (to_kernel s) + k"
    "k \<le> (if K s < L then d else 0)"
    using kernel_rate_step[OF Cons.prems(1) f(1,2) assms(6,7,8) f(3)[unfolded K_def]] unfolding K_def L_def by blast
  have "kni_ok n ?s" using step_conserves[OF Cons.prems(1) f(1) assms(6)] by blast
  then have "length (to_kernel (snd (kni_run cfg e eth_tx ops ?s))) \<le> length (to_kernel ?s) + (if K ?s < L then L - K ?s + b - 1 else 0)"
    using Cons.prems dk(2,3) by (intro Cons.IH) simp_all
  then show ?case using dk by (auto simp: run_Cons split: if_splits prod.splits)
qed simp

text \<open>The packets of a class that were queued, by the return codes.\<close>

fun queued :: "bool \<Rightarrow> 'p kni_op \<times> int \<Rightarrow> bool" where
  "queued console (Enqueue filt port_id pkt, ret) \<longleftrightarrow> ret = 0 \<and> (filter_value filt \<ge> filter_value FILTER_ARP \<longleftrightarrow> console)"
| "queued console _ \<longleftrightarrow> False"

definition class_limit :: "bool \<Rightarrow> ff_kni_cfg \<Rightarrow> int" where
  "class_limit console cfg = (if console then console_packets_ratelimit cfg else general_packets_ratelimit cfg)"

definition class_count :: "bool \<Rightarrow> 'p kni_state \<Rightarrow> nat" where
  "class_count console s = unat (if console then console_packets (kni_rate_limt s) else gerneal_packets (kni_rate_limt s))"

lemma class_frame:
  "class_count c (ff_kni_process cfg e eth_tx ps port q burst s) = class_count c s"
  "class_count c (ff_kni_inject_process eth_tx port q burst s) = class_count c s"
  by (simp_all add: class_count_def ff_kni_process_def kni_process_tx_def kernel_limit_def Let_def split: prod.splits)

lemma class_rate_step:
  assumes "0 < class_limit c (kni cfg)" "class_limit c (kni cfg) < 2 ^ 63" "class_count c s + 1 < 2 ^ 64"
    "kni_step cfg e eth_tx op s = (ret, s')"
  shows "class_count c s \<le> class_count c s' \<and> class_count c s' \<le> class_count c s + 1 \<and>
    (queued c (op, ret) \<longrightarrow> class_count c s' = class_count c s + 1 \<and> class_count c s' \<le> nat (class_limit c (kni cfg)))"
proof (cases op)
  case (Enqueue filt port pkt)
  obtain m where m: "class_limit c (kni cfg) = int m" "0 < m" "m < 2 ^ 63"
    using assms(1,2) by (metis nat_less_numeral_power_cancel_iff pos_int_cases of_nat_less_numeral_power_cancel_iff)
  have lim: "w + 1 > of_nat m \<longleftrightarrow> unat w + 1 > m" "unat (w + 1) = unat w + 1" if "unat w + 1 < 2 ^ 64" for w :: u64
    using m(3) that by (simp_all add: word_less_nat_alt unat_of_nat unat_word_ariths)
  obtain ok rl where l: "enqueue_limit (kni cfg) filt (kni_rate_limt s) = (ok, rl)" by force
  have rl: "kni_rate_limt s' = rl" using frame_enqueue(1)[of cfg e filt port pkt s] assms(4) l by (simp add: Enqueue)
  have ret: "ret = 0 \<Longrightarrow> ok" using assms(4) by (auto simp: Enqueue ff_kni_enqueue_def l Let_def split: if_splits)
  show ?thesis using l ret m(1,2) assms(3) lim[of "console_packets (kni_rate_limt s)"] lim[of "gerneal_packets (kni_rate_limt s)"]
    by (auto simp: Enqueue class_count_def class_limit_def rl enqueue_limit_def split: if_splits)
qed (use assms(4) in \<open>auto simp: class_frame\<close>)

lemma run_class_rate:
  assumes "0 < class_limit c (kni cfg)" "class_limit c (kni cfg) < 2 ^ 63" "class_count c s + length ops < 2 ^ 64"
  shows "length (filter (queued c) (zip ops (fst (kni_run cfg e eth_tx ops s)))) \<le> nat (class_limit c (kni cfg)) - class_count c s"
  using assms(3)
proof (induction ops arbitrary: s)
  case (Cons op ops)
  obtain ret s1 where s1: "kni_step cfg e eth_tx op s = (ret, s1)" by force
  have "class_count c s + 1 < 2 ^ 64" using Cons.prems by simp
  note st = class_rate_step[OF assms(1,2) this s1]
  have "length (filter (queued c) (zip ops (fst (kni_run cfg e eth_tx ops s1)))) \<le> nat (class_limit c (kni cfg)) - class_count c s1"
    using st Cons.prems by (intro Cons.IH) simp
  then show ?case using st by (auto simp: run_Cons s1 Let_def simp del: kni_run.simps(2))
qed simp

section \<open>Properties\<close>

text \<open>C13. No packet is lost or doubled on the way to the kernel and back: over any sequence of queueing, exchanges with
  the kernel and injections, on any of the ports, the packets brought in are, each exactly once, in a ring, with the kernel,
  on a NIC or back in their pool, provided that the devices take at most the packets they are given; full rings and
  exhausted limits are included.\<close>

theorem kni_conserves:
  assumes "kni_ok n s" "list_all (op_fits n) ops" "tx_contract eth_tx" "kni_run cfg e eth_tx ops s = (rets, s')"
  shows "kni_ok n s' \<and> kni_held s' = kni_held s + mset (concat (map op_given ops))"
proof -
  have "list_all (\<lambda>op. op_fits n op \<and> tx_contract eth_tx) ops" using assms(2,3) by (simp add: list_all_iff)
  moreover have "s' = fold (\<lambda>op s. snd (kni_step cfg e eth_tx op s)) ops s"
    using run_state[of cfg e eth_tx ops s] assms(4) by simp
  ultimately show ?thesis using kni_queue.fold_conserves[OF assms(1), of eth_tx ops cfg e] by simp
qed

definition demo_kni :: "nat kni_state" where
  "demo_kni = the (ff_kni_alloc 0 1 0 0 4
    \<lparr>kni_rp = [the (rte_ring_init 0 4)], kni_inject_rp = [the (rte_ring_init 0 4)], kni_stat = [\<lparr>kni_port_id = 0, rx_packets = 0, rx_dropped = 0,
       tx_packets = 0, tx_dropped = 0\<rparr>], kni_rate_limt = \<lparr>console_packets = 0, gerneal_packets = 0, kernel_packets = 0\<rparr>,
     to_kernel = [], to_nic = [], pkt_freed = []\<rparr>)"

definition demo_ops :: "nat kni_op list" where
  "demo_ops = [Enqueue FILTER_KNI 0 1, Enqueue FILTER_ARP 0 2, Enqueue FILTER_KNI 0 3, Enqueue FILTER_KNI 0 4, Process 0 0 32 [5, 6],
     Inject 0 0 32]"

definition half_tx :: "'p tx_burst" where
  "half_tx port queue pkts = of_nat (length pkts mod 65536 div 2)"

lemma half_tx_contract: "tx_contract half_tx"
proof -
  have "unat (of_nat (length pkts mod 65536 div 2) :: u16) \<le> length pkts" for pkts :: "'a list"
  proof -
    have small: "length pkts mod 65536 div 2 < 2 ^ 16" by (rule order.strict_trans1[OF div_le_dividend]) simp
    have "unat (of_nat (length pkts mod 65536 div 2) :: u16) = length pkts mod 65536 div 2"
      using small by (simp only: unat_of_nat) simp
    also have "\<dots> \<le> length pkts" by (metis div_le_dividend mod_less_eq_dividend order.trans)
    finally show ?thesis .
  qed
  then show ?thesis by (simp add: tx_contract_def half_tx_def)
qed

lemma demo_kni_ok: "kni_ok 1 demo_kni" "list_all (op_fits 1) demo_ops" "list_all (burst_at_most 32) demo_ops" "kni_held demo_kni = {#}"
proof -
  have i: "rte_ring_init 0 4 = Some (the (rte_ring_init (0 :: nat) 4))" by code_simp
  note r = init_result[OF i]
  show "kni_ok 1 demo_kni" "kni_held demo_kni = {#}"
    using r by (simp_all add: demo_kni_def ff_kni_alloc_def kni_ok_def kni_held_def rings_hold_def Let_def split: option.splits) (use i in auto)
qed (simp_all add: demo_ops_def)

theorem kni_conserves_witness:
  "\<forall>cfg e. kni_held (snd (kni_run cfg e half_tx demo_ops demo_kni)) = {#1, 2, 3, 4, 5, 6#}"
  using kni_conserves[OF demo_kni_ok(1,2) half_tx_contract prod.collapse[symmetric]] demo_kni_ok(4)
  by (simp add: demo_ops_def)

text \<open>C15. The limits hold between two resets of the counters: at most the configured numbers of console and of other
  packets are queued for the kernel, and at most the configured number plus one burst less one packet is sent to it; a limit
  of 0 is none.\<close>

theorem kni_rates:
  fixes s :: "'p kni_state"
  assumes "kni_ok n s" "list_all (op_fits n) ops" "list_all (burst_at_most b) ops" "tx_contract eth_tx"
    "kni_rate_limt s = ratelimit_reset rl" "length ops < 2 ^ 32" "kni_run cfg e eth_tx ops s = (rets, s')"
    "kernel_packets_ratelimit (kni cfg) < 2 ^ 31" "class_limit True (kni cfg) < 2 ^ 31" "class_limit False (kni cfg) < 2 ^ 31"
  shows "(0 < kernel_packets_ratelimit (kni cfg) \<longrightarrow>
      length (to_kernel s') \<le> length (to_kernel s) + nat (kernel_packets_ratelimit (kni cfg)) + b - 1) \<and>
    (\<forall>console. 0 < class_limit console (kni cfg) \<longrightarrow>
      length (filter (queued console) (zip ops rets)) \<le> nat (class_limit console (kni cfg)))"
proof (intro conjI allI impI)
  have zero: "kernel_packets (kni_rate_limt s) = 0" "class_count c s = 0" for c
    using assms(5) by (simp_all add: ratelimit_reset_def class_count_def)
  show "length (to_kernel s') \<le> length (to_kernel s) + nat (kernel_packets_ratelimit (kni cfg)) + b - 1"
    if pos: "0 < kernel_packets_ratelimit (kni cfg)"
    using run_kernel_rate[OF assms(1-4) pos, of e] assms(6-8) pos zero(1) by simp
  show "length (filter (queued console) (zip ops rets)) \<le> nat (class_limit console (kni cfg))"
    if pos: "0 < class_limit console (kni cfg)" for console
    using run_class_rate[OF pos, of s ops e eth_tx] assms(6,7,9,10) zero(2) by (cases console) simp_all
qed

definition demo_limits :: ff_kni_cfg where
  "demo_limits = \<lparr>kni_enable = 1, console_packets_ratelimit = 1, general_packets_ratelimit = 2, kernel_packets_ratelimit = 2,
     owner_proc_id = 0, kni_action = None, kni_method = None, kni_tcp_port = None, kni_udp_port = None\<rparr>"

theorem kni_rates_witness:
  "\<forall>cfg e. length (to_kernel (snd (kni_run (cfg\<lparr>kni := demo_limits\<rparr>) e half_tx demo_ops demo_kni))) \<le> 33 \<and>
     length (filter (queued False) (zip demo_ops (fst (kni_run (cfg\<lparr>kni := demo_limits\<rparr>) e half_tx demo_ops demo_kni)))) \<le> 2"
proof (intro allI)
  fix cfg e
  have start: "kni_rate_limt demo_kni = ratelimit_reset (kni_rate_limt demo_kni)" "to_kernel demo_kni = []" by code_simp+
  have len: "length demo_ops < 2 ^ 32" by (simp add: demo_ops_def)
  have lim: "kernel_packets_ratelimit demo_limits = 2" "class_limit False demo_limits = 2" "class_limit True demo_limits = 1"
    by (simp_all add: demo_limits_def class_limit_def)
  from kni_rates[OF demo_kni_ok(1-3) half_tx_contract start(1) len prod.collapse[symmetric],
      where cfg = "cfg\<lparr>kni := demo_limits\<rparr>" and e = e] start(2)
  show "length (to_kernel (snd (kni_run (cfg\<lparr>kni := demo_limits\<rparr>) e half_tx demo_ops demo_kni))) \<le> 33 \<and>
     length (filter (queued False) (zip demo_ops (fst (kni_run (cfg\<lparr>kni := demo_limits\<rparr>) e half_tx demo_ops demo_kni)))) \<le> 2"
    by (auto simp: lim dest: spec[where x = False])
qed

end
