(* ===== verification/FF_Rx.thy ===== *)
theory FF_Rx
  imports FF_Kni_Io
begin

text \<open>
  The receive path (\<open>ff_dpdk_if.c\<close>): what becomes of the packets of a burst. A packet may be dropped, answered or sent to
  another queue by the application's dispatcher, copied to all queues when it is ARP or neighbour discovery, queued for the
  kernel, or handed to the FreeBSD stack. It is the default build, with IPv6 and KNI; the capture of packets is left out.

  Parameters are what is not F-Stack's own code: the dispatcher, the results of the allocations from the buffer pools of
  DPDK and of FreeBSD, and how many packets a NIC takes. A buffer is named by its address, and a packet is a chain of buffers.
\<close>

section \<open>Packets\<close>

record mbuf_seg =
  seg_addr :: nat
  seg_data :: "nat \<Rightarrow> u8"
  data_len :: u16
  seg_headroom :: nat

record rte_mbuf =
  m_segs :: "mbuf_seg list"
  pkt_len :: u32
  nb_segs :: u16
  vlan_stripped :: bool
  vlan_tci :: u16
  cksum_bad :: bool

definition seg0 :: "rte_mbuf \<Rightarrow> mbuf_seg" where
  "seg0 m = hd (m_segs m)"

definition mtod :: "rte_mbuf \<Rightarrow> memory" where
  "mtod m = seg_data (seg0 m)"

definition m_len :: "rte_mbuf \<Rightarrow> u16" where
  "m_len m = data_len (seg0 m)"

definition set_seg0 :: "(mbuf_seg \<Rightarrow> mbuf_seg) \<Rightarrow> rte_mbuf \<Rightarrow> rte_mbuf" where
  "set_seg0 f m = m\<lparr>m_segs := f (seg0 m) # tl (m_segs m)\<rparr>"

definition be16 :: "memory \<Rightarrow> nat \<Rightarrow> u16" where
  "be16 data i = bytes_u16 (data (i + 1)) (data i)"

abbreviation (input) "RTE_ETHER_TYPE_VLAN \<equiv> 0x8100 :: u16"
abbreviation (input) "RTE_ETHER_TYPE_ARP \<equiv> 0x0806 :: u16"

section \<open>Classification of a frame\<close>

text \<open>None when the filter of IP packets does not return; see \<open>FF_Kni\<close> for the bound of its fuel.\<close>

definition ip_filter :: "kni_ports \<Rightarrow> memory \<Rightarrow> u16 \<Rightarrow> u16 \<Rightarrow> FilterReturn option" where
  "ip_filter k data len ether_type = ff_kni_proto_filter (2 * unat len + 2) k data (unat len) ether_type"

definition protocol_filter :: "kni_ports \<Rightarrow> memory \<Rightarrow> u16 \<Rightarrow> FilterReturn option" where
  "protocol_filter k data len =
    (if len < 6 then Some FILTER_UNKNOWN
     else
       let hdr = data; ether_type = be16 hdr 12; data = shift data 14; len = len - 14;
           (ether_type, data, len) = (if ether_type = RTE_ETHER_TYPE_VLAN then (be16 data 2, shift data 4, len - 4)
                                      else (ether_type, data, len))
       in if ether_type = RTE_ETHER_TYPE_ARP then Some FILTER_ARP
          else if hdr 0 AND 1 \<noteq> 0 then Some FILTER_MULTI
          else if ether_type = RTE_ETHER_TYPE_IPV6 then ip_filter k data len ether_type
          else if \<not> enable_kni k then Some FILTER_UNKNOWN
          else if ether_type \<noteq> RTE_ETHER_TYPE_IPV4 then Some FILTER_UNKNOWN
          else ip_filter k data len ether_type)"

text \<open>The flags of the TCP header behind an IP header.\<close>

definition ip_tcp_syn :: "u16 \<Rightarrow> memory \<Rightarrow> u16 \<Rightarrow> bool" where
  "ip_tcp_syn ether_type data len =
    (let syn = (\<lambda>tcph :: memory. tcph 13 AND (0x02 OR 0x10) = 0x02)
     in if ether_type = RTE_ETHER_TYPE_IPV4 then
          if len < 20 then False
          else if data 9 \<noteq> IPPROTO_TCP then False
          else let ihl = push_bit 2 (data 0 AND 0x0f)
               in if ihl < 20 \<or> unat len < unat ihl + 20 then False else syn (shift data (unat ihl))
        else if ether_type = RTE_ETHER_TYPE_IPV6 then
          if len < 40 + 20 then False
          else if data 6 \<noteq> IPPROTO_TCP then False
          else syn (shift data 40)
        else False)"

definition is_tcp_syn :: "memory \<Rightarrow> u16 \<Rightarrow> bool" where
  "is_tcp_syn data len =
    (if len < 14 then False
     else
       let ether_type = be16 data 12; data = shift data 14; len = len - 14
       in if ether_type = RTE_ETHER_TYPE_VLAN then
            if len < 4 then False else ip_tcp_syn (be16 data 2) (shift data 4) (len - 4)
          else ip_tcp_syn ether_type data len)"

text \<open>The VLAN tag that the NIC has stripped is put back in front of the packet, when there is room.\<close>

definition tagged :: "u16 \<Rightarrow> memory \<Rightarrow> memory" where
  "tagged tci data = (\<lambda>i.
    if i < 12 then data i else if i = 12 then 0x81 else if i = 13 then 0x00
    else if i = 14 then ucast (drop_bit 8 tci) else if i = 15 then ucast tci else data (i - 4))"

definition ff_add_vlan_tag :: "rte_mbuf \<Rightarrow> rte_mbuf" where
  "ff_add_vlan_tag m =
    (if vlan_stripped m \<and> 4 \<le> seg_headroom (seg0 m)
     then (set_seg0 (\<lambda>sg. sg\<lparr>seg_data := tagged (vlan_tci m) (seg_data sg), data_len := data_len sg + 4,
                          seg_headroom := seg_headroom sg - 4\<rparr>) m)\<lparr>pkt_len := pkt_len m + 4\<rparr>
     else m)"

section \<open>State\<close>

datatype FF_KNICTL_ACTION = FF_KNICTL_ACTION_DEFAULT | FF_KNICTL_ACTION_ALL_TO_KNI | FF_KNICTL_ACTION_ALL_TO_FF | FF_KNICTL_ACTION_MAX

record ff_traffic_args =
  t_rx_packets :: u64
  t_rx_bytes :: u64
  t_rx_dropped :: u64
  t_tx_packets :: u64
  t_tx_bytes :: u64
  t_tx_dropped :: u64

text \<open>The last fields record what left: the packets given to the stack and to the NIC, and the buffers freed.\<close>

record rx_state =
  rx_kni :: "rte_mbuf kni_state"
  dispatch_ring :: "rte_mbuf rte_ring list list"
  tx_mbufs :: "rte_mbuf list list"
  kni_accept :: bool
  knictl_action :: FF_KNICTL_ACTION
  ff_traffic :: ff_traffic_args
  allocs :: nat
  bsd_allocs :: nat
  to_stack :: "rte_mbuf list"
  nic_sent :: "rte_mbuf list"
  seg_freed :: "nat list"

record rx_env =
  rx_cfg :: ff_config
  rx_eal :: eal
  rx_ports :: kni_ports
  rx_dispatcher :: "(rte_mbuf \<Rightarrow> u16 \<Rightarrow> u16 \<Rightarrow> int \<times> memory \<times> u16) option"
  rx_alloc :: "nat \<Rightarrow> (nat \<times> memory) option"
  rx_bsd_alloc :: "nat \<Rightarrow> bool"
  rx_tx :: "rte_mbuf tx_burst"
  rx_csum :: bool

datatype rx_fault = Endless_Filter | No_Such_Queue

definition buffers :: "rte_mbuf \<Rightarrow> nat list" where
  "buffers m = map seg_addr (m_segs m)"

definition free_segs :: "nat list \<Rightarrow> rx_state \<Rightarrow> rx_state" where
  "free_segs as s = s\<lparr>seg_freed := seg_freed s @ as\<rparr>"

definition rte_pktmbuf_free :: "rte_mbuf \<Rightarrow> rx_state \<Rightarrow> rx_state" where
  "rte_pktmbuf_free m s = free_segs (buffers m) s"

definition traffic :: "(ff_traffic_args \<Rightarrow> ff_traffic_args) \<Rightarrow> rx_state \<Rightarrow> rx_state" where
  "traffic f s = s\<lparr>ff_traffic := f (ff_traffic s)\<rparr>"

section \<open>What goes to the kernel\<close>

definition tolower :: "char \<Rightarrow> char" where
  "tolower c = (if isupper c then char_of (code c + 32) else c)"

definition strcaseeq :: "string \<Rightarrow> string \<Rightarrow> bool" where
  "strcaseeq a b \<longleftrightarrow> map tolower a = map tolower b"

definition get_kni_action :: "string option \<Rightarrow> FF_KNICTL_ACTION" where
  "get_kni_action c =
    (case c of None \<Rightarrow> FF_KNICTL_ACTION_DEFAULT
     | Some c \<Rightarrow>
         if strcaseeq c ''alltokni'' then FF_KNICTL_ACTION_ALL_TO_KNI
         else if strcaseeq c ''alltoff'' then FF_KNICTL_ACTION_ALL_TO_FF
         else FF_KNICTL_ACTION_DEFAULT)"

text \<open>The settings of the configuration; \<open>meth\<close> is the method of KNI, which the check of the configuration requires.\<close>

definition init_kni_mode :: "string \<Rightarrow> string option \<Rightarrow> rx_state \<Rightarrow> rx_state" where
  "init_kni_mode meth action s = s\<lparr>kni_accept := strcaseeq meth ''accept'', knictl_action := get_kni_action action\<rparr>"

text \<open>A control message: the command, the action and the result it comes with, and the action and the result it leaves with.\<close>

primrec knictl_value :: "FF_KNICTL_ACTION \<Rightarrow> int" where
  "knictl_value FF_KNICTL_ACTION_DEFAULT = 0"
| "knictl_value FF_KNICTL_ACTION_ALL_TO_KNI = 1"
| "knictl_value FF_KNICTL_ACTION_ALL_TO_FF = 2"
| "knictl_value FF_KNICTL_ACTION_MAX = 3"

definition handle_knictl_msg :: "int \<Rightarrow> int \<Rightarrow> int \<Rightarrow> rx_state \<Rightarrow> int \<times> int \<times> rx_state" where
  "handle_knictl_msg cmd action result s =
    (if cmd = 1 then
       if action = knictl_value FF_KNICTL_ACTION_ALL_TO_FF then (action, 0, s\<lparr>knictl_action := FF_KNICTL_ACTION_ALL_TO_FF\<rparr>)
       else if action = knictl_value FF_KNICTL_ACTION_ALL_TO_KNI then (action, 0, s\<lparr>knictl_action := FF_KNICTL_ACTION_ALL_TO_KNI\<rparr>)
       else if action = knictl_value FF_KNICTL_ACTION_DEFAULT then (action, 0, s\<lparr>knictl_action := FF_KNICTL_ACTION_DEFAULT\<rparr>)
       else (action, - 1, s)
     else if cmd = 0 then (knictl_value (knictl_action s), result, s)
     else (action, - 2, s))"

section \<open>Copies\<close>

definition RTE_PKTMBUF_HEADROOM :: nat where "RTE_PKTMBUF_HEADROOM = 128"

text \<open>The copied part of the chain, whether it is complete, and the number of allocations made.\<close>

fun clone_segs :: "(nat \<Rightarrow> (nat \<times> memory) option) \<Rightarrow> nat \<Rightarrow> mbuf_seg list \<Rightarrow> mbuf_seg list \<times> bool \<times> nat" where
  "clone_segs alloc k [] = ([], True, k)"
| "clone_segs alloc k (md # rest) =
    (case alloc k of None \<Rightarrow> ([], False, Suc k)
     | Some (addr, mem) \<Rightarrow>
         let (mc, complete, k) = clone_segs alloc (Suc k) rest
         in (\<lparr>seg_addr = addr, seg_data = (\<lambda>i. if i < unat (data_len md) then seg_data md i else mem i),
              data_len = data_len md, seg_headroom = RTE_PKTMBUF_HEADROOM\<rparr> # mc, complete, k))"

definition pktmbuf_deep_clone :: "rx_env \<Rightarrow> rte_mbuf \<Rightarrow> rx_state \<Rightarrow> rte_mbuf option \<times> rx_state" where
  "pktmbuf_deep_clone env md s =
    (let (mc, complete, k) = clone_segs (rx_alloc env) (allocs s) (m_segs md); s = s\<lparr>allocs := k\<rparr>
     in if complete then (Some (md\<lparr>m_segs := mc, nb_segs := ucast (of_nat (length mc) :: u8)\<rparr>), s) else (None, free_segs (map seg_addr mc) s))"

section \<open>The stack\<close>

text \<open>How many buffers of the chain get an mbuf of the stack before an allocation fails.\<close>

fun bsd_chain :: "(nat \<Rightarrow> bool) \<Rightarrow> nat \<Rightarrow> mbuf_seg list \<Rightarrow> nat" where
  "bsd_chain alloc k [] = 0"
| "bsd_chain alloc k (sg # segs) = (if alloc k then Suc (bsd_chain alloc (Suc k) segs) else 0)"

text \<open>Freeing the chain of the stack frees the buffers attached to it.\<close>

definition ff_veth_input :: "rx_env \<Rightarrow> rte_mbuf \<Rightarrow> rx_state \<Rightarrow> rx_state" where
  "ff_veth_input env pkt s =
    (if rx_csum env \<and> cksum_bad pkt then rte_pktmbuf_free pkt s
     else
       let n = bsd_chain (rx_bsd_alloc env) (bsd_allocs s) (m_segs pkt);
           s = s\<lparr>bsd_allocs := bsd_allocs s + min (length (m_segs pkt)) (Suc n)\<rparr>
       in if n = 0 then rte_pktmbuf_free pkt s
          else if n < length (m_segs pkt) then rte_pktmbuf_free pkt (free_segs (map seg_addr (take n (m_segs pkt))) s)
          else s\<lparr>to_stack := to_stack s @ [pkt]\<rparr>)"

section \<open>Sending\<close>

definition count_sent :: "rte_mbuf \<Rightarrow> rx_state \<Rightarrow> rx_state" where
  "count_sent m = traffic (\<lambda>t. t\<lparr>t_tx_packets := t_tx_packets t + ucast (nb_segs m), t_tx_bytes := t_tx_bytes t + ucast (pkt_len m)\<rparr>)"

definition drop_unsent :: "rte_mbuf \<Rightarrow> rx_state \<Rightarrow> rx_state" where
  "drop_unsent m s = rte_pktmbuf_free m (traffic (\<lambda>t. t\<lparr>t_tx_dropped := t_tx_dropped t + ucast (nb_segs m)\<rparr>) s)"

definition send_burst :: "rx_env \<Rightarrow> u16 \<Rightarrow> rte_mbuf list \<Rightarrow> nat \<Rightarrow> rx_state \<Rightarrow> rx_state" where
  "send_burst env queueid m_table port s =
    (let ret = unat (rx_tx env (of_nat port) queueid m_table);
         s = s\<lparr>nic_sent := nic_sent s @ take ret m_table\<rparr>;
         s = fold count_sent (take ret m_table) s
     in fold drop_unsent (drop ret m_table) s)"

definition send_single_packet :: "rx_env \<Rightarrow> u16 \<Rightarrow> rte_mbuf \<Rightarrow> nat \<Rightarrow> rx_state \<Rightarrow> rx_state" where
  "send_single_packet env queueid m port s =
    (let m_table = tx_mbufs s ! port @ [m]
     in if length m_table = MAX_PKT_BURST then send_burst env queueid m_table port (s\<lparr>tx_mbufs := (tx_mbufs s)[port := []]\<rparr>)
        else s\<lparr>tx_mbufs := (tx_mbufs s)[port := m_table]\<rparr>)"

section \<open>One packet\<close>

text \<open>A packet on the ring of another queue; freed and counted when the ring is full.\<close>

definition dispatch_to :: "nat \<Rightarrow> nat \<Rightarrow> rte_mbuf \<Rightarrow> rx_state \<Rightarrow> rx_state" where
  "dispatch_to port queue m s =
    (let (ret, r) = rte_ring_enqueue (dispatch_ring s ! port ! queue) m;
         s = s\<lparr>dispatch_ring := (dispatch_ring s)[port := (dispatch_ring s ! port)[queue := r]]\<rparr>
     in if ret < 0 then rte_pktmbuf_free m (traffic (\<lambda>t. t\<lparr>t_rx_dropped := t_rx_dropped t + ucast (nb_segs m)\<rparr>) s) else s)"

definition clone_to :: "rx_env \<Rightarrow> nat \<Rightarrow> rte_mbuf \<Rightarrow> nat \<Rightarrow> rx_state \<Rightarrow> rx_state" where
  "clone_to env port m queue s =
    (case pktmbuf_deep_clone env m s of (None, s) \<Rightarrow> s | (Some mc, s) \<Rightarrow> dispatch_to port queue mc s)"

definition to_kni :: "rx_env \<Rightarrow> FilterReturn \<Rightarrow> nat \<Rightarrow> rte_mbuf \<Rightarrow> rx_state \<Rightarrow> rx_state" where
  "to_kni env filt port m s = s\<lparr>rx_kni := snd (ff_kni_enqueue (rx_cfg env) (rx_eal env) filt port (ff_add_vlan_tag m) (rx_kni s))\<rparr>"

text \<open>ARP and neighbour discovery: copies to the other queues of the port and to the kernel, and the packet to the stack.\<close>

definition rx_broadcast :: "rx_env \<Rightarrow> FilterReturn \<Rightarrow> nat \<Rightarrow> nat \<Rightarrow> bool \<Rightarrow> rte_mbuf \<Rightarrow> rx_state \<Rightarrow> rx_state" where
  "rx_broadcast env filt port queue from_ring m s =
    (let s = (if from_ring then s
              else fold (clone_to env port m) (filter (\<lambda>j. j \<noteq> queue) [0..<length (dispatch_ring s ! port)]) s);
         s = (if enable_kni (rx_ports env) \<and> ff_kni_is_runtime_owner (rx_cfg env) (rx_eal env)
              then case pktmbuf_deep_clone env m s of (None, s) \<Rightarrow> s | (Some mc, s) \<Rightarrow> to_kni env filt port mc s
              else s)
     in ff_veth_input env m s)"

definition rx_deliver :: "rx_env \<Rightarrow> FilterReturn \<Rightarrow> nat \<Rightarrow> nat \<Rightarrow> bool \<Rightarrow> rte_mbuf \<Rightarrow> rx_state \<Rightarrow> rx_state" where
  "rx_deliver env filt port queue from_ring m s =
    (if filt = FILTER_ARP \<or> filt = FILTER_NDP then rx_broadcast env filt port queue from_ring m s
     else if enable_kni (rx_ports env) then
       case knictl_action s of
         FF_KNICTL_ACTION_ALL_TO_KNI \<Rightarrow> to_kni env filt port m s
       | FF_KNICTL_ACTION_ALL_TO_FF \<Rightarrow> ff_veth_input env m s
       | FF_KNICTL_ACTION_DEFAULT \<Rightarrow>
           if filt = FILTER_KNI \<and> kni_accept s \<or>
              (filt = FILTER_UNKNOWN \<or> filter_value filt \<ge> filter_value FILTER_OSPF) \<and> \<not> kni_accept s
           then to_kni env filt port m s else ff_veth_input env m s
       | FF_KNICTL_ACTION_MAX \<Rightarrow> ff_veth_input env m s
     else ff_veth_input env m s)"

abbreviation (input) "FF_DISPATCH_ERROR \<equiv> - 1 :: int"
abbreviation (input) "FF_DISPATCH_RESPONSE \<equiv> - 2 :: int"

text \<open>The dispatcher's verdict on a packet; Some when the packet goes on to the filter, with the length to use.\<close>

definition rx_dispatch :: "rx_env \<Rightarrow> u16 \<Rightarrow> nat \<Rightarrow> nat \<Rightarrow> rte_mbuf \<Rightarrow> rx_state \<Rightarrow>
    rx_fault + (rte_mbuf \<times> u16) option \<times> rx_state" where
  "rx_dispatch env txq port queue m s =
    (case rx_dispatcher env of None \<Rightarrow> Inr (Some (m, m_len m), s)
     | Some f \<Rightarrow>
         let nb_queues = length (dispatch_ring s ! port); (ret, data, len) = f m (of_nat queue) (of_nat nb_queues);
             m = set_seg0 (\<lambda>sg. sg\<lparr>seg_data := data\<rparr>) m
         in if ret = FF_DISPATCH_RESPONSE then
              Inr (None, send_single_packet env txq (ff_add_vlan_tag (set_seg0 (\<lambda>sg. sg\<lparr>data_len := len\<rparr>) m\<lparr>pkt_len := ucast len\<rparr>)) port s)
            else if ret = FF_DISPATCH_ERROR \<or> ret \<ge> int nb_queues then Inr (None, rte_pktmbuf_free m s)
            else if ret \<noteq> int queue then
              if ret < 0 then Inl No_Such_Queue else Inr (None, dispatch_to port (nat ret) m s)
            else Inr (Some (m, len), s))"

text \<open>\<open>avail\<close> is the number of free buffers that the pool reports when the packet is taken up.\<close>

definition rx_packet :: "rx_env \<Rightarrow> u16 \<Rightarrow> nat \<Rightarrow> nat \<Rightarrow> bool \<Rightarrow> rte_mbuf \<times> u32 \<Rightarrow> rx_state \<Rightarrow> rx_fault + rx_state" where
  "rx_packet env txq port queue from_ring = (\<lambda>(m, avail) s.
    let watermark = mbuf_low_watermark (dpdk (rx_cfg env))
    in if \<not> from_ring \<and> watermark > 0 \<and> avail < watermark \<and> is_tcp_syn (mtod m) (m_len m) then
         Inr (rte_pktmbuf_free m (traffic (\<lambda>t. t\<lparr>t_rx_dropped := t_rx_dropped t + ucast (nb_segs m)\<rparr>) s))
       else
         let s = (if from_ring then s
                  else traffic (\<lambda>t. t\<lparr>t_rx_packets := t_rx_packets t + ucast (nb_segs m), t_rx_bytes := t_rx_bytes t + ucast (pkt_len m)\<rparr>) s)
         in case (if from_ring then Inr (Some (m, m_len m), s) else rx_dispatch env txq port queue m s) of
              Inl fault \<Rightarrow> Inl fault
            | Inr (None, s) \<Rightarrow> Inr s
            | Inr (Some (m, len), s) \<Rightarrow>
                (case protocol_filter (rx_ports env) (mtod m) len of None \<Rightarrow> Inl Endless_Filter
                 | Some filt \<Rightarrow> Inr (rx_deliver env filt port queue from_ring m s)))"

fun process_packets :: "rx_env \<Rightarrow> u16 \<Rightarrow> nat \<Rightarrow> nat \<Rightarrow> bool \<Rightarrow> (rte_mbuf \<times> u32) list \<Rightarrow> rx_state \<Rightarrow> rx_fault + rx_state" where
  "process_packets env txq port queue from_ring [] s = Inr s"
| "process_packets env txq port queue from_ring (m # bufs) s =
    (case rx_packet env txq port queue from_ring m s of Inl fault \<Rightarrow> Inl fault
     | Inr s \<Rightarrow> process_packets env txq port queue from_ring bufs s)"

definition process_dispatch_ring :: "rx_env \<Rightarrow> u16 \<Rightarrow> nat \<Rightarrow> nat \<Rightarrow> rx_state \<Rightarrow> rx_fault + nat \<times> rx_state" where
  "process_dispatch_ring env txq port queue s =
    (let (bufs, r) = rte_ring_dequeue_burst (dispatch_ring s ! port ! queue) (of_nat MAX_PKT_BURST);
         s = s\<lparr>dispatch_ring := (dispatch_ring s)[port := (dispatch_ring s ! port)[queue := r]]\<rparr>
     in if bufs = [] then Inr (0, s)
        else case process_packets env txq port queue True (map (\<lambda>m. (m, 0)) bufs) s of Inl fault \<Rightarrow> Inl fault
             | Inr s \<Rightarrow> Inr (length bufs, s))"

section \<open>Ownership of buffers\<close>

definition pk_bufs :: "rte_mbuf multiset \<Rightarrow> nat multiset" where
  "pk_bufs M = (\<Sum>m\<in>#M. mset (buffers m))"

lemma pk_bufs_simps [simp]:
  "pk_bufs {#} = {#}" "pk_bufs (add_mset m M) = mset (buffers m) + pk_bufs M" "pk_bufs (M + N) = pk_bufs M + pk_bufs N"
  by (simp_all add: pk_bufs_def)

text \<open>The packets that the program holds or has handed on, and the buffers of these and of the freed ones.\<close>

definition rx_pkts :: "rx_state \<Rightarrow> rte_mbuf multiset" where
  "rx_pkts s = kni_held (rx_kni s) + rings_hold (concat (dispatch_ring s)) + mset (concat (tx_mbufs s)) +
     mset (to_stack s) + mset (nic_sent s)"

definition rx_held :: "rx_state \<Rightarrow> nat multiset" where
  "rx_held s = pk_bufs (rx_pkts s) + mset (seg_freed s)"

text \<open>The buffers that the pool has given out for copies.\<close>

definition rx_allocated :: "rx_env \<Rightarrow> rx_state \<Rightarrow> nat multiset" where
  "rx_allocated env s = mset (concat (map (\<lambda>k. case rx_alloc env k of None \<Rightarrow> [] | Some (addr, mem) \<Rightarrow> [addr]) [0..<allocs s]))"

text \<open>Packets have a buffer; those of several buffers need that the allocations of the stack succeed.\<close>

definition pkt_ok :: "rx_env \<Rightarrow> rte_mbuf \<Rightarrow> bool" where
  "pkt_ok env m \<longleftrightarrow> m_segs m \<noteq> [] \<and> (length (m_segs m) = 1 \<or> (\<forall>k. rx_bsd_alloc env k))"

definition ring_row_ok :: "rx_env \<Rightarrow> nat \<Rightarrow> rte_mbuf rte_ring list \<Rightarrow> bool" where
  "ring_row_ok env nq row \<longleftrightarrow> length row = nq \<and> list_all (\<lambda>r. ring_ok r \<and> list_all (pkt_ok env) (ring_list r)) row"

definition rx_ok :: "rx_env \<Rightarrow> nat \<Rightarrow> nat \<Rightarrow> rx_state \<Rightarrow> bool" where
  "rx_ok env np nq s \<longleftrightarrow> kni_ok np (rx_kni s) \<and> length (dispatch_ring s) = np \<and> list_all (ring_row_ok env nq) (dispatch_ring s) \<and>
     length (tx_mbufs s) = np"

text \<open>A step from \<open>s\<close> to \<open>s'\<close> takes the buffers \<open>M\<close> in and hands \<open>N\<close> out.\<close>

definition balanced :: "rx_env \<Rightarrow> nat \<Rightarrow> nat \<Rightarrow> rx_state \<Rightarrow> rx_state \<Rightarrow> nat multiset \<Rightarrow> nat multiset \<Rightarrow> bool" where
  "balanced env np nq s s' M N \<longleftrightarrow> (rx_ok env np nq s \<longrightarrow>
     rx_ok env np nq s' \<and> rx_held s' + rx_allocated env s + N = rx_held s + rx_allocated env s' + M)"

lemma balanced_refl: "balanced env np nq s s {#} {#}"
  by (simp add: balanced_def)

lemma balanced_trans:
  assumes "balanced env np nq s s1 M1 N1" "balanced env np nq s1 s2 M2 N2"
  shows "balanced env np nq s s2 (M1 + M2) (N1 + N2)"
proof -
  have "a2 + c0 + (n1 + n2) = a0 + c2 + (m1 + m2)" if "a1 + c0 + n1 = a0 + c1 + m1" "a2 + c1 + n2 = a1 + c2 + m2"
    for a0 a1 a2 c0 c1 c2 m1 m2 n1 n2 :: "nat multiset"
  proof -
    have "(a2 + c0 + (n1 + n2)) + (a1 + c1) = (a1 + c0 + n1) + (a2 + c1 + n2)" by (simp add: ac_simps)
    also have "\<dots> = (a0 + c2 + (m1 + m2)) + (a1 + c1)" unfolding that by (simp add: ac_simps)
    finally show ?thesis by (rule add_right_imp_eq)
  qed
  then show ?thesis using assms unfolding balanced_def by blast
qed

lemma balanced_cancel: "balanced env np nq s s' (M + K) (N + K) \<longleftrightarrow> balanced env np nq s s' M N"
  by (simp add: balanced_def union_assoc[symmetric])

lemma balanced_then:
  "balanced env np nq s s1 M N \<Longrightarrow> balanced env np nq s1 s2 N K \<Longrightarrow> balanced env np nq s s2 M K"
  using balanced_trans[of env np nq s s1 M N s2 N K] balanced_cancel[of env np nq s s2 M N K] by (simp add: ac_simps)

lemma balanced_skip:
  "balanced env np nq s s1 {#} {#} \<Longrightarrow> balanced env np nq s1 s2 M N \<Longrightarrow> balanced env np nq s s2 M N"
  using balanced_trans by fastforce

lemma balanced_free: "balanced env np nq s (rte_pktmbuf_free m s) (mset (buffers m)) {#}"
  by (simp add: balanced_def rte_pktmbuf_free_def free_segs_def rx_ok_def rx_held_def rx_pkts_def rx_allocated_def)

lemma balanced_traffic: "balanced env np nq s (traffic f s) {#} {#}"
  by (simp add: balanced_def traffic_def rx_ok_def rx_held_def rx_pkts_def rx_allocated_def)

lemma balanced_stack: "balanced env np nq s (s\<lparr>to_stack := to_stack s @ [m]\<rparr>) (mset (buffers m)) {#}"
  by (simp add: balanced_def rx_ok_def rx_held_def rx_pkts_def rx_allocated_def)

lemma balanced_bsd: "balanced env np nq s (s\<lparr>bsd_allocs := k\<rparr>) {#} {#}"
  by (simp add: balanced_def rx_ok_def rx_held_def rx_pkts_def rx_allocated_def)

lemma bsd_chain_le: "bsd_chain alloc k segs \<le> length segs"
  by (induction segs arbitrary: k) auto

lemma bsd_chain_all: "(\<forall>k. alloc k) \<Longrightarrow> bsd_chain alloc k segs = length segs"
  by (induction segs arbitrary: k) auto

lemma balanced_input:
  assumes "pkt_ok env m"
  shows "balanced env np nq s (ff_veth_input env m s) (mset (buffers m)) {#}"
proof -
  let ?n = "bsd_chain (rx_bsd_alloc env) (bsd_allocs s) (m_segs m)"
  let ?s = "s\<lparr>bsd_allocs := bsd_allocs s + min (length (m_segs m)) (Suc ?n)\<rparr>"
  have n: "?n = 0 \<or> ?n = length (m_segs m)"
    using assms bsd_chain_le[of "rx_bsd_alloc env" "bsd_allocs s" "m_segs m"] bsd_chain_all by (auto simp: pkt_ok_def)
  note b = balanced_skip[OF balanced_bsd[of env np nq s]]
  show ?thesis
  proof (cases "rx_csum env \<and> cksum_bad m")
    case True
    then show ?thesis using balanced_free by (simp add: ff_veth_input_def)
  next
    case False
    then have "ff_veth_input env m s =
        (if ?n = 0 then rte_pktmbuf_free m ?s else ?s\<lparr>to_stack := to_stack ?s @ [m]\<rparr>)"
      using n by (auto simp: ff_veth_input_def Let_def)
    then show ?thesis using b[OF balanced_free] b[OF balanced_stack] by presburger
  qed
qed

lemma set_seg0_buffers: "m_segs m \<noteq> [] \<Longrightarrow> (\<And>sg. seg_addr (f sg) = seg_addr sg) \<Longrightarrow> buffers (set_seg0 f m) = buffers m"
  by (cases "m_segs m") (simp_all add: buffers_def set_seg0_def seg0_def)

lemma pkt_len_buffers [simp]: "buffers (m\<lparr>pkt_len := n\<rparr>) = buffers m" "m_segs (m\<lparr>pkt_len := n\<rparr>) = m_segs m"
  by (simp_all add: buffers_def)

lemma set_seg0_segs: "m_segs m \<noteq> [] \<Longrightarrow> length (m_segs (set_seg0 f m)) = length (m_segs m)" "m_segs (set_seg0 f m) \<noteq> []"
  by (cases "m_segs m"; simp add: set_seg0_def)+

lemma tag_buffers: "m_segs m \<noteq> [] \<Longrightarrow> buffers (ff_add_vlan_tag m) = buffers m"
  using set_seg0_buffers[of m "\<lambda>sg. sg\<lparr>seg_data := tagged (vlan_tci m) (seg_data sg), data_len := data_len sg + 4,
      seg_headroom := seg_headroom sg - 4\<rparr>"] by (simp add: ff_add_vlan_tag_def)

lemma balanced_kni:
  assumes "port < np" "m_segs m \<noteq> []"
  shows "balanced env np nq s (to_kni env filt port m s) (mset (buffers m)) {#}"
  using held_enqueue[of np "rx_kni s" port "rx_cfg env" "rx_eal env" filt "ff_add_vlan_tag m"] assms
  by (simp add: balanced_def to_kni_def rx_ok_def rx_held_def rx_pkts_def rx_allocated_def tag_buffers)

lemma rings_hold_concat:
  "p < length rows \<Longrightarrow> rings_hold (concat (rows[p := row])) + rings_hold (rows ! p) = rings_hold (concat rows) + rings_hold row"
proof (induction rows arbitrary: p)
  case (Cons a rows)
  then show ?case by (cases p) (auto simp: rings_hold_def ac_simps)
qed simp

lemma mset_exchange:
  fixes a a' b b' x y :: "'a multiset"
  assumes "a' + b = a + b'" "b' + x = b + y"
  shows "a' + x = a + y"
proof -
  have "(a' + x) + (b + b') = (a' + b) + (b' + x)" by (simp add: ac_simps)
  also have "\<dots> = (a + y) + (b + b')" unfolding assms by (simp add: ac_simps)
  finally show ?thesis by (rule add_right_imp_eq)
qed

lemma dispatch_update:
  assumes "rx_ok env np nq s" "port < np" "queue < nq" "ring_ok r" "list_all (pkt_ok env) (ring_list r)"
  defines "s' \<equiv> s\<lparr>dispatch_ring := (dispatch_ring s)[port := (dispatch_ring s ! port)[queue := r]]\<rparr>"
  shows "rx_ok env np nq s'"
    "rx_held s' + pk_bufs (mset (ring_list (dispatch_ring s ! port ! queue))) = rx_held s + pk_bufs (mset (ring_list r))"
    "rx_allocated env s' = rx_allocated env s"
proof -
  let ?row = "dispatch_ring s ! port"
  have row: "ring_row_ok env nq ?row" "port < length (dispatch_ring s)" using assms(1,2) by (simp_all add: rx_ok_def list_all_length)
  then have "ring_row_ok env nq (?row[queue := r])" using assms(4,5) by (auto simp: ring_row_ok_def intro: list_all_update)
  then show "rx_ok env np nq s'" using assms(1) by (auto simp: s'_def rx_ok_def intro: list_all_update)
  have q: "queue < length ?row" using row(1) assms(3) by (simp add: ring_row_ok_def)
  let ?all = "rings_hold (concat (dispatch_ring s))" and ?all' = "rings_hold (concat (dispatch_ring s'))"
  have "?all' + mset (ring_list (?row ! queue)) = ?all + mset (ring_list r)"
    using mset_exchange[OF rings_hold_concat[OF row(2), of "?row[queue := r]"] rings_hold_update[OF q, of r]] by (simp add: s'_def)
  then have "pk_bufs ?all' + pk_bufs (mset (ring_list (?row ! queue))) = pk_bufs ?all + pk_bufs (mset (ring_list r))"
    by (metis pk_bufs_simps(3))
  then show "rx_held s' + pk_bufs (mset (ring_list (?row ! queue))) = rx_held s + pk_bufs (mset (ring_list r))"
    by (simp add: s'_def rx_held_def rx_pkts_def ac_simps)
  show "rx_allocated env s' = rx_allocated env s" by (simp add: s'_def rx_allocated_def)
qed

lemma dispatch_ring_at:
  assumes "rx_ok env np nq s" "port < np" "queue < nq"
  shows "ring_ok (dispatch_ring s ! port ! queue)" "list_all (pkt_ok env) (ring_list (dispatch_ring s ! port ! queue))"
  using assms by (simp_all add: rx_ok_def ring_row_ok_def list_all_length)

lemma balanced_dispatch:
  assumes "port < np" "queue < nq" "pkt_ok env m"
  shows "balanced env np nq s (dispatch_to port queue m s) (mset (buffers m)) {#}"
proof (cases "rx_ok env np nq s")
  case True
  obtain ret r where r: "rte_ring_enqueue (dispatch_ring s ! port ! queue) m = (ret, r)" by force
  let ?s = "s\<lparr>dispatch_ring := (dispatch_ring s)[port := (dispatch_ring s ! port)[queue := r]]\<rparr>"
  note at = dispatch_ring_at[OF True assms(1,2)]
  have law: "ring_ok r" "if ret < 0 then r = dispatch_ring s ! port ! queue else ring_list r = ring_list (dispatch_ring s ! port ! queue) @ [m]"
    using enqueue_law[OF at(1) r] by (auto split: if_splits)
  then have "list_all (pkt_ok env) (ring_list r)" using at(2) assms(3) by (auto split: if_splits)
  note u = dispatch_update[OF True assms(1,2) law(1) this]
  show ?thesis
  proof (cases "ret < 0")
    case neg: True
    then have "balanced env np nq s ?s {#} {#}" using u law(2) by (simp add: balanced_def)
    from balanced_skip[OF balanced_skip[OF this balanced_traffic] balanced_free] show ?thesis
      using neg by (simp add: dispatch_to_def r Let_def)
  next
    case False
    then show ?thesis using u law(2) by (simp add: balanced_def dispatch_to_def r Let_def ac_simps)
  qed
qed (simp add: balanced_def)

definition alloc_addrs :: "rx_env \<Rightarrow> nat \<Rightarrow> nat list" where
  "alloc_addrs env k = (case rx_alloc env k of None \<Rightarrow> [] | Some (addr, mem) \<Rightarrow> [addr])"

lemma clone_segs_addrs:
  assumes "clone_segs (rx_alloc env) k segs = (mc, complete, k')"
  shows "k \<le> k' \<and> map seg_addr mc = concat (map (alloc_addrs env) [k..<k']) \<and> (complete \<longrightarrow> length mc = length segs)"
  using assms
proof (induction segs arbitrary: k mc)
  case (Cons md rest)
  show ?case
  proof (cases "rx_alloc env k")
    case None
    then show ?thesis using Cons.prems by (auto simp: alloc_addrs_def)
  next
    case (Some am)
    obtain addr mem where am: "am = (addr, mem)" by force
    obtain mc1 where c: "clone_segs (rx_alloc env) (Suc k) rest = (mc1, complete, k')" "map seg_addr mc = addr # map seg_addr mc1"
      "length mc = Suc (length mc1)"
      using Cons.prems by (auto simp: Some am split: prod.splits)
    have "[k..<k'] = k # [Suc k..<k']" using Cons.IH[OF c(1)] by (intro upt_conv_Cons) simp
    then show ?thesis using Cons.IH[OF c(1)] c(2,3) by (simp add: alloc_addrs_def Some am)
  qed
qed simp

lemma clone_alloc:
  assumes "clone_segs (rx_alloc env) (allocs s) segs = (mc, complete, k)"
  shows "rx_allocated env (s\<lparr>allocs := k\<rparr>) = rx_allocated env s + mset (map seg_addr mc)"
proof -
  have "[0..<k] = [0..<allocs s] @ [allocs s..<k]" using clone_segs_addrs[OF assms] upt_add_eq_append[of 0 "allocs s" "k - allocs s"] by simp
  then show ?thesis using clone_segs_addrs[OF assms] by (simp add: rx_allocated_def alloc_addrs_def[abs_def])
qed

lemma clone_cases:
  obtains mc s' where "pktmbuf_deep_clone env m s = (Some mc, s')" "balanced env np nq s s' {#} (mset (buffers mc))"
    "length (m_segs mc) = length (m_segs m)"
  | s' where "pktmbuf_deep_clone env m s = (None, s')" "balanced env np nq s s' {#} {#}"
proof -
  obtain mc complete k where c: "clone_segs (rx_alloc env) (allocs s) (m_segs m) = (mc, complete, k)" by (metis prod_cases3)
  let ?s = "s\<lparr>allocs := k\<rparr>"
  have b: "balanced env np nq s ?s {#} (mset (map seg_addr mc))"
    using clone_alloc[OF c] by (simp add: balanced_def rx_ok_def rx_held_def rx_pkts_def ac_simps)
  show ?thesis
  proof (cases complete)
    case True
    then show ?thesis using that(1)[of "m\<lparr>m_segs := mc, nb_segs := ucast (of_nat (length mc) :: u8)\<rparr>" ?s] c b clone_segs_addrs[OF c]
      by (simp add: pktmbuf_deep_clone_def buffers_def)
  next
    case False
    have "balanced env np nq ?s (free_segs (map seg_addr mc) ?s) (mset (map seg_addr mc)) {#}"
      by (simp add: balanced_def free_segs_def rx_ok_def rx_held_def rx_pkts_def rx_allocated_def)
    from balanced_then[OF b this] show ?thesis using that(2) c False by (simp add: pktmbuf_deep_clone_def)
  qed
qed

lemma clone_ok: "pkt_ok env m \<Longrightarrow> length (m_segs mc) = length (m_segs m) \<Longrightarrow> pkt_ok env mc"
  by (auto simp: pkt_ok_def)

lemma balanced_clone_to:
  assumes "port < np" "queue < nq" "pkt_ok env m"
  shows "balanced env np nq s (clone_to env port m queue s) {#} {#}"
proof (cases rule: clone_cases[of env m s np nq])
  case (1 mc s')
  have "balanced env np nq s' (dispatch_to port queue mc s') (mset (buffers mc)) {#}"
    by (rule balanced_dispatch[OF assms(1,2) clone_ok[OF assms(3) 1(3)]])
  from balanced_then[OF 1(2) this] show ?thesis by (simp add: clone_to_def 1(1))
qed (simp add: clone_to_def)

lemma balanced_fold:
  assumes "\<And>x s. x \<in> set xs \<Longrightarrow> balanced env np nq s (f x s) {#} {#}"
  shows "balanced env np nq s (fold f xs s) {#} {#}"
  using assms
proof (induction xs arbitrary: s)
  case (Cons x xs)
  then show ?case using balanced_skip[of env np nq s "f x s" "fold f xs (f x s)"] by simp
qed (simp add: balanced_refl)

lemma balanced_broadcast:
  assumes "port < np" "pkt_ok env m"
  shows "balanced env np nq s (rx_broadcast env filt port queue from_ring m s) (mset (buffers m)) {#}"
proof (cases "rx_ok env np nq s")
  case True
  define s1 where "s1 = (if from_ring then s
    else fold (clone_to env port m) (filter (\<lambda>j. j \<noteq> queue) [0..<length (dispatch_ring s ! port)]) s)"
  have "length (dispatch_ring s ! port) = nq" using True assms(1) by (simp add: rx_ok_def ring_row_ok_def list_all_length)
  then have b1: "balanced env np nq s s1 {#} {#}"
    using balanced_refl balanced_clone_to[OF assms(1) _ assms(2)] by (auto simp: s1_def intro!: balanced_fold)
  define s2 where "s2 = (if enable_kni (rx_ports env) \<and> ff_kni_is_runtime_owner (rx_cfg env) (rx_eal env)
    then case pktmbuf_deep_clone env m s1 of (None, s) \<Rightarrow> s | (Some mc, s) \<Rightarrow> to_kni env filt port mc s else s1)"
  have "balanced env np nq s1 s2 {#} {#}"
  proof (cases rule: clone_cases[of env m s1 np nq])
    case (1 mc s')
    have "m_segs mc \<noteq> []" using 1(3) assms(2) by (auto simp: pkt_ok_def)
    from balanced_then[OF 1(2) balanced_kni[OF assms(1) this]] show ?thesis
      using balanced_refl by (simp add: s2_def 1(1))
  qed (use balanced_refl in \<open>simp add: s2_def\<close>)
  from balanced_skip[OF b1 balanced_skip[OF this balanced_input[OF assms(2)]]] show ?thesis
    by (simp add: rx_broadcast_def Let_def s1_def[symmetric] s2_def[symmetric])
qed (simp add: balanced_def)

lemma balanced_deliver:
  assumes "port < np" "pkt_ok env m"
  shows "balanced env np nq s (rx_deliver env filt port queue from_ring m s) (mset (buffers m)) {#}"
proof -
  have ne: "m_segs m \<noteq> []" using assms(2) by (simp add: pkt_ok_def)
  show ?thesis
    using balanced_broadcast[OF assms] balanced_kni[OF assms(1) ne] balanced_input[OF assms(2)]
    by (simp add: rx_deliver_def split: FF_KNICTL_ACTION.split)
qed

lemma balanced_drop: "balanced env np nq s (fold drop_unsent ms s) (pk_bufs (mset ms)) {#}"
proof (induction ms arbitrary: s)
  case (Cons m ms)
  have "balanced env np nq s (drop_unsent m s) (mset (buffers m)) {#}"
    unfolding drop_unsent_def by (rule balanced_skip[OF balanced_traffic balanced_free])
  from balanced_trans[OF this Cons.IH] show ?case by simp
qed (simp add: balanced_refl)

lemma balanced_burst:
  "balanced env np nq s (send_burst env q ms port s) (pk_bufs (mset ms)) {#}"
proof -
  define k where "k = unat (rx_tx env (of_nat port) q ms)"
  let ?s = "s\<lparr>nic_sent := nic_sent s @ take k ms\<rparr>"
  have b1: "balanced env np nq s ?s (pk_bufs (mset (take k ms))) {#}"
    by (simp add: balanced_def rx_ok_def rx_held_def rx_pkts_def rx_allocated_def ac_simps)
  have b2: "balanced env np nq ?s (fold count_sent (take k ms) ?s) {#} {#}"
    by (rule balanced_fold) (simp add: count_sent_def balanced_traffic)
  have "pk_bufs (mset ms) = pk_bufs (mset (take k ms)) + pk_bufs (mset (drop k ms))"
    by (metis mset_take_drop pk_bufs_simps(3))
  then show ?thesis using balanced_trans[OF b1 balanced_skip[OF b2 balanced_drop]]
    by (simp add: send_burst_def Let_def k_def)
qed

lemma concat_update:
  "p < length rows \<Longrightarrow> mset (concat (rows[p := row])) + mset (rows ! p) = mset (concat rows) + mset row"
proof (induction rows arbitrary: p)
  case (Cons a rows)
  then show ?case by (cases p) (auto simp: ac_simps)
qed simp

lemma tx_update:
  assumes "port < np"
  shows "balanced env np nq s (s\<lparr>tx_mbufs := (tx_mbufs s)[port := row]\<rparr>) (pk_bufs (mset row)) (pk_bufs (mset (tx_mbufs s ! port)))"
proof (cases "rx_ok env np nq s")
  case True
  then have "port < length (tx_mbufs s)" using assms by (simp add: rx_ok_def)
  note u = concat_update[OF this, of row]
  then have "pk_bufs (mset (concat ((tx_mbufs s)[port := row]))) + pk_bufs (mset (tx_mbufs s ! port)) =
      pk_bufs (mset (concat (tx_mbufs s))) + pk_bufs (mset row)"
    unfolding pk_bufs_simps(3)[symmetric] by simp
  then show ?thesis using True by (simp add: balanced_def rx_ok_def rx_held_def rx_pkts_def rx_allocated_def ac_simps)
qed (simp add: balanced_def)

lemma balanced_send:
  assumes "port < np"
  shows "balanced env np nq s (send_single_packet env q m port s) (mset (buffers m)) {#}"
proof -
  let ?t = "tx_mbufs s ! port"
  have t: "pk_bufs (mset (?t @ [m])) = mset (buffers m) + pk_bufs (mset ?t)" by simp
  show ?thesis
  proof (cases "length (?t @ [m]) = MAX_PKT_BURST")
    case True
    have "balanced env np nq s (s\<lparr>tx_mbufs := (tx_mbufs s)[port := []]\<rparr>) {#} (pk_bufs (mset ?t))" using tx_update[OF assms, of env nq s "[]"] by simp
    from balanced_trans[OF this balanced_burst[of env np nq _ q "?t @ [m]" port]] show ?thesis
      using True balanced_cancel[of env np nq s _ "mset (buffers m)" "pk_bufs (mset ?t)" "{#}"] unfolding t
      by (simp add: send_single_packet_def Let_def)
  next
    case False
    then show ?thesis using tx_update[OF assms, of env nq s "?t @ [m]"] balanced_cancel[of env np nq s _ "mset (buffers m)" "pk_bufs (mset ?t)" "{#}"]
      unfolding t by (simp add: send_single_packet_def Let_def)
  qed
qed

lemma balanced_rx_dispatch:
  assumes "port < np" "pkt_ok env m" "rx_dispatch env txq port queue m s = Inr (res, s')" "rx_ok env np nq s"
  shows "case res of None \<Rightarrow> balanced env np nq s s' (mset (buffers m)) {#}
    | Some (m', len) \<Rightarrow> s' = s \<and> pkt_ok env m' \<and> buffers m' = buffers m"
proof (cases "rx_dispatcher env")
  case None
  then show ?thesis using assms by (auto simp: rx_dispatch_def)
next
  case (Some f)
  obtain ret data len where f: "f m (of_nat queue) (of_nat (length (dispatch_ring s ! port))) = (ret, data, len)" by (metis prod_cases3)
  let ?m = "set_seg0 (\<lambda>sg. sg\<lparr>seg_data := data\<rparr>) m"
  have ne: "m_segs m \<noteq> []" using assms(2) by (simp add: pkt_ok_def)
  have m: "buffers ?m = buffers m" "pkt_ok env ?m" "m_segs ?m \<noteq> []"
    using ne assms(2) set_seg0_segs(1)[OF ne, of "\<lambda>sg. sg\<lparr>seg_data := data\<rparr>"] set_seg0_segs(2) by (simp_all add: set_seg0_buffers pkt_ok_def)
  let ?r = "ff_add_vlan_tag (set_seg0 (\<lambda>sg. sg\<lparr>data_len := len\<rparr>) ?m\<lparr>pkt_len := ucast len\<rparr>)"
  have r: "buffers ?r = buffers m"
    using m(1,3) by (subst tag_buffers) (simp_all add: set_seg0_segs set_seg0_buffers)
  have nq: "length (dispatch_ring s ! port) = nq" using assms(1,4) by (simp add: rx_ok_def ring_row_ok_def list_all_length)
  have run: "rx_dispatch env txq port queue m s =
      (if ret = FF_DISPATCH_RESPONSE then Inr (None, send_single_packet env txq ?r port s)
       else if ret = FF_DISPATCH_ERROR \<or> ret \<ge> int nq then Inr (None, rte_pktmbuf_free ?m s)
       else if ret \<noteq> int queue then if ret < 0 then Inl No_Such_Queue else Inr (None, dispatch_to port (nat ret) ?m s)
       else Inr (Some (?m, len), s))"
    unfolding rx_dispatch_def Some option.case Let_def nq f[unfolded nq] prod.case ..
  consider "res = None" "s' = send_single_packet env txq ?r port s" | "res = None" "s' = rte_pktmbuf_free ?m s"
    | "res = None" "s' = dispatch_to port (nat ret) ?m s" "nat ret < nq" | "res = Some (?m, len)" "s' = s"
    using assms(3) unfolding run by (auto split: if_split_asm)
  then show ?thesis
  proof cases
    case 1
    then show ?thesis using balanced_send[OF assms(1), of env nq s txq ?r] r by simp
  next
    case 2
    then show ?thesis using balanced_free[of env np nq s ?m] m(1) by simp
  next
    case 3
    then show ?thesis using balanced_dispatch[OF assms(1) 3(3) m(2), of s] m(1) by simp
  next
    case 4
    then show ?thesis using m by simp
  qed
qed

lemma balanced_packet:
  assumes "port < np" "pkt_ok env (fst ma)" "rx_packet env txq port queue from_ring ma s = Inr s'"
  shows "balanced env np nq s s' (mset (buffers (fst ma))) {#}"
proof (cases "rx_ok env np nq s")
  case ok: True
  obtain m avail where ma: "ma = (m, avail)" by force
  let ?drop = "traffic (\<lambda>t. t\<lparr>t_rx_dropped := t_rx_dropped t + ucast (nb_segs m)\<rparr>) s"
  define s1 where "s1 = (if from_ring then s
    else traffic (\<lambda>t. t\<lparr>t_rx_packets := t_rx_packets t + ucast (nb_segs m), t_rx_bytes := t_rx_bytes t + ucast (pkt_len m)\<rparr>) s)"
  have b1: "balanced env np nq s s1 {#} {#}" by (simp add: s1_def balanced_traffic balanced_refl)
  then have ok1: "rx_ok env np nq s1" using ok by (simp add: balanced_def)
  define d where "d = (if from_ring then Inr (Some (m, m_len m), s1) else rx_dispatch env txq port queue m s1)"
  consider "s' = rte_pktmbuf_free m ?drop" | "d = Inr (None, s')"
    | m' len s2 filt where "d = Inr (Some (m', len), s2)" "s' = rx_deliver env filt port queue from_ring m' s2"
    using assms(3) by (auto simp: rx_packet_def ma Let_def s1_def[symmetric] d_def[symmetric] split: if_splits sum.splits option.splits)
  then show ?thesis
  proof cases
    case 1
    then show ?thesis using balanced_skip[OF balanced_traffic balanced_free] by (simp add: ma)
  next
    case 2
    then have "\<not> from_ring" "rx_dispatch env txq port queue m s1 = Inr (None, s')" by (auto simp: d_def split: if_splits)
    from balanced_rx_dispatch[OF assms(1) _ this(2) ok1] show ?thesis using assms(2) balanced_skip[OF b1] by (simp add: ma)
  next
    case 3
    have m': "s2 = s1 \<and> pkt_ok env m' \<and> buffers m' = buffers m"
    proof (cases from_ring)
      case True
      then show ?thesis using 3(1) assms(2) by (simp add: d_def ma)
    next
      case False
      then show ?thesis using 3(1) balanced_rx_dispatch[OF assms(1) _ _ ok1, of m txq queue "Some (m', len)" s2] assms(2)
        by (simp add: d_def ma)
    qed
    then have "pkt_ok env m'" by blast
    note del = balanced_skip[OF b1 balanced_deliver[OF assms(1) this, of nq s1 filt queue from_ring]]
    then show ?thesis using m' 3(2) by (simp add: ma)
  qed
qed (simp add: balanced_def)

lemma balanced_process:
  "port < np \<Longrightarrow> list_all (\<lambda>ma. pkt_ok env (fst ma)) bufs \<Longrightarrow> process_packets env txq port queue from_ring bufs s = Inr s' \<Longrightarrow>
    balanced env np nq s s' (pk_bufs (mset (map fst bufs))) {#}"
proof (induction bufs arbitrary: s)
  case (Cons ma bufs)
  obtain s1 where s1: "rx_packet env txq port queue from_ring ma s = Inr s1" "process_packets env txq port queue from_ring bufs s1 = Inr s'"
    using Cons.prems(3) by (auto split: sum.splits)
  have "balanced env np nq s s1 (mset (buffers (fst ma))) {#}" using Cons.prems s1(1) by (intro balanced_packet) simp_all
  moreover have "balanced env np nq s1 s' (pk_bufs (mset (map fst bufs))) {#}" using Cons.prems s1(2) by (intro Cons.IH) simp_all
  ultimately show ?case using balanced_trans by fastforce
qed (simp add: balanced_refl)

lemma balanced_dispatch_ring:
  assumes "port < np" "queue < nq" "process_dispatch_ring env txq port queue s = Inr (n, s')"
  shows "balanced env np nq s s' {#} {#}"
proof (cases "rx_ok env np nq s")
  case True
  obtain bufs r where d: "rte_ring_dequeue_burst (dispatch_ring s ! port ! queue) (of_nat MAX_PKT_BURST) = (bufs, r)" by force
  let ?s = "s\<lparr>dispatch_ring := (dispatch_ring s)[port := (dispatch_ring s ! port)[queue := r]]\<rparr>"
  note at = dispatch_ring_at[OF True assms(1,2)]
  have law: "ring_ok r" "ring_list (dispatch_ring s ! port ! queue) = bufs @ ring_list r" using dequeue_burst_law[OF at(1) d] by auto
  then have all: "list_all (pkt_ok env) bufs" "list_all (pkt_ok env) (ring_list r)" using at(2) by auto
  have b1: "balanced env np nq s ?s {#} (pk_bufs (mset bufs))"
    using dispatch_update[OF True assms(1,2) law(1) all(2)] law(2) by (simp add: balanced_def ac_simps)
  have b2: "balanced env np nq ?s s' (pk_bufs (mset bufs)) {#}" if "bufs \<noteq> []"
    using balanced_process[OF assms(1), of env "map (\<lambda>m. (m, 0)) bufs" txq queue True ?s s' nq] all(1) that assms(3)
    by (auto simp: process_dispatch_ring_def d Let_def list.pred_map comp_def simp del: MAX_PKT_BURST_def split: sum.splits)
  show ?thesis
  proof (cases "bufs = []")
    case True
    then have "s' = ?s" using assms(3) by (auto simp: process_dispatch_ring_def d Let_def simp del: MAX_PKT_BURST_def)
    then show ?thesis using b1 True by simp
  qed (use balanced_then[OF b1 b2] in blast)
qed (simp add: balanced_def)

section \<open>The main loop\<close>

text \<open>The packets waiting to be sent on a port, once the drain time has passed.\<close>

definition drain_tx :: "rx_env \<Rightarrow> u16 \<Rightarrow> nat \<Rightarrow> rx_state \<Rightarrow> rx_state" where
  "drain_tx env queueid port s =
    (if tx_mbufs s ! port = [] then s
     else send_burst env queueid (tx_mbufs s ! port) port (s\<lparr>tx_mbufs := (tx_mbufs s)[port := []]\<rparr>))"

text \<open>The parts of an iteration that move packets: the drain, the dispatch ring and the burst of a queue, and the
  exchange with the kernel.\<close>

datatype rx_event =
    Drain u16 nat
  | Ring u16 nat nat
  | Burst u16 nat nat "(rte_mbuf \<times> u32) list"
  | Kni "rte_mbuf kni_op"

fun rx_step :: "rx_env \<Rightarrow> rx_event \<Rightarrow> rx_state \<Rightarrow> rx_fault + rx_state" where
  "rx_step env (Drain txq port) s = Inr (drain_tx env txq port s)"
| "rx_step env (Ring txq port queue) s = map_sum id snd (process_dispatch_ring env txq port queue s)"
| "rx_step env (Burst txq port queue bufs) s = process_packets env txq port queue False bufs s"
| "rx_step env (Kni op) s = Inr (s\<lparr>rx_kni := snd (kni_step (rx_cfg env) (rx_eal env) (rx_tx env) op (rx_kni s))\<rparr>)"

fun rx_run :: "rx_env \<Rightarrow> rx_event list \<Rightarrow> rx_state \<Rightarrow> rx_fault + rx_state" where
  "rx_run env [] s = Inr s"
| "rx_run env (ev # evs) s = (case rx_step env ev s of Inl fault \<Rightarrow> Inl fault | Inr s \<Rightarrow> rx_run env evs s)"

fun event_given :: "rx_event \<Rightarrow> rte_mbuf list" where
  "event_given (Drain txq port) = []"
| "event_given (Ring txq port queue) = []"
| "event_given (Burst txq port queue bufs) = map fst bufs"
| "event_given (Kni op) = op_given op"

fun event_fits :: "rx_env \<Rightarrow> nat \<Rightarrow> nat \<Rightarrow> rx_event \<Rightarrow> bool" where
  "event_fits env np nq (Drain txq port) = (port < np)"
| "event_fits env np nq (Ring txq port queue) = (port < np \<and> queue < nq)"
| "event_fits env np nq (Burst txq port queue bufs) = (port < np \<and> queue < nq \<and> list_all (\<lambda>ma. pkt_ok env (fst ma)) bufs)"
| "event_fits env np nq (Kni op) = (op_fits np op \<and> tx_contract (rx_tx env))"

lemma balanced_drain:
  assumes "port < np"
  shows "balanced env np nq s (drain_tx env q port s) {#} {#}"
proof -
  have "balanced env np nq s (s\<lparr>tx_mbufs := (tx_mbufs s)[port := []]\<rparr>) {#} (pk_bufs (mset (tx_mbufs s ! port)))"
    using tx_update[OF assms, of env nq s "[]"] by simp
  from balanced_then[OF this balanced_burst[of env np nq _ q "tx_mbufs s ! port" port]] show ?thesis
    by (simp add: drain_tx_def balanced_refl)
qed

lemma balanced_kni_step:
  assumes "op_fits np op" "tx_contract (rx_tx env)"
  shows "balanced env np nq s (s\<lparr>rx_kni := snd (kni_step cfg e (rx_tx env) op (rx_kni s))\<rparr>) (pk_bufs (mset (op_given op))) {#}"
  using step_conserves[of np "rx_kni s" op "rx_tx env" cfg e] assms
  by (simp add: balanced_def rx_ok_def rx_held_def rx_pkts_def rx_allocated_def ac_simps)

lemma balanced_step:
  assumes "event_fits env np nq ev" "rx_step env ev s = Inr s'"
  shows "balanced env np nq s s' (pk_bufs (mset (event_given ev))) {#}"
proof (cases ev)
  case (Drain txq port)
  then show ?thesis using assms balanced_drain by auto
next
  case (Ring txq port queue)
  then obtain n where "process_dispatch_ring env txq port queue s = Inr (n, s')"
    using assms(2) by (cases "process_dispatch_ring env txq port queue s") auto
  then show ?thesis using assms(1) Ring by (auto intro: balanced_dispatch_ring)
next
  case (Burst txq port queue bufs)
  then show ?thesis using assms balanced_process by auto
next
  case (Kni op)
  then show ?thesis using assms balanced_kni_step by auto
qed

lemma balanced_run:
  "list_all (event_fits env np nq) evs \<Longrightarrow> rx_run env evs s = Inr s' \<Longrightarrow>
    balanced env np nq s s' (pk_bufs (mset (concat (map event_given evs)))) {#}"
proof (induction evs arbitrary: s)
  case (Cons ev evs)
  obtain s1 where s1: "rx_step env ev s = Inr s1" "rx_run env evs s1 = Inr s'" using Cons.prems(2) by (auto split: sum.splits)
  have "balanced env np nq s s1 (pk_bufs (mset (event_given ev))) {#}" using Cons.prems(1) s1(1) by (intro balanced_step) simp_all
  moreover have "balanced env np nq s1 s' (pk_bufs (mset (concat (map event_given evs)))) {#}"
    using Cons.prems(1) s1(2) by (intro Cons.IH) simp_all
  ultimately show ?case using balanced_trans by fastforce
qed (simp add: balanced_refl)

end
