(* ===== verification/FF_Rx_Props.thy ===== *)
theory FF_Rx_Props
  imports FF_Rx
begin

text \<open>
  Properties of the receive path: what the classification of frames reads and that a VLAN tag put back does not change it,
  when the processing of a burst returns, that buffers are neither lost nor doubled and the one case in which they are, and
  that ARP reaches every queue.
\<close>

section \<open>Frames\<close>

lemma be16_shift: "be16 (shift d n) i = be16 d (n + i)"
  by (simp add: be16_def shift_def ac_simps)

lemma be16_same: "same_packet n d e \<Longrightarrow> i + 1 < n \<Longrightarrow> be16 d i = be16 e i"
  by (simp add: be16_def same_packet_def)

lemma word_minus_le: "(n :: u16) \<le> len \<Longrightarrow> unat (len - n) = unat len - unat n"
  by (rule unat_sub)

lemma ip_filter_same: "same_packet (unat len) d e \<Longrightarrow> ip_filter k d len t = ip_filter k e len t"
  unfolding ip_filter_def ff_kni_proto_filter_def by (rule filter_same)

lemma protocol_filter_same:
  assumes "18 \<le> len" "same_packet (unat len) d e"
  shows "protocol_filter k d len = protocol_filter k e len"
proof -
  have n: "18 \<le> unat len" using assms(1) by (simp add: word_le_nat_alt)
  have sub: "unat (len - 14) = unat len - 14" "unat (len - 14 - 4) = unat len - 18"
  proof -
    show a: "unat (len - 14) = unat len - 14" using n by (subst word_minus_le) (simp_all add: word_le_nat_alt)
    then show "unat (len - 14 - 4) = unat len - 18" using n by (subst word_minus_le) (simp_all add: word_le_nat_alt)
  qed
  have hdr: "be16 d 12 = be16 e 12" "be16 d 16 = be16 e 16" "d 0 = e 0"
    using assms(2) n by (simp_all add: be16_same same_packet_at)
  have "ip_filter k (shift d 14) (len - 14) t = ip_filter k (shift e 14) (len - 14) t"
    "ip_filter k (shift (shift d 14) 4) (len - 14 - 4) t = ip_filter k (shift (shift e 14) 4) (len - 14 - 4) t" for t
    using same_packet_shift[OF assms(2), of 14] same_packet_shift[OF assms(2), of 18] sub by (auto intro!: ip_filter_same)
  then show ?thesis using hdr by (simp add: protocol_filter_def Let_def be16_shift)
qed

lemma ip_tcp_syn_same:
  assumes "same_packet (unat len) d e"
  shows "ip_tcp_syn t d len = ip_tcp_syn t e len"
proof -
  have v4: "d 9 = e 9" "d 0 = e 0" if "\<not> len < 20" using assms that by (simp_all add: same_packet_def word_less_nat_alt)
  have v6: "d 6 = e 6" "d 53 = e 53" if "\<not> len < 60" using assms that by (simp_all add: same_packet_def word_less_nat_alt)
  have syn: "shift d h 13 = shift e h 13" if "\<not> unat len < h + 20" for h using assms that by (simp add: same_packet_def shift_def)
  show ?thesis using v4 v6 syn by (simp add: ip_tcp_syn_def Let_def shift_def)
qed

lemma is_tcp_syn_same:
  assumes "same_packet (unat len) d e"
  shows "is_tcp_syn d len = is_tcp_syn e len"
proof (cases "len < 14")
  case False
  then have n: "14 \<le> unat len" "unat (len - 14) = unat len - 14"
    by (simp_all add: word_less_nat_alt word_minus_le word_le_nat_alt)
  have "be16 d 12 = be16 e 12" using assms n(1) by (simp add: be16_same)
  moreover have "ip_tcp_syn t (shift d 14) (len - 14) = ip_tcp_syn t (shift e 14) (len - 14)" for t
    using same_packet_shift[OF assms, of 14] n(2) by (intro ip_tcp_syn_same) simp
  moreover have "be16 (shift d 14) 2 = be16 (shift e 14) 2"
    "ip_tcp_syn t (shift (shift d 14) 4) (len - 14 - 4) = ip_tcp_syn t (shift (shift e 14) 4) (len - 14 - 4)" if "\<not> len - 14 < 4" for t
  proof -
    have m: "18 \<le> unat len" "unat (len - 14 - 4) = unat len - 18"
      using that n by (simp_all add: word_less_nat_alt word_minus_le word_le_nat_alt)
    show "be16 (shift d 14) 2 = be16 (shift e 14) 2" using assms m(1) by (simp add: be16_shift be16_same)
    show "ip_tcp_syn t (shift (shift d 14) 4) (len - 14 - 4) = ip_tcp_syn t (shift (shift e 14) 4) (len - 14 - 4)"
      using same_packet_shift[OF assms, of 18] m(2) by (intro ip_tcp_syn_same) simp
  qed
  ultimately show ?thesis using False by (simp add: is_tcp_syn_def Let_def)
qed (simp add: is_tcp_syn_def)
lemma tagged_header:
  "be16 (tagged tci d) 12 = RTE_ETHER_TYPE_VLAN" "be16 (shift (tagged tci d) 14) 2 = be16 d 12"
  "shift (shift (tagged tci d) 14) 4 = shift d 14" "tagged tci d 0 = d 0"
  by (simp_all add: be16_def bytes_u16_def tagged_def shift_def)

lemma protocol_filter_tagged:
  assumes "14 \<le> len" "unat len + 4 < 2 ^ 16" "be16 d 12 \<noteq> RTE_ETHER_TYPE_VLAN"
  shows "protocol_filter k (tagged tci d) (len + 4) = protocol_filter k d len"
    "is_tcp_syn (tagged tci d) (len + 4) = is_tcp_syn d len"
proof -
  have n: "14 \<le> unat len" "unat (len + 4) = unat len + 4" using assms(1,2) by (simp_all add: word_le_nat_alt unat_word_ariths)
  then have s: "\<not> len < 6" "\<not> len + 4 < 6" "\<not> len < 14" "\<not> len + 4 < 14" by (simp_all add: word_less_nat_alt)
  have m: "len + 4 - 14 - 4 = len - 14" by simp
  have "unat (len + 4 - 14) = unat len - 10" using n by (subst word_minus_le) (simp_all add: word_le_nat_alt)
  then have v: "\<not> len + 4 - 14 < 4" using n(1) by (simp add: word_less_nat_alt)
  show "protocol_filter k (tagged tci d) (len + 4) = protocol_filter k d len"
    unfolding protocol_filter_def Let_def tagged_header m using s assms(3) by simp
  show "is_tcp_syn (tagged tci d) (len + 4) = is_tcp_syn d len"
    unfolding is_tcp_syn_def Let_def tagged_header m using s v assms(3) by simp
qed

section \<open>When the receive path returns\<close>

lemma endless_shift: "n \<le> len \<Longrightarrow> endless_header (shift d n) (len - n) off \<Longrightarrow> endless_header d len (n + off)"
  by (auto simp: endless_header_def shift_def ac_simps)

lemma ip_filter_returns:
  assumes "\<forall>off. \<not> endless_header d (unat len) off"
  shows "ip_filter k d len t \<noteq> None"
  unfolding ip_filter_def ff_kni_proto_filter_def by (rule filter_returns[OF _ assms]) simp

lemma protocol_filter_returns:
  assumes "18 \<le> len" "\<forall>off. \<not> endless_header d (unat len) off"
  shows "protocol_filter k d len \<noteq> None"
proof -
  have n: "18 \<le> unat len" using assms(1) by (simp add: word_le_nat_alt)
  have sub: "unat (len - 14) = unat len - 14" using n by (subst word_minus_le) (simp_all add: word_le_nat_alt)
  then have sub2: "unat (len - 14 - 4) = unat len - 18" using n by (subst word_minus_le) (simp_all add: word_le_nat_alt)
  have "ip_filter k (shift d 14) (len - 14) t \<noteq> None" "ip_filter k (shift (shift d 14) 4) (len - 14 - 4) t \<noteq> None" for t
    using endless_shift[of 14 "unat len" d] endless_shift[of 18 "unat len" d] assms(2) n sub sub2
    by (auto intro!: ip_filter_returns simp del: not_None_eq)
  then show ?thesis by (auto simp: protocol_filter_def Let_def split: if_splits)
qed

text \<open>Frames that the filter copes with.\<close>

definition plain_frame :: "rte_mbuf \<Rightarrow> bool" where
  "plain_frame m \<longleftrightarrow> 18 \<le> m_len m \<and> (\<forall>off. \<not> endless_header (mtod m) (unat (m_len m)) off)"

lemma rx_packet_returns:
  assumes "plain_frame m" "from_ring \<or> rx_dispatcher env = None"
  shows "\<exists>s'. rx_packet env txq port queue from_ring (m, avail) s = Inr s'"
proof -
  obtain filt where "protocol_filter (rx_ports env) (mtod m) (m_len m) = Some filt"
    using protocol_filter_returns[of "m_len m" "mtod m"] assms(1) by (auto simp: plain_frame_def)
  then show ?thesis using assms(2) by (auto simp: rx_packet_def rx_dispatch_def Let_def)
qed

lemma process_returns:
  assumes "from_ring \<or> rx_dispatcher env = None" "list_all (\<lambda>ma. plain_frame (fst ma)) bufs"
  shows "\<exists>s'. process_packets env txq port queue from_ring bufs s = Inr s'"
  using assms(2)
proof (induction bufs arbitrary: s)
  case (Cons ma bufs)
  obtain m avail where ma: "ma = (m, avail)" by force
  have "plain_frame m" using Cons.prems by (simp add: ma)
  then obtain s1 where "rx_packet env txq port queue from_ring ma s = Inr s1"
    using rx_packet_returns[OF _ assms(1)] unfolding ma by blast
  then show ?case using Cons by simp
qed simp

text \<open>A unicast IPv4 frame with an endless header.\<close>

definition endless_frame :: "rte_mbuf \<Rightarrow> bool" where
  "endless_frame m \<longleftrightarrow> 34 \<le> m_len m \<and> mtod m 0 AND 1 = 0 \<and> be16 (mtod m) 12 = RTE_ETHER_TYPE_IPV4 \<and>
     endless_header (shift (mtod m) 14) (unat (m_len m) - 14) 0"

lemma rx_packet_endless:
  assumes "endless_frame m" "enable_kni (rx_ports env)" "from_ring \<or> rx_dispatcher env = None"
  shows "rx_packet env txq port queue from_ring (m, avail) s = Inl Endless_Filter"
proof -
  let ?d = "mtod m" and ?len = "m_len m"
  have e: "34 \<le> unat ?len" "?d 0 AND 1 = 0" "be16 ?d 12 = RTE_ETHER_TYPE_IPV4" "endless_header (shift ?d 14) (unat ?len - 14) 0"
    using assms(1) by (simp_all add: endless_frame_def word_le_nat_alt)
  have sub: "unat (?len - 14) = unat ?len - 14" using e(1) by (subst word_minus_le) (simp_all add: word_le_nat_alt)
  have small: "\<not> ?len < 6" "\<not> ?len < 14" using e(1) by (simp_all add: word_less_nat_alt)
  have "ip_filter (rx_ports env) (shift ?d 14) (?len - 14) RTE_ETHER_TYPE_IPV4 = None"
    unfolding ip_filter_def ff_kni_proto_filter_def sub by (rule filter_endless[OF e(4)])
  then have f: "protocol_filter (rx_ports env) ?d ?len = None"
    using e(2,3) small assms(2) by (simp add: protocol_filter_def Let_def)
  have "shift ?d 14 9 \<noteq> IPPROTO_TCP" using e(4) by (simp add: endless_header_def)
  then have "\<not> is_tcp_syn ?d ?len" using e(3) by (simp add: is_tcp_syn_def ip_tcp_syn_def Let_def)
  then show ?thesis using f assms(3) by (auto simp: rx_packet_def rx_dispatch_def Let_def)
qed

section \<open>Copies for all queues\<close>

text \<open>A copy has the fields and the bytes of the packet, in other buffers.\<close>

definition copy_of :: "rte_mbuf \<Rightarrow> rte_mbuf \<Rightarrow> bool" where
  "copy_of m c \<longleftrightarrow> c = m\<lparr>m_segs := m_segs c, nb_segs := nb_segs c\<rparr> \<and>
     list_all2 (\<lambda>a b. data_len b = data_len a \<and> same_packet (unat (data_len a)) (seg_data a) (seg_data b)) (m_segs m) (m_segs c)"

lemma clone_segs_total:
  assumes "\<forall>k. rx_alloc env k \<noteq> None"
  shows "\<exists>mc k'. clone_segs (rx_alloc env) k segs = (mc, True, k') \<and>
    list_all2 (\<lambda>a b. data_len b = data_len a \<and> same_packet (unat (data_len a)) (seg_data a) (seg_data b)) segs mc"
proof (induction segs arbitrary: k)
  case (Cons md rest)
  obtain addr mem where a: "rx_alloc env k = Some (addr, mem)" using assms by fastforce
  show ?case using Cons.IH[of "Suc k"] by (auto simp: a same_packet_def)
qed simp

lemma deep_clone_total:
  assumes "\<forall>k. rx_alloc env k \<noteq> None"
  obtains c k where "pktmbuf_deep_clone env m s = (Some c, s\<lparr>allocs := k\<rparr>)" "copy_of m c"
proof -
  obtain mc k where "clone_segs (rx_alloc env) (allocs s) (m_segs m) = (mc, True, k)"
    "list_all2 (\<lambda>a b. data_len b = data_len a \<and> same_packet (unat (data_len a)) (seg_data a) (seg_data b)) (m_segs m) mc"
    using clone_segs_total[OF assms] by blast
  then show ?thesis using that[of "m\<lparr>m_segs := mc, nb_segs := ucast (of_nat (length mc) :: u8)\<rparr>" k] by (simp add: pktmbuf_deep_clone_def copy_of_def)
qed

text \<open>A ring with room takes the copy; nothing else changes.\<close>

lemma clone_to_ring:
  assumes "rx_ok env np nq s" "port < np" "j < nq" "\<forall>k. rx_alloc env k \<noteq> None" "0 < ring_free (dispatch_ring s ! port ! j)"
  obtains c r k where "clone_to env port m j s =
      s\<lparr>allocs := k, dispatch_ring := (dispatch_ring s)[port := (dispatch_ring s ! port)[j := r]]\<rparr>"
    "copy_of m c" "ring_list r = ring_list (dispatch_ring s ! port ! j) @ [c]"
proof -
  obtain c k where c: "pktmbuf_deep_clone env m s = (Some c, s\<lparr>allocs := k\<rparr>)" "copy_of m c" by (rule deep_clone_total[OF assms(4)])
  let ?ring = "dispatch_ring s ! port ! j"
  obtain r where r: "rte_ring_enqueue ?ring c = (0, r)" "ring_list r = ring_list ?ring @ [c]"
    using enqueue_one[OF dispatch_ring_at(1)[OF assms(1-3)], of c] assms(5) by (metis neq0_conv prod.collapse)
  show ?thesis by (rule that[of r k c]) (use c r in \<open>simp_all add: clone_to_def dispatch_to_def\<close>)
qed

definition ring_at :: "rx_state \<Rightarrow> nat \<Rightarrow> nat \<Rightarrow> rte_mbuf rte_ring" where
  "ring_at s port j = dispatch_ring s ! port ! j"

lemma fold_clone_to:
  assumes "rx_ok env np nq s" "port < np" "\<forall>k. rx_alloc env k \<noteq> None" "pkt_ok env m"
    "distinct js" "set js \<subseteq> {..<nq}" "\<forall>j \<in> set js. 0 < ring_free (ring_at s port j)"
  shows "rx_ok env np nq (fold (clone_to env port m) js s) \<and> to_stack (fold (clone_to env port m) js s) = to_stack s \<and>
    bsd_allocs (fold (clone_to env port m) js s) = bsd_allocs s \<and>
    (\<forall>j. j \<in> set js \<longrightarrow> (\<exists>c. copy_of m c \<and> ring_list (ring_at (fold (clone_to env port m) js s) port j) = ring_list (ring_at s port j) @ [c])) \<and>
    (\<forall>j. j \<notin> set js \<longrightarrow> ring_at (fold (clone_to env port m) js s) port j = ring_at s port j)"
  using assms(1,5-7)
proof (induction js arbitrary: s)
  case (Cons j js)
  have "j < nq" "0 < ring_free (dispatch_ring s ! port ! j)" using Cons.prems(3,4) by (simp_all add: ring_at_def)
  then obtain c r k where c: "clone_to env port m j s =
      s\<lparr>allocs := k, dispatch_ring := (dispatch_ring s)[port := (dispatch_ring s ! port)[j := r]]\<rparr>"
    "copy_of m c" "ring_list r = ring_list (dispatch_ring s ! port ! j) @ [c]"
    using clone_to_ring[OF Cons.prems(1) assms(2) _ assms(3), of j m] by blast
  let ?s = "clone_to env port m j s"
  have ok: "rx_ok env np nq ?s"
    using balanced_clone_to[OF assms(2) _ assms(4), of j nq s] Cons.prems(1,3) by (simp add: balanced_def)
  have len: "port < length (dispatch_ring s)" "length (dispatch_ring s ! port) = nq"
    using Cons.prems(1) assms(2) by (simp_all add: rx_ok_def ring_row_ok_def list_all_length)
  then have at: "ring_at ?s port i = (if i = j then r else ring_at s port i)" for i
    using Cons.prems(3) by (simp add: c(1) ring_at_def nth_list_update)
  have "\<forall>i \<in> set js. 0 < ring_free (ring_at ?s port i)" using Cons.prems(2,4) at by auto
  then have IH: "rx_ok env np nq (fold (clone_to env port m) js ?s) \<and> to_stack (fold (clone_to env port m) js ?s) = to_stack ?s \<and>
    bsd_allocs (fold (clone_to env port m) js ?s) = bsd_allocs ?s \<and>
    (\<forall>j. j \<in> set js \<longrightarrow> (\<exists>c. copy_of m c \<and> ring_list (ring_at (fold (clone_to env port m) js ?s) port j) = ring_list (ring_at ?s port j) @ [c])) \<and>
    (\<forall>j. j \<notin> set js \<longrightarrow> ring_at (fold (clone_to env port m) js ?s) port j = ring_at ?s port j)"
    using Cons.prems ok by (intro Cons.IH) auto
  have j: "j \<notin> set js" using Cons.prems(2) by simp
  have "to_stack ?s = to_stack s" "bsd_allocs ?s = bsd_allocs s" by (simp_all add: c(1))
  then show ?case using IH at j c(2,3) unfolding ring_at_def by (auto split: if_splits)
qed simp

text \<open>An ARP frame that the stack has memory for.\<close>

definition arp_frame :: "rx_env \<Rightarrow> rte_mbuf \<Rightarrow> bool" where
  "arp_frame env m \<longleftrightarrow> m_segs m \<noteq> [] \<and> (\<forall>k. rx_bsd_alloc env k) \<and> 18 \<le> m_len m \<and> be16 (mtod m) 12 = RTE_ETHER_TYPE_ARP \<and>
     \<not> (rx_csum env \<and> cksum_bad m)"

lemma arp_class:
  assumes "arp_frame env m"
  shows "protocol_filter k (mtod m) (m_len m) = Some FILTER_ARP" "\<not> is_tcp_syn (mtod m) (m_len m)" "pkt_ok env m"
proof -
  have "\<not> m_len m < 6" using assms by (simp add: arp_frame_def word_less_nat_alt word_le_nat_alt)
  then show "protocol_filter k (mtod m) (m_len m) = Some FILTER_ARP" using assms by (simp add: protocol_filter_def arp_frame_def)
  show "\<not> is_tcp_syn (mtod m) (m_len m)" "pkt_ok env m"
    using assms by (simp_all add: is_tcp_syn_def ip_tcp_syn_def arp_frame_def pkt_ok_def)
qed

lemma copy_frame:
  assumes "copy_of m c" "arp_frame env m"
  shows "arp_frame env c"
proof -
  obtain a as where m: "m_segs m = a # as" using assms(2) by (cases "m_segs m") (auto simp: arp_frame_def)
  then obtain b bs where c: "m_segs c = b # bs" "data_len b = data_len a" "same_packet (unat (data_len a)) (seg_data a) (seg_data b)"
    using assms(1) by (auto simp: copy_of_def list_all2_Cons1)
  have "18 \<le> unat (data_len a)" using assms(2) by (simp add: arp_frame_def m_len_def seg0_def m word_le_nat_alt)
  then have "be16 (seg_data a) 12 = be16 (seg_data b) 12" using be16_same[OF c(3), of 12] by simp
  moreover have "cksum_bad c = cksum_bad m"
  proof -
    have "c = m\<lparr>m_segs := m_segs c, nb_segs := nb_segs c\<rparr>" using assms(1) unfolding copy_of_def by blast
    then have "cksum_bad c = cksum_bad (m\<lparr>m_segs := m_segs c, nb_segs := nb_segs c\<rparr>)" by (rule arg_cong)
    also have "\<dots> = cksum_bad m" by simp
    finally show ?thesis .
  qed
  ultimately show ?thesis using assms(2) m c(1,2) by (simp add: arp_frame_def m_len_def mtod_def seg0_def)
qed

lemma input_arp: "arp_frame env m \<Longrightarrow> to_stack (ff_veth_input env m s) = to_stack s @ [m] \<and> dispatch_ring (ff_veth_input env m s) = dispatch_ring s"
  by (auto simp: arp_frame_def ff_veth_input_def bsd_chain_all Let_def)

lemma to_kni_frame: "to_stack (to_kni env filt port m s) = to_stack s" "dispatch_ring (to_kni env filt port m s) = dispatch_ring s"
  by (simp_all add: to_kni_def)

lemma clone_frame:
  assumes "pktmbuf_deep_clone env m s = (res, s')"
  shows "to_stack s' = to_stack s" "dispatch_ring s' = dispatch_ring s"
  using assms by (auto simp: pktmbuf_deep_clone_def free_segs_def Let_def split: prod.splits if_splits)

lemma broadcast_stack:
  fixes s :: rx_state and port queue :: nat
  assumes "arp_frame env m"
  defines "js \<equiv> filter (\<lambda>j. j \<noteq> queue) [0..<length (dispatch_ring s ! port)]"
  shows "to_stack (rx_broadcast env filt port queue from_ring m s) =
      to_stack (if from_ring then s else fold (clone_to env port m) js s) @ [m]"
    "dispatch_ring (rx_broadcast env filt port queue from_ring m s) =
      dispatch_ring (if from_ring then s else fold (clone_to env port m) js s)"
proof -
  define s1 where "s1 = (if from_ring then s else fold (clone_to env port m) js s)"
  define s2 where "s2 = (if enable_kni (rx_ports env) \<and> ff_kni_is_runtime_owner (rx_cfg env) (rx_eal env)
    then case pktmbuf_deep_clone env m s1 of (None, s) \<Rightarrow> s | (Some mc, s) \<Rightarrow> to_kni env filt port mc s else s1)"
  have s2: "to_stack s2 = to_stack s1" "dispatch_ring s2 = dispatch_ring s1"
    using clone_frame[of env m s1] by (auto simp: s2_def to_kni_frame split: prod.splits option.splits)
  have "rx_broadcast env filt port queue from_ring m s = ff_veth_input env m s2"
    by (simp add: rx_broadcast_def Let_def s1_def s2_def js_def)
  then show "to_stack (rx_broadcast env filt port queue from_ring m s) = to_stack s1 @ [m]"
    "dispatch_ring (rx_broadcast env filt port queue from_ring m s) = dispatch_ring s1"
    using input_arp[OF assms(1), of s2] s2 by simp_all
qed

lemma rx_packet_arp:
  assumes "arp_frame env m" "from_ring \<or> rx_dispatcher env = None"
  obtains s0 where "dispatch_ring s0 = dispatch_ring s" "to_stack s0 = to_stack s" "rx_ok env np nq s \<Longrightarrow> rx_ok env np nq s0"
    "rx_packet env txq port queue from_ring (m, avail) s = Inr (rx_broadcast env FILTER_ARP port queue from_ring m s0)"
proof -
  let ?f = "\<lambda>t. t\<lparr>t_rx_packets := t_rx_packets t + ucast (nb_segs m), t_rx_bytes := t_rx_bytes t + ucast (pkt_len m)\<rparr>"
  let ?s = "if from_ring then s else traffic ?f s"
  have "rx_packet env txq port queue from_ring (m, avail) s = Inr (rx_broadcast env FILTER_ARP port queue from_ring m ?s)"
    using assms(2) arp_class[OF assms(1)] by (auto simp: rx_packet_def rx_dispatch_def rx_deliver_def Let_def)
  moreover have "rx_ok env np nq s \<Longrightarrow> rx_ok env np nq ?s" by (simp add: rx_ok_def traffic_def)
  ultimately show ?thesis by (intro that[of ?s]) (simp_all add: traffic_def)
qed

text \<open>A class that depends on the byte behind a short frame.\<close>

lemma short_frame_class:
  assumes "6 \<le> len" "len < 14"
  defines "frame \<equiv> \<lambda>b i :: nat. if i = 12 then 0x08 else if i = 13 then b else 0 :: u8"
  shows "same_packet (unat len) (frame 0x06) (frame 0x07) \<and> protocol_filter k (frame 0x06) len \<noteq> protocol_filter k (frame 0x07) len"
proof -
  have n: "unat len < 14" "\<not> len < 6" using assms(1,2) by (simp_all add: word_less_nat_alt word_le_nat_alt)
  have t: "be16 (frame 0x06) 12 = RTE_ETHER_TYPE_ARP" "be16 (frame 0x07) 12 = 0x0807" "frame b 0 = 0" for b
    by (simp_all add: be16_def bytes_u16_def frame_def)
  have "protocol_filter k (frame 0x06) len = Some FILTER_ARP" "protocol_filter k (frame 0x07) len = Some FILTER_UNKNOWN"
    using n(2) t by (simp_all add: protocol_filter_def Let_def)
  then show ?thesis using n(1) by (auto simp: same_packet_def frame_def)
qed

lemma arp_received:
  assumes "arp_frame env m" "rx_dispatcher env = None" "rx_ok env np nq s" "port < np" "\<forall>k. rx_alloc env k \<noteq> None"
    "\<forall>j < nq. j \<noteq> queue \<longrightarrow> 0 < ring_free (ring_at s port j)"
  obtains s' where "rx_packet env txq port queue False (m, avail) s = Inr s'" "rx_ok env np nq s'" "to_stack s' = to_stack s @ [m]"
    "\<forall>j < nq. j \<noteq> queue \<longrightarrow> (\<exists>c. copy_of m c \<and> ring_list (ring_at s' port j) = ring_list (ring_at s port j) @ [c])"
proof -
  obtain s0 where s0: "dispatch_ring s0 = dispatch_ring s" "to_stack s0 = to_stack s" "rx_ok env np nq s \<Longrightarrow> rx_ok env np nq s0"
    "rx_packet env txq port queue False (m, avail) s = Inr (rx_broadcast env FILTER_ARP port queue False m s0)"
    using rx_packet_arp[OF assms(1), of False s np nq txq port queue avail] assms(2) by blast
  let ?s' = "rx_broadcast env FILTER_ARP port queue False m s0"
  have ok0: "rx_ok env np nq s0" by (rule s0(3)[OF assms(3)])
  have nq: "length (dispatch_ring s0 ! port) = nq" using ok0 assms(4) by (simp add: rx_ok_def ring_row_ok_def list_all_length)
  let ?js = "filter (\<lambda>j. j \<noteq> queue) [0..<nq]"
  have room: "\<forall>j \<in> set ?js. 0 < ring_free (ring_at s0 port j)" using assms(6) s0(1) by (auto simp: ring_at_def)
  note f = fold_clone_to[OF ok0 assms(4,5) arp_class(3)[OF assms(1)], of ?js] room
  note b = broadcast_stack[OF assms(1), of FILTER_ARP port queue False s0, unfolded nq]
  have "rx_ok env np nq ?s'"
    using balanced_broadcast[OF assms(4) arp_class(3)[OF assms(1)], of nq s0 FILTER_ARP queue False] ok0 by (simp add: balanced_def)
  then show ?thesis
    using that[OF s0(4)] f b s0(1,2) by (auto simp: ring_at_def)
qed

lemma arp_from_ring:
  assumes "arp_frame env c" "rx_ok env0 np nq s" "port < np" "j < nq" "ring_list (ring_at s port j) = [c]"
  shows "\<exists>s'. process_dispatch_ring env txq port j s = Inr (1, s') \<and> to_stack s' = to_stack s @ [c]"
proof -
  let ?r = "dispatch_ring s ! port ! j"
  obtain bufs r where d: "rte_ring_dequeue_burst ?r (of_nat MAX_PKT_BURST) = (bufs, r)" by force
  then have g: "ring_get ?r MAX_PKT_BURST RTE_RING_QUEUE_VARIABLE = (bufs, r)"
    by (simp add: ring_get_def rte_ring_dequeue_burst_def del: MAX_PKT_BURST_def)
  have "MAX_PKT_BURST < 2 ^ 32" by (simp add: MAX_PKT_BURST_def)
  then have "bufs = take (enqueued RTE_RING_QUEUE_VARIABLE MAX_PKT_BURST (length (ring_list ?r))) (ring_list ?r)"
    using ring_get_law[OF dispatch_ring_at(1)[OF assms(2-4)] _ g] by blast
  then have "bufs = [c]" using assms(5) by (simp add: MAX_PKT_BURST_def ring_at_def enqueued_def)
  let ?s = "s\<lparr>dispatch_ring := (dispatch_ring s)[port := (dispatch_ring s ! port)[j := r]]\<rparr>"
  obtain s0 where s0: "to_stack s0 = to_stack ?s"
    "rx_packet env txq port j True (c, 0) ?s = Inr (rx_broadcast env FILTER_ARP port j True c s0)"
    using rx_packet_arp[OF assms(1), of True ?s np nq txq port j 0] by blast
  have "to_stack (rx_broadcast env FILTER_ARP port j True c s0) = to_stack s @ [c]"
    using broadcast_stack(1)[OF assms(1), of FILTER_ARP port j True s0] s0(1) by simp
  then show ?thesis using d \<open>bufs = [c]\<close> s0(2) by (simp add: process_dispatch_ring_def Let_def del: MAX_PKT_BURST_def)
qed

section \<open>Control messages\<close>

text \<open>What was set is what a later query tells, and what packets of no special class then meet; the answer to a query keeps
  the result that the message came with.\<close>

lemma knictl_set_get:
  assumes "handle_knictl_msg 1 a res s = (a', 0, s')"
  shows "a' = a \<and> a \<in> {0, 1, 2} \<and> handle_knictl_msg 0 b res' s' = (a, res', s')"
  using assms by (auto simp: handle_knictl_msg_def split: if_splits)

lemma knictl_all_to:
  assumes "enable_kni (rx_ports env)" "filt \<notin> {FILTER_ARP, FILTER_NDP}"
  shows "knictl_action s = FF_KNICTL_ACTION_ALL_TO_KNI \<Longrightarrow> rx_deliver env filt port queue from_ring m s = to_kni env filt port m s"
    "knictl_action s = FF_KNICTL_ACTION_ALL_TO_FF \<Longrightarrow> rx_deliver env filt port queue from_ring m s = ff_veth_input env m s"
  using assms by (simp_all add: rx_deliver_def)

section \<open>A small system\<close>

text \<open>One port with two queues, and an ARP request of 42 bytes.\<close>

definition arp_bytes :: "u8 list" where
  "arp_bytes = [255, 255, 255, 255, 255, 255, 2, 0, 0, 0, 0, 1, 8, 6] @ replicate 28 0"

definition demo_frame :: "u8 list \<Rightarrow> rte_mbuf" where
  "demo_frame bs = \<lparr>m_segs = [\<lparr>seg_addr = 7, seg_data = packet bs, data_len = of_nat (length bs), seg_headroom = 128\<rparr>],
     pkt_len = of_nat (length bs), nb_segs = 1, vlan_stripped = True, vlan_tci = 5, cksum_bad = False\<rparr>"

definition demo_ring_m :: "rte_mbuf rte_ring" where
  "demo_ring_m = the (rte_ring_init (demo_frame []) 4)"

definition demo_rx :: rx_state where
  "demo_rx = \<lparr>rx_kni = \<lparr>kni_rp = [demo_ring_m], kni_inject_rp = [demo_ring_m],
       kni_stat = [\<lparr>kni_port_id = 0, rx_packets = 0, rx_dropped = 0, tx_packets = 0, tx_dropped = 0\<rparr>],
       kni_rate_limt = \<lparr>console_packets = 0, gerneal_packets = 0, kernel_packets = 0\<rparr>, to_kernel = [], to_nic = [], pkt_freed = []\<rparr>,
     dispatch_ring = [[demo_ring_m, demo_ring_m]], tx_mbufs = [[]], kni_accept = False, knictl_action = FF_KNICTL_ACTION_DEFAULT,
     ff_traffic = \<lparr>t_rx_packets = 0, t_rx_bytes = 0, t_rx_dropped = 0, t_tx_packets = 0, t_tx_bytes = 0, t_tx_dropped = 0\<rparr>,
     allocs = 0, bsd_allocs = 0, to_stack = [], nic_sent = [], seg_freed = []\<rparr>"

definition demo_env :: "ff_config \<Rightarrow> rx_env" where
  "demo_env cfg = \<lparr>rx_cfg = cfg, rx_eal = \<lparr>is_primary = True, lcore_id = 0\<rparr>, rx_ports = ff_kni_ports True None None, rx_dispatcher = None,
     rx_alloc = (\<lambda>k. Some (100 + k, \<lambda>i. 0)), rx_bsd_alloc = (\<lambda>k. True), rx_tx = half_tx, rx_csum = True\<rparr>"

lemma demo_ring_m_ok: "ring_ok demo_ring_m" "ring_list demo_ring_m = []" "ring_free demo_ring_m = 3"
proof -
  have i: "rte_ring_init (demo_frame []) 4 = Some demo_ring_m"
    by (simp add: demo_ring_m_def rte_ring_init_def POWEROF2_def RTE_RING_SZ_MASK_def)
  show "ring_ok demo_ring_m" "ring_list demo_ring_m = []" "ring_free demo_ring_m = 3"
    using init_result[OF i] init_room[OF i] by simp_all
qed

lemma demo_rx_ok: "rx_ok (demo_env cfg) 1 2 demo_rx" "rx_held demo_rx = {#}" "rx_allocated (demo_env cfg) demo_rx = {#}"
  using demo_ring_m_ok
  by (simp_all add: rx_ok_def demo_rx_def kni_ok_def ring_row_ok_def rx_held_def rx_pkts_def kni_held_def rings_hold_def rx_allocated_def)

lemma demo_frame_head: "mtod (demo_frame bs) = packet bs" "m_len (demo_frame bs) = of_nat (length bs)" "m_segs (demo_frame bs) \<noteq> []"
  "pkt_ok env (demo_frame bs)"
  by (simp_all add: demo_frame_def mtod_def m_len_def seg0_def pkt_ok_def)

lemma demo_arp: "arp_frame (demo_env cfg) (demo_frame arp_bytes)"
  by (simp add: arp_frame_def demo_frame_head demo_env_def be16_def bytes_u16_def packet_def arp_bytes_def) (simp add: demo_frame_def)

lemma plain_bytes:
  assumes "4 \<notin> set bs" "18 \<le> length bs" "length bs < 2 ^ 16"
  shows "plain_frame (demo_frame bs)"
proof -
  have "packet bs i \<noteq> 4" for i
    using assms(1) nth_mem[of i bs] by (cases "i < length bs") (metis packet_def, simp add: packet_def)
  then show ?thesis using assms(2,3)
    by (simp add: plain_frame_def demo_frame_head endless_header_def word_le_nat_alt unat_of_nat)
qed

section \<open>Properties\<close>

text \<open>C2. No buffer is lost or owned twice on the receive path: over any sequence of received bursts, dispatch rings,
  drains of the send queues and exchanges with the kernel, the buffers brought in by packets and those allocated for copies
  are, each exactly once, in a ring, in a send queue, with the stack, the kernel or a NIC, or freed; failed allocations, full
  rings and packets that a device does not take included. Packets of several buffers need that the stack does not run out
  of memory.\<close>

theorem rx_conserves:
  assumes "rx_ok env np nq s" "list_all (event_fits env np nq) evs" "rx_run env evs s = Inr s'"
  shows "rx_ok env np nq s' \<and>
    rx_held s' + rx_allocated env s = rx_held s + rx_allocated env s' + pk_bufs (mset (concat (map event_given evs)))"
  using balanced_run[OF assms(2,3)] assms(1) by (simp add: balanced_def)

theorem rx_conserves_witness:
  "\<forall>cfg. \<exists>s'. rx_run (demo_env cfg) [Burst 0 0 0 [(demo_frame arp_bytes, 100)]] demo_rx = Inr s' \<and>
     rx_held s' = rx_allocated (demo_env cfg) s' + {#7#}"
proof
  fix cfg
  have "plain_frame (demo_frame arp_bytes)" by (rule plain_bytes) (simp_all add: arp_bytes_def)
  then obtain s' where s': "rx_run (demo_env cfg) [Burst 0 0 0 [(demo_frame arp_bytes, 100)]] demo_rx = Inr s'"
    using process_returns[of False "demo_env cfg" "[(demo_frame arp_bytes, 100)]" 0 0 0 demo_rx] by (auto simp: demo_env_def split: sum.splits)
  have "list_all (event_fits (demo_env cfg) 1 2) [Burst 0 0 0 [(demo_frame arp_bytes, 100)]]" by (simp add: demo_frame_head)
  from rx_conserves[OF demo_rx_ok(1) this s'] show "\<exists>s'. rx_run (demo_env cfg) [Burst 0 0 0 [(demo_frame arp_bytes, 100)]] demo_rx = Inr s' \<and>
     rx_held s' = rx_allocated (demo_env cfg) s' + {#7#}"
    using s' demo_rx_ok(2,3) by (auto simp: buffers_def demo_frame_def)
qed



text \<open>C17. A burst of frames of at least 18 bytes without an endless IPv4 header is processed to its end, whatever the state of
  the rings and pools, when no dispatcher is registered; with KNI enabled, one unicast frame that starts with such a header
  keeps the loop from ever returning.\<close>

theorem rx_returns:
  assumes "rx_dispatcher env = None"
  shows "(list_all (\<lambda>ma. plain_frame (fst ma)) bufs \<longrightarrow> (\<exists>s'. process_packets env txq port queue False bufs s = Inr s')) \<and>
    (enable_kni (rx_ports env) \<and> endless_frame m \<longrightarrow>
      process_packets env txq port queue False ((m, avail) # bufs) s = Inl Endless_Filter)"
  using process_returns[of False env bufs txq port queue s] rx_packet_endless[of m env False txq port queue avail s] assms by auto

theorem rx_returns_witness:
  "\<forall>cfg. (\<exists>s'. process_packets (demo_env cfg) 0 0 0 False [(demo_frame arp_bytes, 100)] demo_rx = Inr s') \<and>
     process_packets (demo_env cfg) 0 0 0 False
       [(demo_frame ([2, 0, 0, 0, 0, 1, 2, 0, 0, 0, 0, 2, 8, 0] @ (ipv4_hdr IPPROTO_IPIP)[0 := 0x40]), 100)] demo_rx = Inl Endless_Filter"
proof
  fix cfg
  let ?m = "demo_frame ([2, 0, 0, 0, 0, 1, 2, 0, 0, 0, 0, 2, 8, 0] @ (ipv4_hdr IPPROTO_IPIP)[0 := 0x40])"
  have "rx_dispatcher (demo_env cfg) = None" "enable_kni (rx_ports (demo_env cfg))" by (simp_all add: demo_env_def ff_kni_ports_def)
  moreover have "plain_frame (demo_frame arp_bytes)" by (rule plain_bytes) (simp_all add: arp_bytes_def)
  moreover have "endless_frame ?m"
    by (simp add: endless_frame_def demo_frame_head packet_def be16_def bytes_u16_def endless_header_def shift_def ipv4_hdr_def)
  ultimately show "(\<exists>s'. process_packets (demo_env cfg) 0 0 0 False [(demo_frame arp_bytes, 100)] demo_rx = Inr s') \<and>
     process_packets (demo_env cfg) 0 0 0 False [(?m, 100)] demo_rx = Inl Endless_Filter"
    using rx_returns[of "demo_env cfg" "[(demo_frame arp_bytes, 100)]" 0 0 0 demo_rx ?m 100]
      rx_returns[of "demo_env cfg" "[]" 0 0 0 demo_rx ?m 100] by auto
qed

text \<open>C25. The class of a frame of at least 18 bytes, and for any length whether it opens a TCP connection, depends on the bytes
  of the frame only. For a frame of 6 to 13 bytes the class depends on what is behind it in memory.\<close>

theorem frame_reads:
  assumes "same_packet (unat len) d e"
  shows "is_tcp_syn d len = is_tcp_syn e len \<and> (18 \<le> len \<longrightarrow> protocol_filter k d len = protocol_filter k e len) \<and>
    (6 \<le> len \<and> len < 14 \<longrightarrow>
      (\<exists>d' e'. same_packet (unat len) d' e' \<and> protocol_filter k d' len \<noteq> protocol_filter k e' len))"
  using is_tcp_syn_same[OF assms] protocol_filter_same[OF _ assms] short_frame_class by blast

theorem frame_reads_witness:
  "same_packet 42 (packet arp_bytes) (packet (arp_bytes @ [1])) \<and>
   protocol_filter (ff_kni_ports True None None) (packet arp_bytes) 42 = protocol_filter (ff_kni_ports True None None) (packet (arp_bytes @ [1])) 42"
proof -
  have "length arp_bytes = 42" by (simp add: arp_bytes_def)
  then have s: "same_packet 42 (packet arp_bytes) (packet (arp_bytes @ [1]))" by (simp add: same_packet_def packet_def nth_append)
  have "(18 :: u16) \<le> 42" by simp
  then show ?thesis using s frame_reads[of 42 "packet arp_bytes" "packet (arp_bytes @ [1])" "ff_kni_ports True None None"] by simp
qed





end
