(* ===== verification/FF_Ring_Mt.thy ===== *)
theory FF_Ring_Mt
  imports FF_Ring
begin

text \<open>
  The rings of DPDK under concurrency, as the dispatch rings and the rings to the kernel use them: many producers and one
  consumer (\<open>RING_F_SC_DEQ\<close>), at the level of the single accesses to the shared indices and slots, which take effect in one order.

  The indices in memory are 32-bit words. The model counts them without bound and the code sees the words of the counts, so
  that a comparison in the code is one of words. A producer that sleeps between its reading of the head and its
  compare-and-swap while exactly \<open>2\<^sup>3\<^sup>2\<close> slots are reserved would be fooled; the steps exclude a sleep of that length.
\<close>

section \<open>State\<close>

text \<open>Where a producer is: about to read the head, with the head read, with the number of elements that fit, or with slots
  reserved, of which the first were written.\<close>

datatype 'a producer =
    P_Idle
  | P_Want "'a list" rte_ring_queue_behavior
  | P_Head "'a list" rte_ring_queue_behavior nat
  | P_Have "'a list" rte_ring_queue_behavior nat nat
  | P_Write "'a list" nat nat

datatype 'a consumer = C_Idle | C_Copy nat nat "'a list"

text \<open>The last two fields are the elements in the order of their reservation and those the consumer has returned.\<close>

record 'a mt_ring =
  mt_size :: u32
  ph :: nat
  pt :: nat
  ch :: nat
  ct :: nat
  slots :: "'a list"
  producers :: "nat \<Rightarrow> 'a producer"
  consumer :: "'a consumer"
  hist :: "'a list"
  returned :: "'a list"

abbreviation w32 :: "nat \<Rightarrow> u32" where "w32 \<equiv> of_nat"

definition fitting :: "u32 \<Rightarrow> nat \<Rightarrow> rte_ring_queue_behavior \<Rightarrow> u32" where
  "fitting free_entries len behavior =
    (if w32 len > free_entries then if behavior = RTE_RING_QUEUE_FIXED then 0 else free_entries else w32 len)"

text \<open>The slot of the \<open>j\<close>-th element behind a head.\<close>

definition slot_of :: "u32 \<Rightarrow> u32 \<Rightarrow> nat \<Rightarrow> nat" where
  "slot_of sz head j = (let idx = unat (head AND (sz - 1)) in if idx + j < unat sz then idx + j else idx + j - unat sz)"

definition mt_init :: "'a rte_ring \<Rightarrow> 'a mt_ring" where
  "mt_init r = \<lparr>mt_size = ring_size r, ph = 0, pt = 0, ch = 0, ct = 0, slots = ring_objs r,
     producers = (\<lambda>p. P_Idle), consumer = C_Idle, hist = [], returned = []\<rparr>"

section \<open>Steps\<close>

inductive mt_step :: "'a mt_ring \<Rightarrow> 'a mt_ring \<Rightarrow> bool" where
  call: "producers s p = P_Idle \<Longrightarrow> length xs < 2 ^ 32 \<Longrightarrow> mt_step s (s\<lparr>producers := (producers s)(p := P_Want xs b)\<rparr>)"
| read_head: "producers s p = P_Want xs b \<Longrightarrow> mt_step s (s\<lparr>producers := (producers s)(p := P_Head xs b (ph s))\<rparr>)"
| no_room: "producers s p = P_Head xs b old \<Longrightarrow>
    unat (fitting ((mt_size s - 1) + w32 (ct s) - w32 old) (length xs) b) = 0 \<Longrightarrow>
    mt_step s (s\<lparr>producers := (producers s)(p := P_Idle)\<rparr>)"
| room: "producers s p = P_Head xs b old \<Longrightarrow>
    n = unat (fitting ((mt_size s - 1) + w32 (ct s) - w32 old) (length xs) b) \<Longrightarrow> n \<noteq> 0 \<Longrightarrow>
    mt_step s (s\<lparr>producers := (producers s)(p := P_Have xs b old n)\<rparr>)"
| cas: "producers s p = P_Have xs b old n \<Longrightarrow> w32 (ph s) = w32 old \<Longrightarrow> ph s < old + 2 ^ 32 \<Longrightarrow>
    mt_step s (s\<lparr>ph := old + n, producers := (producers s)(p := P_Write (take n xs) old 0), hist := hist s @ take n xs\<rparr>)"
| cas_fails: "producers s p = P_Have xs b old n \<Longrightarrow> w32 (ph s) \<noteq> w32 old \<Longrightarrow>
    mt_step s (s\<lparr>producers := (producers s)(p := P_Want xs b)\<rparr>)"
| put: "producers s p = P_Write xs old j \<Longrightarrow> j < length xs \<Longrightarrow>
    mt_step s (s\<lparr>slots := (slots s)[slot_of (mt_size s) (w32 old) j := xs ! j], producers := (producers s)(p := P_Write xs old (Suc j))\<rparr>)"
| commit: "producers s p = P_Write xs old (length xs) \<Longrightarrow> w32 (pt s) = w32 old \<Longrightarrow>
    mt_step s (s\<lparr>pt := old + length xs, producers := (producers s)(p := P_Idle)\<rparr>)"
| take_head: "consumer s = C_Idle \<Longrightarrow> len < 2 ^ 32 \<Longrightarrow> n = unat (fitting (w32 (pt s) - w32 (ch s)) len b) \<Longrightarrow> n \<noteq> 0 \<Longrightarrow>
    mt_step s (s\<lparr>ch := ch s + n, consumer := C_Copy (ch s) n []\<rparr>)"
| copy: "consumer s = C_Copy old n acc \<Longrightarrow> length acc < n \<Longrightarrow>
    mt_step s (s\<lparr>consumer := C_Copy old n (acc @ [slots s ! slot_of (mt_size s) (w32 old) (length acc)])\<rparr>)"
| release: "consumer s = C_Copy old n acc \<Longrightarrow> length acc = n \<Longrightarrow>
    mt_step s (s\<lparr>ct := old + n, consumer := C_Idle, returned := returned s @ acc\<rparr>)"

text \<open>The same steps as a function of who moves: a producer starts a call or goes on with it, the consumer starts a call or
  goes on; \<open>None\<close> where nothing can happen, as with a producer that waits for the tail to reach its slots.\<close>

datatype 'a mt_action = Call nat "'a list" rte_ring_queue_behavior | Proceed nat | Dequeue nat rte_ring_queue_behavior | Fetch

definition proceed :: "'a mt_ring \<Rightarrow> nat \<Rightarrow> 'a mt_ring option" where
  "proceed s p = (case producers s p of
       P_Idle \<Rightarrow> None
     | P_Want xs b \<Rightarrow> Some (s\<lparr>producers := (producers s)(p := P_Head xs b (ph s))\<rparr>)
     | P_Head xs b old \<Rightarrow>
         let n = unat (fitting ((mt_size s - 1) + w32 (ct s) - w32 old) (length xs) b)
         in Some (s\<lparr>producers := (producers s)(p := if n = 0 then P_Idle else P_Have xs b old n)\<rparr>)
     | P_Have xs b old n \<Rightarrow>
         if w32 (ph s) \<noteq> w32 old then Some (s\<lparr>producers := (producers s)(p := P_Want xs b)\<rparr>)
         else if ph s < old + 2 ^ 32
         then Some (s\<lparr>ph := old + n, producers := (producers s)(p := P_Write (take n xs) old 0), hist := hist s @ take n xs\<rparr>)
         else None
     | P_Write xs old j \<Rightarrow>
         if j < length xs
         then Some (s\<lparr>slots := (slots s)[slot_of (mt_size s) (w32 old) j := xs ! j], producers := (producers s)(p := P_Write xs old (Suc j))\<rparr>)
         else if j = length xs \<and> w32 (pt s) = w32 old then Some (s\<lparr>pt := old + length xs, producers := (producers s)(p := P_Idle)\<rparr>)
         else None)"

fun mt_exec :: "'a mt_action \<Rightarrow> 'a mt_ring \<Rightarrow> 'a mt_ring option" where
  "mt_exec (Call p xs b) s = (case producers s p of
     P_Idle \<Rightarrow> if length xs < 2 ^ 32 then Some (s\<lparr>producers := (producers s)(p := P_Want xs b)\<rparr>) else None | _ \<Rightarrow> None)"
| "mt_exec (Proceed p) s = proceed s p"
| "mt_exec (Dequeue len b) s = (case consumer s of
     C_Idle \<Rightarrow> let n = unat (fitting (w32 (pt s) - w32 (ch s)) len b)
       in if len < 2 ^ 32 \<and> n \<noteq> 0 then Some (s\<lparr>ch := ch s + n, consumer := C_Copy (ch s) n []\<rparr>) else None
   | C_Copy _ _ _ \<Rightarrow> None)"
| "mt_exec Fetch s = (case consumer s of
     C_Idle \<Rightarrow> None
   | C_Copy old n acc \<Rightarrow>
       if length acc < n then Some (s\<lparr>consumer := C_Copy old n (acc @ [slots s ! slot_of (mt_size s) (w32 old) (length acc)])\<rparr>)
       else if length acc = n then Some (s\<lparr>ct := old + n, consumer := C_Idle, returned := returned s @ acc\<rparr>) else None)"

fun mt_run :: "'a mt_action list \<Rightarrow> 'a mt_ring \<Rightarrow> 'a mt_ring option" where
  "mt_run [] s = Some s"
| "mt_run (a # as) s = (case mt_exec a s of None \<Rightarrow> None | Some s' \<Rightarrow> mt_run as s')"

lemma mt_exec_step: "mt_exec a s = Some s' \<Longrightarrow> mt_step s s'"
  by (cases a)
    (auto simp: proceed_def Let_def intro: mt_step.intros split: producer.splits consumer.splits if_splits)

lemma mt_step_exec: "mt_step s s' \<Longrightarrow> \<exists>a. mt_exec a s = Some s'"
proof (induction rule: mt_step.induct)
  case (call s p xs b) then show ?case by (intro exI[of _ "Call p xs b"]) simp
next
  case (take_head s len n b) then show ?case by (intro exI[of _ "Dequeue len b"]) (simp add: Let_def)
next
  case (copy s old n acc) then show ?case by (intro exI[of _ Fetch]) simp
next
  case (release s old n acc) then show ?case by (intro exI[of _ Fetch]) simp
next
  case (read_head s p xs b) then show ?case by (intro exI[of _ "Proceed p"]) (simp add: proceed_def Let_def)
next
  case (no_room s p xs b old) then show ?case by (intro exI[of _ "Proceed p"]) (simp add: proceed_def Let_def)
next
  case (room s p xs b old n) then show ?case by (intro exI[of _ "Proceed p"]) (simp add: proceed_def Let_def)
next
  case (cas s p xs b old n) then show ?case by (intro exI[of _ "Proceed p"]) (simp add: proceed_def Let_def)
next
  case (cas_fails s p xs b old n) then show ?case by (intro exI[of _ "Proceed p"]) (simp add: proceed_def Let_def)
next
  case (put s p xs old j) then show ?case by (intro exI[of _ "Proceed p"]) (simp add: proceed_def Let_def)
next
  case (commit s p xs old) then show ?case by (intro exI[of _ "Proceed p"]) (simp add: proceed_def Let_def)
qed

inductive mt_reach :: "'a rte_ring \<Rightarrow> 'a mt_ring \<Rightarrow> bool" for r where
  fresh: "mt_reach r (mt_init r)"
| step: "mt_reach r s \<Longrightarrow> mt_step s s' \<Longrightarrow> mt_reach r s'"

lemma mt_run_reach: "mt_reach r s \<Longrightarrow> mt_run as s = Some s' \<Longrightarrow> mt_reach r s'"
  by (induction as arbitrary: s) (auto split: option.splits dest!: mt_exec_step intro: mt_reach.step)

section \<open>Invariant\<close>

text \<open>The batches in flight lie between the tail and the head of the producers, without overlap and without gap.\<close>

abbreviation in_flight :: "'a mt_ring \<Rightarrow> nat \<Rightarrow> 'a list \<Rightarrow> nat \<Rightarrow> nat \<Rightarrow> bool" where
  "in_flight s p xs old j \<equiv> producers s p = P_Write xs old j"

definition batch_ok :: "'a mt_ring \<Rightarrow> 'a list \<Rightarrow> nat \<Rightarrow> nat \<Rightarrow> bool" where
  "batch_ok s xs old j \<longleftrightarrow> xs \<noteq> [] \<and> pt s \<le> old \<and> old + length xs \<le> ph s \<and> j \<le> length xs \<and>
     xs = take (length xs) (drop old (hist s)) \<and> (\<forall>i < j. slots s ! ((old + i) mod length (slots s)) = xs ! i)"

definition waiting_ok :: "'a mt_ring \<Rightarrow> 'a producer \<Rightarrow> bool" where
  "waiting_ok s pr \<longleftrightarrow> (case pr of
       P_Want xs b \<Rightarrow> length xs < 2 ^ 32
     | P_Head xs b old \<Rightarrow> length xs < 2 ^ 32 \<and> old \<le> ph s
     | P_Have xs b old n \<Rightarrow> length xs < 2 ^ 32 \<and> old \<le> ph s \<and> 0 < n \<and> n \<le> length xs \<and> (old = ph s \<longrightarrow> old + n < ct s + length (slots s))
     | _ \<Rightarrow> True)"

definition indices_ok :: "'a mt_ring \<Rightarrow> bool" where
  "indices_ok s \<longleftrightarrow> (\<exists>k < 31. unat (mt_size s) = 2 ^ k) \<and> length (slots s) = unat (mt_size s) \<and>
     ct s \<le> ch s \<and> ch s \<le> pt s \<and> pt s \<le> ph s \<and> ph s < ct s + length (slots s) \<and> length (hist s) = ph s"

definition committed_ok :: "'a mt_ring \<Rightarrow> bool" where
  "committed_ok s \<longleftrightarrow> returned s = take (ct s) (hist s) \<and> (\<forall>i. ct s \<le> i \<longrightarrow> i < pt s \<longrightarrow> slots s ! (i mod length (slots s)) = hist s ! i)"

definition consumer_ok :: "'a mt_ring \<Rightarrow> bool" where
  "consumer_ok s \<longleftrightarrow> (case consumer s of C_Idle \<Rightarrow> ch s = ct s
     | C_Copy old n acc \<Rightarrow> old = ct s \<and> ch s = old + n \<and> length acc \<le> n \<and> acc = take (length acc) (drop (ct s) (hist s)))"

definition flights_ok :: "'a mt_ring \<Rightarrow> bool" where
  "flights_ok s \<longleftrightarrow> (\<forall>p xs old j. in_flight s p xs old j \<longrightarrow> batch_ok s xs old j) \<and>
     (\<forall>p q xs old j ys old' j'. in_flight s p xs old j \<longrightarrow> in_flight s q ys old' j' \<longrightarrow> p \<noteq> q \<longrightarrow>
        old + length xs \<le> old' \<or> old' + length ys \<le> old) \<and>
     (\<forall>i. pt s \<le> i \<longrightarrow> i < ph s \<longrightarrow> (\<exists>p xs old j. in_flight s p xs old j \<and> old \<le> i \<and> i < old + length xs))"

definition mt_ok :: "'a mt_ring \<Rightarrow> bool" where
  "mt_ok s \<longleftrightarrow> indices_ok s \<and> committed_ok s \<and> consumer_ok s \<and> flights_ok s \<and> (\<forall>p. waiting_ok s (producers s p))"


section \<open>Words and slots\<close>

lemma fitting_enqueued: "len < 2 ^ 32 \<Longrightarrow> unat (fitting room len b) = enqueued b len (unat room)"
  by (auto simp: fitting_def enqueued_def word_less_nat_alt unat_of_nat)

lemma w32_eq: "w32 i = w32 j \<Longrightarrow> i \<le> j \<Longrightarrow> j < i + 2 ^ 32 \<Longrightarrow> i = j"
proof -
  assume a: "w32 i = w32 j" "i \<le> j" "j < i + 2 ^ 32"
  have "unat (w32 (j - i)) = 0" using a(1,2) by (simp add: of_nat_diff)
  then have "(j - i) mod 2 ^ 32 = 0" by (simp add: unat_of_nat)
  moreover have "j - i < 2 ^ 32" using a(2,3) by linarith
  ultimately show "i = j" using a(2) by simp
qed

lemma w32_diff: "i \<le> j \<Longrightarrow> j < i + 2 ^ 32 \<Longrightarrow> unat (w32 j - w32 i) = j - i"
proof -
  assume a: "i \<le> j" "j < i + 2 ^ 32"
  have "w32 j - w32 i = w32 (j - i)" using a(1) by (simp add: of_nat_diff)
  moreover have "j - i < 2 ^ 32" using a by linarith
  ultimately show ?thesis by (simp add: unat_of_nat)
qed

lemma mod_window: "x \<noteq> y \<Longrightarrow> c \<le> x \<Longrightarrow> x < c + N \<Longrightarrow> c \<le> y \<Longrightarrow> y < c + N \<Longrightarrow> x mod N \<noteq> y mod N" for c N :: nat
proof (induction x y rule: linorder_wlog)
  case (le x y)
  then have "0 < y - x" "y - x < N" by linarith+
  then have "\<not> N dvd y - x" by (auto dest: dvd_imp_le)
  then show ?case using le(1) by (metis mod_eq_dvd_iff_nat)
qed auto

lemma slot_of_mod:
  assumes "indices_ok s" "j < length (slots s)"
  shows "slot_of (mt_size s) (w32 h) j = (h + j) mod length (slots s)"
proof -
  obtain k where k: "k < 31" "unat (mt_size s) = 2 ^ k" "length (slots s) = 2 ^ k" using assms(1) by (auto simp: indices_ok_def)
  have "(2 :: nat) ^ k dvd 2 ^ 32" using k(1) by (intro le_imp_power_dvd) simp
  then have "unat (w32 h) mod 2 ^ k = h mod 2 ^ k" by (simp add: unat_of_nat mod_mod_cancel)
  then have "unat (w32 h AND (mt_size s - 1)) = h mod 2 ^ k" using mask_mod[OF k(2)] k(1) by simp
  then show ?thesis using cyc_mod[of "h mod 2 ^ k" "2 ^ k" j] assms(2) k(2,3)
    by (simp add: slot_of_def Let_def mod_add_left_eq)
qed

lemma size_bound: "indices_ok s \<Longrightarrow> length (slots s) \<le> 2 ^ 30"
proof -
  assume "indices_ok s"
  then obtain k where "k < 31" "length (slots s) = 2 ^ k" by (auto simp: indices_ok_def)
  moreover have "(2 :: nat) ^ k \<le> 2 ^ 30" using \<open>k < 31\<close> by (intro power_increasing) auto
  ultimately show ?thesis by simp
qed

section \<open>Every step keeps the invariant\<close>

lemma take_drop_append: "a + m \<le> length h \<Longrightarrow> take m (drop a (h @ y)) = take m (drop a h)"
  by simp

definition writes :: "'a producer \<Rightarrow> bool" where
  "writes pr \<longleftrightarrow> (case pr of P_Write xs old j \<Rightarrow> True | _ \<Rightarrow> False)"

lemma waiting_mono:
  "waiting_ok s pr \<Longrightarrow> ph s' = ph s \<Longrightarrow> ct s \<le> ct s' \<Longrightarrow> length (slots s') = length (slots s) \<Longrightarrow> waiting_ok s' pr"
  by (cases pr) (auto simp: waiting_ok_def)

lemma consumer_same:
  "consumer_ok s \<Longrightarrow> consumer s' = consumer s \<Longrightarrow> ch s' = ch s \<Longrightarrow> ct s' = ct s \<Longrightarrow> hist s' = hist s \<Longrightarrow> consumer_ok s'"
  by (cases "consumer s") (simp_all add: consumer_ok_def)

lemma mt_ok_move:
  assumes "mt_ok s" "\<not> writes (producers s p)" "\<not> writes pr" "waiting_ok s pr"
  shows "mt_ok (s\<lparr>producers := (producers s)(p := pr)\<rparr>)"
proof -
  have same: "((producers s)(p := pr)) q = P_Write xs old j \<longleftrightarrow> producers s q = P_Write xs old j" for q xs old j
    using assms(2,3) by (auto simp: writes_def)
  have "flights_ok (s\<lparr>producers := (producers s)(p := pr)\<rparr>)"
    using assms(1) by (simp add: mt_ok_def flights_ok_def batch_ok_def same del: fun_upd_apply)
  moreover have "indices_ok (s\<lparr>producers := (producers s)(p := pr)\<rparr>)" "committed_ok (s\<lparr>producers := (producers s)(p := pr)\<rparr>)"
    using assms(1) by (auto simp: mt_ok_def indices_ok_def committed_ok_def)
  moreover have "consumer_ok (s\<lparr>producers := (producers s)(p := pr)\<rparr>)"
    using assms(1) by (auto simp: mt_ok_def intro: consumer_same)
  moreover have "waiting_ok (s\<lparr>producers := (producers s)(p := pr)\<rparr>) (((producers s)(p := pr)) q)" for q
    using assms(1,4) by (auto simp: mt_ok_def intro: waiting_mono[of s])
  ultimately show ?thesis by (simp add: mt_ok_def)
qed

lemma mt_ok_read_tail:
  assumes "mt_ok s" "producers s p = P_Head xs b old"
    and n: "n = unat (fitting ((mt_size s - 1) + w32 (ct s) - w32 old) (length xs) b)"
  shows "mt_ok (s\<lparr>producers := (producers s)(p := if n = 0 then P_Idle else P_Have xs b old n)\<rparr>)"
proof (rule mt_ok_move[OF assms(1)])
  let ?room = "(mt_size s - 1) + w32 (ct s) - w32 old"
  have w: "length xs < 2 ^ 32" "old \<le> ph s" using assms(1,2) by (auto simp: mt_ok_def waiting_ok_def dest: spec[of _ p])
  have i: "indices_ok s" using assms(1) by (simp add: mt_ok_def)
  have N: "unat (mt_size s - 1) + 1 = length (slots s)"
  proof -
    obtain k where "unat (mt_size s) = 2 ^ k" "length (slots s) = unat (mt_size s)" using i by (auto simp: indices_ok_def)
    moreover from this have "mt_size s \<noteq> 0" by auto
    ultimately show ?thesis by simp
  qed
  have "n \<le> unat ?room" "n \<le> length xs" using enqueued_le fitting_enqueued[OF w(1)] n by metis+
  moreover have "old + unat ?room < ct s + length (slots s)" if "old = ph s"
  proof -
    have o: "ct s \<le> old" "old < ct s + length (slots s)" using i that by (auto simp: indices_ok_def)
    have d: "unat (w32 old - w32 (ct s)) = old - ct s" using o size_bound[OF i] by (intro w32_diff) auto
    then have "w32 old - w32 (ct s) \<le> mt_size s - 1" using o N by (simp add: word_le_nat_alt)
    then have "unat (mt_size s - 1 - (w32 old - w32 (ct s))) = unat (mt_size s - 1) - (old - ct s)" using d by (simp add: unat_sub)
    then show ?thesis using o N by (simp add: algebra_simps)
  qed
  ultimately show "waiting_ok s (if n = 0 then P_Idle else P_Have xs b old n)" using w by (auto simp: waiting_ok_def)
qed (use assms(2) in \<open>auto simp: writes_def\<close>)

lemma flights_okI:
  assumes "\<And>p xs old j. in_flight s p xs old j \<Longrightarrow> batch_ok s xs old j"
    and "\<And>p q xs old j ys old' j'. in_flight s p xs old j \<Longrightarrow> in_flight s q ys old' j' \<Longrightarrow> p \<noteq> q \<Longrightarrow>
      old + length xs \<le> old' \<or> old' + length ys \<le> old"
    and "\<And>i. pt s \<le> i \<Longrightarrow> i < ph s \<Longrightarrow> \<exists>p xs old j. in_flight s p xs old j \<and> old \<le> i \<and> i < old + length xs"
  shows "flights_ok s"
  using assms unfolding flights_ok_def by metis

lemma flights_okD:
  assumes "flights_ok s"
  shows "in_flight s p xs old j \<Longrightarrow> batch_ok s xs old j"
    and "in_flight s p xs old j \<Longrightarrow> in_flight s q ys old' j' \<Longrightarrow> p \<noteq> q \<Longrightarrow> old + length xs \<le> old' \<or> old' + length ys \<le> old"
    and "pt s \<le> i \<Longrightarrow> i < ph s \<Longrightarrow> \<exists>p xs old j. in_flight s p xs old j \<and> old \<le> i \<and> i < old + length xs"
  using assms unfolding flights_ok_def by metis+

lemma mt_ok_cas:
  assumes ok: "mt_ok s" and p: "producers s p = P_Have xs b old n" and "w32 (ph s) = w32 old" "ph s < old + 2 ^ 32"
  shows "mt_ok (s\<lparr>ph := old + n, producers := (producers s)(p := P_Write (take n xs) old 0), hist := hist s @ take n xs\<rparr>)"
    (is "mt_ok ?s")
proof -
  have w: "old \<le> ph s" "0 < n" "n \<le> length xs" "old = ph s \<longrightarrow> old + n < ct s + length (slots s)"
    using ok p by (auto simp: mt_ok_def waiting_ok_def dest: spec[of _ p])
  then have old: "old = ph s" using w32_eq[of old "ph s"] assms(3,4) by simp
  have i: "indices_ok s" and f: "flights_ok s" using ok by (auto simp: mt_ok_def)
  have len: "length (hist s) = ph s" "ct s \<le> ch s" "ch s \<le> pt s" "pt s \<le> ph s" using i by (auto simp: indices_ok_def)
  have keep: "batch_ok ?s ys o' j" if "batch_ok s ys o' j" for ys o' j
    using that len by (auto simp: batch_ok_def old)
  have "batch_ok ?s (take n xs) old 0" using w len by (auto simp: batch_ok_def old)
  then have "flights_ok ?s"
  proof (intro flights_okI, goal_cases)
    case (1 q ys o' j) then show ?case using flights_okD(1)[OF f, of q ys o' j] keep by (auto split: if_splits)
  next
    case (2 q r ys o' j zs o2 j2)
    then show ?case using flights_okD(1)[OF f, of q ys o' j] flights_okD(1)[OF f, of r zs o2 j2] flights_okD(2)[OF f, of q ys o' j r zs o2 j2]
      by (auto simp: batch_ok_def old split: if_splits)
  next
    case (3 i)
    show ?case
    proof (cases "i < ph s")
      case True
      then obtain q ys o' j where "in_flight s q ys o' j" "o' \<le> i" "i < o' + length ys" using flights_okD(3)[OF f, of i] 3 by auto
      moreover from this p have "q \<noteq> p" by auto
      ultimately show ?thesis by (intro exI[of _ q]) auto
    next
      case False then show ?thesis using 3 w by (intro exI[of _ p]) (auto simp: old)
    qed
  qed
  moreover have "waiting_ok ?s (producers ?s q)" for q
  proof (cases "q = p")
    case False
    have "waiting_ok s (producers s q)" using ok by (simp add: mt_ok_def)
    then show ?thesis using False w(2) by (cases "producers s q") (auto simp: waiting_ok_def old)
  qed (simp add: waiting_ok_def)
  moreover have "indices_ok ?s" using i w by (auto simp: indices_ok_def old)
  moreover have "committed_ok ?s" using ok len by (auto simp: mt_ok_def committed_ok_def nth_append)
  moreover have "consumer_ok ?s" using ok len by (auto simp: mt_ok_def consumer_ok_def split: consumer.splits)
  ultimately show ?thesis by (simp add: mt_ok_def)
qed

lemma mt_ok_put:
  assumes ok: "mt_ok s" and p: "in_flight s p xs old j" and j: "j < length xs"
  shows "mt_ok (s\<lparr>slots := (slots s)[slot_of (mt_size s) (w32 old) j := xs ! j], producers := (producers s)(p := P_Write xs old (Suc j))\<rparr>)"
    (is "mt_ok ?s")
proof -
  let ?N = "length (slots s)"
  have i: "indices_ok s" and f: "flights_ok s" using ok by (auto simp: mt_ok_def)
  have x: "ct s \<le> ch s" "ch s \<le> pt s" "pt s \<le> ph s" "ph s < ct s + ?N" using i by (auto simp: indices_ok_def)
  have b: "batch_ok s xs old j" by (rule flights_okD(1)[OF f p])
  then have o: "pt s \<le> old" "old + length xs \<le> ph s" by (auto simp: batch_ok_def)
  have k: "slot_of (mt_size s) (w32 old) j = (old + j) mod ?N" using j o x by (intro slot_of_mod[OF i]) linarith
  have hit: "slots ?s ! ((old + j) mod ?N) = xs ! j" using i by (auto simp: k indices_ok_def)
  have miss: "slots ?s ! (a mod ?N) = slots s ! (a mod ?N)" if "a \<noteq> old + j" "ct s \<le> a" "a < ph s" for a
    using mod_window[of "old + j" a "ct s" ?N] that x o j by (auto simp: k)
  have N: "length (slots ?s) = ?N" by simp
  have "flights_ok ?s"
  proof (intro flights_okI, goal_cases)
    case (1 q ys o' j')
    show ?case
    proof (cases "q = p")
      case True
      have "slots ?s ! ((old + a) mod ?N) = xs ! a" if "a < Suc j" for a
        using hit miss[of "old + a"] that b o x j by (cases "a = j") (auto simp: batch_ok_def)
      then show ?thesis using 1 True b j unfolding batch_ok_def N by auto
    next
      case False
      then have q: "in_flight s q ys o' j'" using 1 by auto
      have b': "batch_ok s ys o' j'" by (rule flights_okD(1)[OF f q])
      have "slots ?s ! ((o' + a) mod ?N) = ys ! a" if "a < j'" for a
      proof -
        have "o' + a \<noteq> old + j" using flights_okD(2)[OF f q p False] that b' j by (auto simp: batch_ok_def)
        then show ?thesis using miss[of "o' + a"] that b' x by (auto simp: batch_ok_def)
      qed
      then show ?thesis using b' unfolding batch_ok_def N by auto
    qed
  next
    case (2 q r ys o' j' zs o2 j2)
    then show ?case using flights_okD(2)[OF f, of q ys o' _ r zs o2] p by (auto split: if_splits)
  next
    case (3 a)
    then obtain q ys o' j' where q: "in_flight s q ys o' j'" "o' \<le> a" "a < o' + length ys" using flights_okD(3)[OF f, of a] by auto
    then have "\<exists>j. in_flight ?s q ys o' j" using p by (cases "q = p") auto
    then show ?case using q by blast
  qed
  moreover have "waiting_ok ?s (producers ?s q)" for q
    using ok by (cases "q = p") (auto simp: mt_ok_def waiting_ok_def[of _ "P_Write _ _ _"] waiting_ok_def[of _ P_Idle] intro: waiting_mono[of s])
  moreover have "committed_ok ?s"
    using ok miss o x unfolding mt_ok_def committed_ok_def N by auto
  moreover have "indices_ok ?s" using i by (simp add: indices_ok_def)
  moreover have "consumer_ok ?s" using ok by (auto simp: mt_ok_def intro: consumer_same)
  ultimately show ?thesis by (simp add: mt_ok_def)
qed

lemma mt_ok_commit:
  assumes ok: "mt_ok s" and p: "in_flight s p xs old (length xs)" and "w32 (pt s) = w32 old"
  shows "mt_ok (s\<lparr>pt := old + length xs, producers := (producers s)(p := P_Idle)\<rparr>)" (is "mt_ok ?s")
proof -
  let ?N = "length (slots s)"
  have i: "indices_ok s" and f: "flights_ok s" using ok by (auto simp: mt_ok_def)
  have x: "ct s \<le> ch s" "ch s \<le> pt s" "pt s \<le> ph s" "ph s < ct s + ?N" "length (hist s) = ph s" using i by (auto simp: indices_ok_def)
  have b: "batch_ok s xs old (length xs)" by (rule flights_okD(1)[OF f p])
  then have o: "pt s \<le> old" "old + length xs \<le> ph s" by (auto simp: batch_ok_def)
  have old: "pt s = old" using o x size_bound[OF i] by (intro w32_eq[OF assms(3)]) auto
  have "flights_ok ?s"
  proof (intro flights_okI, goal_cases)
    case (1 q ys o' j)
    then have q: "in_flight s q ys o' j" "q \<noteq> p" by (auto split: if_splits)
    have b': "batch_ok s ys o' j" by (rule flights_okD(1)[OF f q(1)])
    then have "0 < length ys" "old \<le> o'" by (simp_all add: batch_ok_def old)
    then have "old + length xs \<le> o'" using flights_okD(2)[OF f q(1) p q(2)] by linarith
    then show ?case using b' by (simp add: batch_ok_def)
  next
    case (2 q r ys o' j zs o2 j2) then show ?case using flights_okD(2)[OF f, of q ys o' j r zs o2 j2] by (auto split: if_splits)
  next
    case (3 a)
    then obtain q ys o' j where q: "in_flight s q ys o' j" "o' \<le> a" "a < o' + length ys" using flights_okD(3)[OF f, of a] old by auto
    moreover have "q \<noteq> p" using q p 3 by auto
    ultimately show ?case by (intro exI[of _ q]) auto
  qed
  moreover have "waiting_ok ?s (producers ?s q)" for q
    using ok by (cases "q = p") (auto simp: mt_ok_def waiting_ok_def[of _ "P_Write _ _ _"] waiting_ok_def[of _ P_Idle] intro: waiting_mono[of s])
  moreover have "slots s ! (a mod ?N) = hist s ! a" if "old \<le> a" "a < old + length xs" for a
  proof -
    have "slots s ! ((old + (a - old)) mod ?N) = xs ! (a - old)" using b that unfolding batch_ok_def
      by (metis add_diff_inverse_nat less_diff_conv2 not_less add.commute)
    also have "\<dots> = take (length xs) (drop old (hist s)) ! (a - old)" using b by (simp add: batch_ok_def)
    finally show ?thesis using that o x by simp
  qed
  then have "committed_ok ?s" using ok old by (auto simp: mt_ok_def committed_ok_def)
  moreover have "indices_ok ?s" using i o x old by (simp add: indices_ok_def)
  moreover have "consumer_ok ?s" using ok by (auto simp: mt_ok_def intro: consumer_same)
  ultimately show ?thesis by (simp add: mt_ok_def)
qed

lemma mt_ok_take_head:
  assumes ok: "mt_ok s" and c: "consumer s = C_Idle" and "len < 2 ^ 32" "n = unat (fitting (w32 (pt s) - w32 (ch s)) len b)"
  shows "mt_ok (s\<lparr>ch := ch s + n, consumer := C_Copy (ch s) n []\<rparr>)" (is "mt_ok ?s")
proof -
  have i: "indices_ok s" using ok by (simp add: mt_ok_def)
  then have x: "ct s \<le> ch s" "ch s \<le> pt s" "pt s \<le> ph s" "ph s < ct s + length (slots s)" by (auto simp: indices_ok_def)
  have "unat (w32 (pt s) - w32 (ch s)) = pt s - ch s" using x size_bound[OF i] by (intro w32_diff) auto
  then have "n \<le> pt s - ch s" using fitting_enqueued[OF assms(3)] enqueued_le(1) assms(4) by metis
  then have "indices_ok ?s" using i x by (simp add: indices_ok_def)
  moreover have "consumer_ok ?s" using ok c by (simp add: mt_ok_def consumer_ok_def)
  moreover have "flights_ok ?s" "committed_ok ?s" using ok by (simp_all add: mt_ok_def flights_ok_def batch_ok_def committed_ok_def)
  moreover have "waiting_ok ?s (producers ?s q)" for q using ok by (auto simp: mt_ok_def intro: waiting_mono[of s])
  ultimately show ?thesis by (simp add: mt_ok_def)
qed

lemma mt_ok_copy:
  assumes ok: "mt_ok s" and c: "consumer s = C_Copy old n acc" and a: "length acc < n"
  shows "mt_ok (s\<lparr>consumer := C_Copy old n (acc @ [slots s ! slot_of (mt_size s) (w32 old) (length acc)])\<rparr>)" (is "mt_ok ?s")
proof -
  have i: "indices_ok s" using ok by (simp add: mt_ok_def)
  then have x: "ch s \<le> pt s" "pt s \<le> ph s" "ph s < ct s + length (slots s)" "length (hist s) = ph s" by (auto simp: indices_ok_def)
  have o: "old = ct s" "ch s = old + n" "acc = take (length acc) (drop (ct s) (hist s))"
    using ok c by (auto simp: mt_ok_def consumer_ok_def)
  have "slot_of (mt_size s) (w32 old) (length acc) = (old + length acc) mod length (slots s)"
    using o x a by (intro slot_of_mod[OF i]) linarith
  then have "slots s ! slot_of (mt_size s) (w32 old) (length acc) = drop (ct s) (hist s) ! length acc"
    using ok o x a by (simp add: mt_ok_def committed_ok_def)
  then have "acc @ [slots s ! slot_of (mt_size s) (w32 old) (length acc)] = take (Suc (length acc)) (drop (ct s) (hist s))"
    using o x a by (subst take_Suc_conv_app_nth) auto
  then have "consumer_ok ?s" using o(1,2) a x by (auto simp: consumer_ok_def min_def)
  moreover have "flights_ok ?s" using ok by (simp add: mt_ok_def flights_ok_def batch_ok_def)
  moreover have "committed_ok ?s" "indices_ok ?s" using ok i by (simp add: mt_ok_def committed_ok_def, simp add: indices_ok_def)
  moreover have "waiting_ok ?s (producers ?s q)" for q using ok by (auto simp: mt_ok_def intro: waiting_mono[of s])
  ultimately show ?thesis by (simp add: mt_ok_def)
qed

lemma mt_ok_release:
  assumes ok: "mt_ok s" and c: "consumer s = C_Copy old n acc" and a: "length acc = n"
  shows "mt_ok (s\<lparr>ct := old + n, consumer := C_Idle, returned := returned s @ acc\<rparr>)" (is "mt_ok ?s")
proof -
  have i: "indices_ok s" using ok by (simp add: mt_ok_def)
  have o: "old = ct s" "ch s = old + n" "acc = take n (drop (ct s) (hist s))"
    using ok c a by (auto simp: mt_ok_def consumer_ok_def)
  have "committed_ok ?s" using ok o by (auto simp: mt_ok_def committed_ok_def take_add)
  moreover have "indices_ok ?s" using i o by (simp add: indices_ok_def)
  moreover have "consumer_ok ?s" using o by (simp add: consumer_ok_def)
  moreover have "flights_ok ?s" using ok by (simp add: mt_ok_def flights_ok_def batch_ok_def)
  moreover have "waiting_ok ?s (producers ?s q)" for q using ok o by (auto simp: mt_ok_def intro: waiting_mono[of s])
  ultimately show ?thesis by (simp add: mt_ok_def)
qed

lemma mt_step_ok: "mt_step s s' \<Longrightarrow> mt_ok s \<Longrightarrow> mt_ok s'"
proof (induction rule: mt_step.induct)
  case (call s p xs b) then show ?case by (intro mt_ok_move) (auto simp: writes_def waiting_ok_def)
next
  case (read_head s p xs b)
  then have "length xs < 2 ^ 32" by (auto simp: mt_ok_def waiting_ok_def dest: spec[of _ p])
  with read_head show ?case by (intro mt_ok_move) (auto simp: writes_def waiting_ok_def)
next
  case (cas_fails s p xs b old n)
  then have "length xs < 2 ^ 32" by (auto simp: mt_ok_def waiting_ok_def dest: spec[of _ p])
  with cas_fails show ?case by (intro mt_ok_move) (auto simp: writes_def waiting_ok_def)
next
  case (no_room s p xs b old) then show ?case using mt_ok_read_tail[of s p xs b old 0] by simp
next
  case (room s p xs b old n) then show ?case using mt_ok_read_tail[of s p xs b old n] by simp
qed (blast intro: mt_ok_cas mt_ok_put mt_ok_commit mt_ok_take_head mt_ok_copy mt_ok_release)+

lemma mt_init_ok: "ring_ok r \<Longrightarrow> mt_ok (mt_init r)"
  by (auto simp: ring_ok_def mt_ok_def mt_init_def indices_ok_def committed_ok_def consumer_ok_def flights_ok_def waiting_ok_def)

lemma mt_reach_ok: "mt_reach r s \<Longrightarrow> ring_ok r \<Longrightarrow> mt_ok s"
  by (induction rule: mt_reach.induct) (auto intro: mt_init_ok mt_step_ok)

lemma mt_reach_size: "mt_reach r s \<Longrightarrow> mt_size s = ring_size r"
proof (induction rule: mt_reach.induct)
  case (step s s') from step(2,3) show ?case by cases auto
qed (simp add: mt_init_def)

section \<open>Everything reserved can be delivered\<close>

lemma mt_steps_ok: "mt_step\<^sup>*\<^sup>* s s' \<Longrightarrow> mt_ok s \<Longrightarrow> mt_ok s'"
  by (induction rule: rtranclp_induct) (auto intro: mt_step_ok)

text \<open>The producer with the oldest reservation never waits.\<close>

lemma batch_finishes:
  assumes "in_flight s p xs (pt s) j" "j \<le> length xs"
  shows "\<exists>s'. mt_step\<^sup>*\<^sup>* s s' \<and> pt s' = pt s + length xs \<and> ph s' = ph s \<and> hist s' = hist s"
  using assms
proof (induction "length xs - j" arbitrary: s j)
  case 0
  then have "mt_step s (s\<lparr>pt := pt s + length xs, producers := (producers s)(p := P_Idle)\<rparr>)"
    by (intro mt_step.commit) auto
  then show ?case by (intro exI) (rule conjI, erule r_into_rtranclp, simp)
next
  case (Suc m)
  let ?s = "s\<lparr>slots := (slots s)[slot_of (mt_size s) (w32 (pt s)) j := xs ! j], producers := (producers s)(p := P_Write xs (pt s) (Suc j))\<rparr>"
  have j: "m = length xs - Suc j" "Suc j \<le> length xs" using Suc(2) by auto
  then have "mt_step s ?s" using Suc(3) by (intro mt_step.put) auto
  moreover obtain s' where "mt_step\<^sup>*\<^sup>* ?s s'" "pt s' = pt s + length xs" "ph s' = ph s" "hist s' = hist s"
    using Suc(1)[of "Suc j" ?s] j by auto
  ultimately show ?case by (meson converse_rtranclp_into_rtranclp)
qed

lemma batches_finish: "mt_ok s \<Longrightarrow> \<exists>s'. mt_step\<^sup>*\<^sup>* s s' \<and> pt s' = ph s' \<and> hist s' = hist s"
proof (induction "ph s - pt s" arbitrary: s rule: less_induct)
  case less
  have i: "pt s \<le> ph s" and f: "flights_ok s" using less(2) by (auto simp: mt_ok_def indices_ok_def)
  show ?case
  proof (cases "pt s = ph s")
    case False
    then obtain p xs old j where p: "in_flight s p xs old j" "old \<le> pt s" using flights_okD(3)[OF f, of "pt s"] i by auto
    have b: "batch_ok s xs old j" by (rule flights_okD(1)[OF f p(1)])
    then have o: "old = pt s" "j \<le> length xs" "0 < length xs" "pt s + length xs \<le> ph s" using p(2) by (auto simp: batch_ok_def)
    then obtain s' where s': "mt_step\<^sup>*\<^sup>* s s'" "pt s' = pt s + length xs" "ph s' = ph s" "hist s' = hist s"
      using batch_finishes[of s p xs j] p by auto
    then show ?thesis using less(1)[of s'] mt_steps_ok[OF s'(1) less(2)] o by (metis add_less_cancel_left diff_less_mono2 less_add_same_cancel1 less_le_trans rtranclp_trans)
  qed auto
qed

lemma copy_finishes:
  assumes "consumer s = C_Copy old n acc" "length acc \<le> n"
  shows "\<exists>s'. mt_step\<^sup>*\<^sup>* s s' \<and> consumer s' = C_Idle \<and> ct s' = old + n \<and> pt s' = pt s \<and> ph s' = ph s \<and> hist s' = hist s"
  using assms
proof (induction "n - length acc" arbitrary: s acc)
  case 0
  then have "mt_step s (s\<lparr>ct := old + n, consumer := C_Idle, returned := returned s @ acc\<rparr>)" by (intro mt_step.release) auto
  then show ?case by (intro exI) (rule conjI, erule r_into_rtranclp, simp)
next
  case (Suc m)
  let ?acc = "acc @ [slots s ! slot_of (mt_size s) (w32 old) (length acc)]"
  have "mt_step s (s\<lparr>consumer := C_Copy old n ?acc\<rparr>)" using Suc(2,3) by (intro mt_step.copy) auto
  moreover have acc: "m = n - length ?acc" "length ?acc \<le> n" using Suc(2) by auto
  moreover obtain s' where "mt_step\<^sup>*\<^sup>* (s\<lparr>consumer := C_Copy old n ?acc\<rparr>) s'" "consumer s' = C_Idle" "ct s' = old + n"
    "pt s' = pt s" "ph s' = ph s" "hist s' = hist s"
    using Suc(1)[of ?acc "s\<lparr>consumer := C_Copy old n ?acc\<rparr>", OF acc(1) _ acc(2)] by auto
  ultimately show ?case by (meson converse_rtranclp_into_rtranclp)
qed

lemma idle_drains:
  assumes ok: "mt_ok s" and c: "consumer s = C_Idle" and t: "pt s = ph s"
  shows "\<exists>s'. mt_step\<^sup>*\<^sup>* s s' \<and> ct s' = ph s' \<and> hist s' = hist s"
proof (cases "ct s = ph s")
  case False
  have i: "indices_ok s" using ok by (simp add: mt_ok_def)
  have ch: "ch s = ct s" using ok c by (simp add: mt_ok_def consumer_ok_def)
  have x: "ct s \<le> ph s" "ph s < ct s + length (slots s)" using i by (auto simp: indices_ok_def)
  define n where "n = ph s - ct s"
  have n: "n < 2 ^ 32" "n \<noteq> 0" using x size_bound[OF i] False by (auto simp: n_def)
  have "unat (w32 (pt s) - w32 (ch s)) = n" using x size_bound[OF i] unfolding n_def t ch by (intro w32_diff) auto
  then have "n = unat (fitting (w32 (pt s) - w32 (ch s)) n RTE_RING_QUEUE_VARIABLE)"
    using fitting_enqueued[OF n(1)] by (simp add: enqueued_def)
  then have "mt_step s (s\<lparr>ch := ch s + n, consumer := C_Copy (ch s) n []\<rparr>)" by (rule mt_step.take_head[where s = s, OF c n(1) _ n(2)])
  moreover obtain s' where "mt_step\<^sup>*\<^sup>* (s\<lparr>ch := ch s + n, consumer := C_Copy (ch s) n []\<rparr>) s'" "ct s' = ch s + n" "ph s' = ph s" "hist s' = hist s"
    using copy_finishes[of "s\<lparr>ch := ch s + n, consumer := C_Copy (ch s) n []\<rparr>" "ch s" n "[]"] by auto
  moreover have "ch s + n = ph s" using x by (simp add: ch n_def)
  ultimately show ?thesis by (metis converse_rtranclp_into_rtranclp)
qed auto

lemma all_drains:
  assumes ok: "mt_ok s"
  shows "\<exists>s'. mt_step\<^sup>*\<^sup>* s s' \<and> hist s' = hist s \<and> returned s' = hist s"
proof -
  obtain s1 where 1: "mt_step\<^sup>*\<^sup>* s s1" "pt s1 = ph s1" "hist s1 = hist s" using batches_finish[OF ok] by auto
  note ok1 = mt_steps_ok[OF 1(1) ok]
  obtain s2 where 2: "mt_step\<^sup>*\<^sup>* s1 s2" "consumer s2 = C_Idle" "pt s2 = ph s2" "hist s2 = hist s1"
  proof (cases "consumer s1")
    case (C_Copy old n acc)
    then have "length acc \<le> n" using ok1 by (simp add: mt_ok_def consumer_ok_def)
    then show ?thesis using copy_finishes[OF C_Copy] 1(2) that by metis
  qed (use that[of s1] 1 in auto)
  obtain s3 where 3: "mt_step\<^sup>*\<^sup>* s2 s3" "ct s3 = ph s3" "hist s3 = hist s2"
    using idle_drains[OF mt_steps_ok[OF 2(1) ok1] 2(2,3)] by auto
  have "mt_ok s3" using mt_steps_ok[OF 3(1) mt_steps_ok[OF 2(1) ok1]] .
  then have "returned s3 = hist s3" using 3(2) by (simp add: mt_ok_def committed_ok_def indices_ok_def)
  moreover have "mt_step\<^sup>*\<^sup>* s s3" using 1(1) 2(1) 3(1) by (meson rtranclp_trans)
  ultimately show ?thesis using 1 2 3 by metis
qed

section \<open>Properties\<close>

lemma committed_slots:
  assumes "mt_ok s"
  shows "map (\<lambda>i. slots s ! slot_of (mt_size s) (w32 (ct s)) i) [0..<pt s - ct s] = take (pt s - ct s) (drop (ct s) (hist s))"
proof (rule nth_equalityI)
  have i: "indices_ok s" using assms by (simp add: mt_ok_def)
  then have x: "ct s \<le> pt s" "pt s \<le> ph s" "ph s < ct s + length (slots s)" "length (hist s) = ph s" by (auto simp: indices_ok_def)
  show "length (map (\<lambda>i. slots s ! slot_of (mt_size s) (w32 (ct s)) i) [0..<pt s - ct s]) = length (take (pt s - ct s) (drop (ct s) (hist s)))"
    using x by simp
  fix a assume "a < length (map (\<lambda>i. slots s ! slot_of (mt_size s) (w32 (ct s)) i) [0..<pt s - ct s])"
  then have a: "a < pt s - ct s" by simp
  then have "slot_of (mt_size s) (w32 (ct s)) a = (ct s + a) mod length (slots s)" using x by (intro slot_of_mod[OF i]) linarith
  then show "map (\<lambda>i. slots s ! slot_of (mt_size s) (w32 (ct s)) i) [0..<pt s - ct s] ! a = take (pt s - ct s) (drop (ct s) (hist s)) ! a"
    using a x assms by (simp add: mt_ok_def committed_ok_def)
qed

text \<open>C3. However the steps of any number of producers and of the one consumer of a ring interleave, single reads and
  writes of the indices and slots included: what the consumer has returned is a prefix of the elements in the order in which
  their slots were reserved; the slots between the tails hold the next elements of that order, so that the consumer never
  reads a slot before its element is there; the slots reserved never exceed the capacity; and the batches that are still
  being written lie behind the tail, apart from each other. A producer is taken to reach its compare-and-swap before
  \<open>2\<^sup>3\<^sup>2\<close> elements are reserved by others.\<close>

theorem ring_mt_fifo:
  assumes "rte_ring_init x count = Some r" "count \<noteq> 0" "mt_reach r s"
  shows "returned s = take (ct s) (hist s) \<and>
    map (\<lambda>i. slots s ! slot_of count (w32 (ct s)) i) [0..<pt s - ct s] = take (pt s - ct s) (drop (ct s) (hist s)) \<and>
    ct s \<le> pt s \<and> pt s \<le> length (hist s) \<and> length (hist s) \<le> ct s + unat (ring_capacity r) \<and>
    (\<forall>p xs old j. producers s p = P_Write xs old j \<longrightarrow> pt s \<le> old \<and> xs = take (length xs) (drop old (hist s)) \<and>
      (\<forall>q ys old' j'. producers s q = P_Write ys old' j' \<longrightarrow> p \<noteq> q \<longrightarrow> old + length xs \<le> old' \<or> old' + length ys \<le> old))"
proof -
  have r: "ring_ok r" "ring_size r = count" using init_result(1)[OF assms(1,2)] assms(1) by (auto simp: rte_ring_init_def split: if_splits)
  note ok = mt_reach_ok[OF assms(3) r(1)]
  have sz: "mt_size s = count" using mt_reach_size[OF assms(3)] r(2) by simp
  have i: "indices_ok s" and f: "flights_ok s" and "returned s = take (ct s) (hist s)"
    using ok by (auto simp: mt_ok_def committed_ok_def)
  moreover have "unat (ring_capacity r) + 1 = length (slots s)"
    using ring_ok_sizes(1)[OF r(1)] i r sz by (auto simp: indices_ok_def ring_ok_def)
  then have "length (hist s) \<le> ct s + unat (ring_capacity r)" "ct s \<le> pt s" "pt s \<le> length (hist s)"
    using i by (auto simp: indices_ok_def)
  moreover have "pt s \<le> old \<and> xs = take (length xs) (drop old (hist s))" if "producers s p = P_Write xs old j" for p xs old j
    using flights_okD(1)[OF f that] by (simp add: batch_ok_def)
  ultimately show ?thesis using committed_slots[OF ok] flights_okD(2)[OF f] unfolding sz by blast
qed

text \<open>Two producers reserve in turn, the second after a failed attempt, and the second writes first.\<close>

definition demo_schedule :: "char mt_action list" where
  "demo_schedule = [Call 0 ''ab'' RTE_RING_QUEUE_FIXED, Call 1 ''cd'' RTE_RING_QUEUE_VARIABLE, Proceed 0, Proceed 1, Proceed 0, Proceed 1,
     Proceed 0, Proceed 1, Proceed 1, Proceed 1, Proceed 1, Proceed 1, Proceed 0, Proceed 0, Proceed 0,
     Dequeue 32 RTE_RING_QUEUE_VARIABLE, Fetch, Fetch, Fetch]"

definition demo_mt :: "char mt_ring" where
  "demo_mt = the (mt_run demo_schedule (mt_init demo_ring))"

lemma demo_ring_init:
  "mt_init demo_ring = \<lparr>mt_size = 4, ph = 0, pt = 0, ch = 0, ct = 0, slots = ''....'', producers = (\<lambda>p. P_Idle),
     consumer = C_Idle, hist = [], returned = []\<rparr>"
  by (simp add: mt_init_def demo_ring_def rte_ring_init_def POWEROF2_def RTE_RING_SZ_MASK_def) (simp add: numeral_eq_Suc)

lemma demo_run:
  "mt_run demo_schedule (mt_init demo_ring) = Some \<lparr>mt_size = 4, ph = 3, pt = 2, ch = 2, ct = 2, slots = ''abc.'',
     producers = (\<lambda>p. P_Idle)(1 := P_Write ''c'' 2 1), consumer = C_Idle, hist = ''abc'', returned = ''ab''\<rparr>"
  unfolding demo_ring_init demo_schedule_def
  by (simp add: proceed_def fitting_def slot_of_def Let_def fun_eq_iff)

lemma demo_mt_values: "returned demo_mt = ''ab''" "hist demo_mt = ''abc''" "producers demo_mt 1 = P_Write ''c'' 2 1"
  by (simp_all add: demo_mt_def demo_run)

lemma demo_mt_reach: "mt_reach demo_ring demo_mt"
  unfolding demo_mt_def by (rule mt_run_reach[OF mt_reach.fresh, of demo_schedule]) (simp add: demo_run)

text \<open>A comment in the code has the free entries between 0 and the capacity. A producer that has read a head which others have moved
  since, and emptied again, computes more; its compare-and-swap then fails.\<close>

lemma stale_free_entries:
  "\<exists>s xs b old. mt_run [Call 0 ''ab'' RTE_RING_QUEUE_FIXED, Proceed 0, Call 1 ''c'' RTE_RING_QUEUE_FIXED, Proceed 1, Proceed 1, Proceed 1,
       Proceed 1, Proceed 1, Dequeue 1 RTE_RING_QUEUE_FIXED, Fetch, Fetch] (mt_init demo_ring) = Some s \<and>
     producers s 0 = P_Head xs b old \<and> ring_capacity demo_ring = 3 \<and> (mt_size s - 1) + w32 (ct s) - w32 old = 4"
proof -
  have "ring_capacity demo_ring = 3" by code_simp
  then show ?thesis unfolding demo_ring_init by (simp add: proceed_def fitting_def slot_of_def Let_def)
qed

theorem ring_mt_fifo_witness:
  "mt_reach demo_ring demo_mt \<and> ''ab'' = take (ct demo_mt) ''abc'' \<and> pt demo_mt \<le> 2"
proof -
  have "rte_ring_init CHR ''.'' 4 = Some demo_ring" by code_simp
  from ring_mt_fifo[OF this _ demo_mt_reach] show ?thesis using demo_mt_reach demo_mt_values by auto
qed

text \<open>C16. Nothing that a producer has reserved is lost, and no order of steps ends in a deadlock: from every state that any
  interleaving has reached, the calls that have begun can go on, the producer with the oldest reservation first, so that the
  consumer returns every element reserved, in the order of the reservations.\<close>

theorem ring_mt_delivers:
  assumes "rte_ring_init x count = Some r" "count \<noteq> 0" "mt_reach r s"
  shows "\<exists>s'. mt_step\<^sup>*\<^sup>* s s' \<and> hist s' = hist s \<and> returned s' = hist s"
  using all_drains[OF mt_reach_ok[OF assms(3) init_result(1)[OF assms(1,2)]]] .

theorem ring_mt_delivers_witness:
  "returned demo_mt = ''ab'' \<and> (\<exists>s'. mt_step\<^sup>*\<^sup>* demo_mt s' \<and> returned s' = ''abc'')"
proof -
  have "rte_ring_init CHR ''.'' 4 = Some demo_ring" by code_simp
  from ring_mt_delivers[OF this _ demo_mt_reach] show ?thesis using demo_mt_values by auto
qed

end
