(* ===== verification/Spec2Isabelle.thy ===== *)
theory Spec2Isabelle
  imports FF_Prelude FF_So_Zone FF_Rss_Tbl FF_Config_Load FF_Rx_Props FF_Ring_Mt
begin

text \<open>
  F-Stack runs the TCP/IP stack of FreeBSD in user processes on top of DPDK. Each process polls one or more queues of the
  network cards; the cards spread the flows over the queues by a hash (RSS). This library models the code of F-Stack that is
  its own: how a process finds local ports whose replies come back to it, how the configuration is read, how applications
  share socket contexts, and how received packets are classified, passed between processes, to the kernel and to the stack.

  \<^bold>\<open>How the parts interact.\<close> \<open>ff_load_config\<close> reads \<open>config.ini\<close> with the INI parser and its handlers into the global configuration.
  It determines the ports, the cores and with them the queues, the RSS tables to prepare and the ports that belong to the
  kernel. \<open>ff_dpdk_if.c\<close> sets up the RSS table of a card; the stack asks \<open>ff_rss_check\<close>, the tables of local ports or the search for
  a source port before it opens a connection. A received packet is classified (\<open>ff_dpdk_kni.c\<close>), and goes to the stack, over a
  ring of DPDK to another queue, or over a ring to the kernel; ARP goes to all of them. Applications that preload F-Stack's
  system calls attach to a context in shared memory.

  \<^bold>\<open>Theories.\<close>
  \<^item> \<open>FF_Prelude\<close>: types of machine words, byte order, the bit trick for powers of two, lemmas on lists.
  \<^item> \<open>FF_So_Zone\<close>: the pool of socket contexts (\<open>adapter/syscall/ff_so_zone.c\<close>): \<open>ff_socket_ops_zone\<close> is the zone with its use flags,
    \<open>attach_zone\<close> and \<open>detach_zone\<close> are \<open>ff_attach_so_context\<close> and \<open>ff_detach_so_context\<close> under the lock. The locale \<open>context_pool\<close> has
    the laws of a pool and is interpreted on them. A context is never handed out twice, a fresh zone serves as many attaches as
    it has contexts, detaching undoes attaching.
  \<^item> \<open>FF_Toeplitz\<close>: the hash and the keys (\<open>toeplitz_hash\<close> in \<open>lib/ff_dpdk_if.c\<close>), its equivalence with the XOR of key windows,
    linearity and the symmetric key.
  \<^item> \<open>FF_Rss\<close>: the indirection table, \<open>ff_rss_check\<close>, the construction of the key and the search for a source port. What the check
    accepts is what the card delivers to the queue; the search finds such a port when the thash library of DPDK, a parameter
    with its contract as a hypothesis, solves a request.
  \<^item> \<open>FF_Rss_Tbl\<close>: the static tables of local ports, for IPv4 and IPv6 by one set of definitions (\<open>v4_ops\<close>, \<open>v6_ops\<close>): initialisation,
    narrowing to a port range, lookup.
  \<^item> \<open>FF_Config_Types\<close>, \<open>FF_Ini_Parser\<close>, \<open>FF_Config_Str\<close>, \<open>FF_Config\<close>: the structures of \<open>ff_config.h\<close>, the parser, the syntax of values
    (lists, ranges, core masks) and the handlers, defaults, check, DPDK arguments, loading and unloading of \<open>ff_config.c\<close>.
    The locale \<open>ini_client\<close> lets an invariant of a handler carry over to the whole file.
  \<^item> \<open>FF_Config_Inv\<close>, \<open>FF_Config_Load\<close>: every array of the configuration keeps its size and its counts stay inside, for any file;
    files written in a regular form are loaded as written; what holds after the check; the files on which the code leaves an
    array or follows a null pointer; the DPDK arguments and the release of memory.
  \<^item> \<open>FF_Ring\<close>: the rings of DPDK (\<open>dpdk/lib/ring\<close>). The locale \<open>fifo\<close> has the laws of a bounded queue and is interpreted on
    the ring; the order and number of the elements is kept across the wrap-around of the 32-bit indices. Here one call on a ring
    follows another, as the components below use it.
  \<^item> \<open>FF_Ring_Mt\<close>: the same rings under concurrency, many producers and one consumer, as the step relation \<open>mt_step\<close> on single accesses
    to the indices and slots: the retry of a failed compare-and-swap, the wait for earlier producers, copying element by element.
    \<open>mt_exec\<close> has the same steps as a function. An invariant holds in every interleaving; it gives the order of the elements, that
    no slot is read early or overwritten, and that every reservation can be delivered.
  \<^item> \<open>FF_Kni\<close>: the bitmaps of the kernel's ports and the filter of IP packets (\<open>lib/ff_dpdk_kni.c\<close>): from the text of the
    configuration to the class of a packet, when the filter returns, and that it depends on the packet's bytes only.
  \<^item> \<open>FF_Kni_Io\<close>: queueing for the kernel and the exchange with it, over the rings of \<open>FF_Ring\<close>. The locale \<open>conserving\<close> says that
    steps neither lose nor double packets, and is interpreted on these operations; the rate limits.
  \<^item> \<open>FF_Rx\<close>, \<open>FF_Rx_Props\<close>: the receive path of \<open>lib/ff_dpdk_if.c\<close> (\<open>process_packets\<close> and what it calls) on top of these. Every buffer
    has one owner over any run of the loop, ARP reaches every queue, and when a burst is processed to its end.

  \<^bold>\<open>State and effects.\<close> A C structure is a record with its fields, arrays are lists, pointers that may be null are options, C strings are
  strings, and integers keep their width as words where they can wrap around. State is passed explicitly, one function per C function
  or per part of a long one. A read or write outside an array or through a null pointer is the value None, or a fault, so that its
  absence or presence can be stated. What leaves the program (packets handed to a card, the kernel, the stack, or freed) is recorded
  in the state. Packet data is a function from offsets to bytes, so that reads behind the end of a packet have a value.

  \<^bold>\<open>Parameters.\<close> Code that is not part of the repository, or that belongs to a driver, is an argument: the thash library and the
  drivers' bursts of DPDK, \<open>inet_pton\<close>, \<open>getopt_long\<close>, the files, the application's dispatcher and the allocators. The hypotheses
  on them are their documented behaviour: a thash adjustment meets the requested value, a device takes at most the packets it is given.

  \<^bold>\<open>Loops and fuel.\<close> Loops over arrays and lists are structural recursion; the INI parser recurses on the characters left. Two definitions
  have fuel. \<open>list_range\<close> has the length of the array and two more, which is enough since each iteration fills an element. The
  filter \<open>protocol_filter_ip\<close> has one unit per IP header; twice the length of the packet and two is enough for every packet
  on which the C function returns, and no fuel is for one on which it does not (\<open>kni_filter_terminates\<close>). The search for a source
  port is bounded by the code itself.

  \<^bold>\<open>Build.\<close> The default build of \<open>lib/Makefile\<close>: KNI and IPv6, no page arrays, no flow isolation, no IPsec; for the contexts no
  \<open>FF_MULTI_SC\<close> and no ring IPC.

  \<^bold>\<open>Not modelled.\<close>
  \<^item> The memory model of the hardware: in \<open>FF_Ring_Mt\<close> the accesses to a ring take effect in one order, the one the barriers in the code are
    there for. A producer that is stopped before its compare-and-swap while a multiple of \<open>2\<^sup>3\<^sup>2\<close> elements pass is excluded. Several
    consumers on one ring, and the other modes of synchronisation of DPDK, which F-Stack does not use.
  \<^item> The set-up of ports, queues and pools, the creation of the virtio device, statistics by time stamps, packet capture, log output: calls
    into DPDK or the operating system without a result that the code uses further.
  \<^item> The interface to the stack (\<open>ff_veth.c\<close>), the system call wrappers, epoll, and the replacements of kernel services (\<open>ff_glue.c\<close>,
    \<open>ff_kern_*.c\<close>, \<open>ff_lock.c\<close> and others): they are thin layers around code of FreeBSD, and what they do is what that code does.
  \<^item> The control messages other than that for KNI, the preloaded system calls behind the contexts, which wait on semaphores, and
    the micro threads, which switch stacks in assembly.
  \<^item> The vendored trees of DPDK and FreeBSD apart from the rings and the splitting of strings, the tools and the applications.
\<close>

end
